(* ===== verification/Prelude.thy ===== *)
theory Prelude
  imports Main "HOL-Library.Word"
begin

text \<open>
  Shared vocabulary of the development: the C integer types the sources use, the
  flag-word and little-endian lemmas, list facts about fixed-size arrays that are
  written at a cursor, the contract of a stage that counts what it lets through, and the collections
  the component proofs simplify with.

  \<^item> \<open>flag_simps\<close>: rewriting of bit tests on flag words;
  \<^item> \<open>frame_simps\<close>: frame rules (\<open>this operation leaves that field alone\<close>);
  \<^item> \<open>wf_intros\<close>: preservation of the well-formedness invariants.
\<close>

unbundle bit_operations_syntax

named_theorems flag_simps
named_theorems frame_simps
named_theorems wf_intros

section \<open>C integers\<close>

type_synonym u8 = "8 word"
type_synonym u16 = "16 word"
type_synonym u32 = "32 word"
type_synonym u64 = "64 word"

text \<open>
  The cast \<open>(__s64)x\<close> of a signed 32-bit value, as it is added to a 64-bit address.
\<close>

abbreviation sext64 :: "u32 \<Rightarrow> u64" where
  "sext64 \<equiv> scast"

section \<open>Flag words\<close>

definition has_flag :: "'a::len word \<Rightarrow> 'a word \<Rightarrow> bool" where
  "has_flag w f \<longleftrightarrow> w AND f \<noteq> 0"

lemma or_eq_zero_iff: "((x OR y :: 'a::len word) = 0) = (x = 0 \<and> y = 0)"
  by (auto simp: bit_eq_iff bit_simps)

lemma has_flag_or [flag_simps]: "has_flag (x OR y) f \<longleftrightarrow> has_flag x f \<or> has_flag y f"
  by (simp add: has_flag_def bit.conj_disj_distrib2 or_eq_zero_iff)

lemma has_flag_or_right: "has_flag x (f OR g) \<longleftrightarrow> has_flag x f \<or> has_flag x g"
  by (simp add: has_flag_def bit.conj_disj_distrib or_eq_zero_iff)

lemma has_flag_zero [flag_simps, simp]: "\<not> has_flag 0 f"
  by (simp add: has_flag_def)

lemma has_flag_numeral [flag_simps]:
  fixes w :: "'a::len word"
  shows "has_flag (numeral a :: 'a word) (numeral b) \<longleftrightarrow> (numeral a AND numeral b :: 'a word) \<noteq> 0"
    and "has_flag (1 :: 'a word) (numeral b) \<longleftrightarrow> (1 AND numeral b :: 'a word) \<noteq> 0"
    and "has_flag (numeral a :: 'a word) 1 \<longleftrightarrow> (numeral a AND 1 :: 'a word) \<noteq> 0"
    and "has_flag (1 :: 'a word) 1"
  by (simp_all add: has_flag_def)

section \<open>Little-endian words in byte lists\<close>

text \<open>
  The value a \<open>w\<close>-bit load yields from the bytes at increasing addresses, on the two
  (little-endian) targets the programs are built for.
\<close>

fun le_word :: "u8 list \<Rightarrow> 'a::len word" where
  "le_word [] = 0"
| "le_word (b # bs) = ucast b + 256 * le_word bs"

fun le_bytes :: "nat \<Rightarrow> 'a::len word \<Rightarrow> u8 list" where
  "le_bytes 0 w = []"
| "le_bytes (Suc n) w = ucast w # le_bytes n (w div 256)"

lemma length_le_bytes [simp]: "length (le_bytes n w) = n"
  by (induction n arbitrary: w) simp_all

section \<open>Arrays written at a cursor\<close>

lemma take_snoc_update:
  assumes "n < length xs"
  shows "take (Suc n) (xs[n := x]) = take n xs @ [x]"
  using assms by (simp add: take_Suc_conv_app_nth)

lemma take_snoc2_update:
  assumes "Suc n < length xs"
  shows "take (Suc (Suc n)) (xs[n := x, Suc n := y]) = take n xs @ [x, y]"
  using assms by (simp add: take_Suc_conv_app_nth)

lemma take_update_beyond:
  "m \<le> n \<Longrightarrow> take m (xs[n := x]) = take m xs"
  by (simp add: take_update_swap list_update_beyond)

lemma replicate_numeral_Cons: "replicate (numeral k) x = x # replicate (pred_numeral k) x"
  by (simp add: numeral_eq_Suc)

section \<open>Words as bounded numbers\<close>

lemma unat_lt_max [simp]: "unat (x :: u32) < 4294967296"
  using unsigned_less [of x, where ?'a = nat] by simp

lemma unat_u64_lt [simp]: "unat (x :: u64) < 18446744073709551616"
  using unsigned_less [of x, where ?'a = nat] by simp

lemma unat_plus_one_less:
  "unat (x :: 'a::len word) < n \<Longrightarrow> n < 2 ^ LENGTH('a) \<Longrightarrow> unat (x + 1) = Suc (unat x)"
  by (simp add: unat_plus_if')

lemma unat_ucast_u32 [simp]: "unat (ucast (x :: u32) :: u64) = unat x"
  by (simp add: unsigned_ucast_eq take_bit_nat_eq_self less_trans [OF unat_lt_max])

lemma word_eq_of_nat: "unat (w :: 'a::len word) = k \<Longrightarrow> w = of_nat k"
  by auto

lemma unat_diff_no_wrap: "(a :: 'a::len word) \<le> b \<Longrightarrow> unat (b - a) = unat b - unat a"
  by (simp add: unat_sub)

section \<open>Counting what happens to what is offered\<close>

text \<open>
  The contract of a stage that is offered items and keeps a count of those it lets through and of
  those it does not: on a state of its invariant each item is counted on one side or the other,
  modulo the width of the counters. The batches of the shim, the drain schedule and the kernel's
  probe consumer are such stages; over any sequence of items the counts add up to what was offered.
\<close>

locale counting_stage =
  fixes stage :: "'e \<Rightarrow> 's \<Rightarrow> 's" and weight :: "'e \<Rightarrow> u64" and passed :: "'s \<Rightarrow> u64" and held :: "'s \<Rightarrow> u64"
    and ok :: "'e \<Rightarrow> bool" and inv :: "'s \<Rightarrow> bool"
  assumes inv_stage: "inv s \<Longrightarrow> ok e \<Longrightarrow> inv (stage e s)"
    and counted: "inv s \<Longrightarrow> ok e \<Longrightarrow> passed (stage e s) + held (stage e s) = passed s + held s + weight e"
begin

lemma conserved:
  "inv s \<Longrightarrow> list_all ok es \<Longrightarrow>
    inv (fold stage es s) \<and> passed (fold stage es s) + held (fold stage es s) = passed s + held s + sum_list (map weight es)"
proof (induction es arbitrary: s)
  case (Cons e es)
  then show ?case using Cons.IH [of "stage e s"] counted [of s e] by (simp add: inv_stage add.assoc)
qed simp

end

end
