(* ===== verification/Bpf_Runtime.thy ===== *)
theory Bpf_Runtime
  imports Prelude "HOL-Library.AList"
begin

text \<open>
  The part of the BPF run-time environment the programs under \<open>src/bpf\<close> call, as the
  helper documentation in \<open>src/bpf/libbpf/bpf/bpf_helper_defs.h\<close> states it:

  \<^item> \<open>BPF_MAP_TYPE_ARRAY\<close> and \<open>PERCPU_ARRAY\<close>: a list, a lookup out of range is NULL
    (\<open>None\<close>);
  \<^item> \<open>BPF_MAP_TYPE_HASH\<close>: an association list with a capacity; \<open>bpf_map_update_elem\<close>
    returns \<open>-EEXIST\<close>, \<open>-ENOENT\<close> or \<open>-E2BIG\<close> and then leaves the map alone;
  \<^item> \<open>BPF_MAP_TYPE_LRU_HASH\<close>: an update always succeeds and may evict any other keys,
    which ones is a parameter;
  \<^item> \<open>bpf_probe_read_user\<close>: all bytes or none;
  \<^item> \<open>bpf_loop\<close>: the callback runs at most \<open>n\<close> times and stops the loop by returning 1.

  The contract a hash map offers its clients is the locale \<open>bpf_map\<close>, interpreted on the
  association-list implementation below.
\<close>

section \<open>Arrays\<close>

definition array_lookup :: "'a list \<Rightarrow> u32 \<Rightarrow> 'a option" where
  "array_lookup xs i = (if unat i < length xs then Some (xs ! unat i) else None)"

definition array_store :: "'a list \<Rightarrow> u32 \<Rightarrow> 'a \<Rightarrow> 'a list" where
  "array_store xs i v = xs[unat i := v]"

lemma array_lookup_None [simp]: "array_lookup xs i = None \<longleftrightarrow> length xs \<le> unat i"
  by (auto simp: array_lookup_def)

lemma array_lookup_Some: "array_lookup xs i = Some v \<longleftrightarrow> unat i < length xs \<and> v = xs ! unat i"
  by (auto simp: array_lookup_def)

lemma array_lookup_zero_single [simp]: "array_lookup [x] 0 = Some x"
  by (simp add: array_lookup_def)

lemma array_store_zero_single [simp]: "array_store [x] 0 y = [y]"
  by (simp add: array_store_def)

lemma length_array_store [simp]: "length (array_store xs i v) = length xs"
  by (simp add: array_store_def)

text \<open>\<open>if (d) *d += n\<close> on a counter array, the idiom of every counter in the programs.\<close>

definition array_add :: "u64 list \<Rightarrow> u32 \<Rightarrow> u64 \<Rightarrow> u64 list" where
  "array_add xs i n =
     (case array_lookup xs i of None \<Rightarrow> xs | Some v \<Rightarrow> array_store xs i (v + n))"

lemma length_array_add [simp]: "length (array_add xs i n) = length xs"
  by (simp add: array_add_def split: option.split)

lemma nth_array_add:
  "j < length xs \<Longrightarrow> array_add xs i n ! j = (if j = unat i then xs ! j + n else xs ! j)"
  by (auto simp: array_add_def array_store_def array_lookup_def)

section \<open>Hash maps\<close>

datatype upd_flag = BPF_ANY | BPF_NOEXIST | BPF_EXIST

record ('k, 'v) bpf_hash =
  entries :: "('k \<times> 'v) list"
  max_entries :: nat

definition E2BIG :: int where "E2BIG = 7"
definition EEXIST :: int where "EEXIST = 17"
definition ENOENT :: int where "ENOENT = 2"

lemmas errno_defs = E2BIG_def EEXIST_def ENOENT_def

definition hash_lookup :: "('k, 'v) bpf_hash \<Rightarrow> 'k \<Rightarrow> 'v option" where
  "hash_lookup m k = map_of (entries m) k"

definition hash_update ::
  "('k, 'v) bpf_hash \<Rightarrow> 'k \<Rightarrow> 'v \<Rightarrow> upd_flag \<Rightarrow> int \<times> ('k, 'v) bpf_hash" where
  "hash_update m k v flag =
     (case hash_lookup m k of
        Some _ \<Rightarrow>
          if flag = BPF_NOEXIST then (- EEXIST, m)
          else (0, m\<lparr>entries := AList.update k v (entries m)\<rparr>)
      | None \<Rightarrow>
          if flag = BPF_EXIST then (- ENOENT, m)
          else if max_entries m \<le> length (entries m) then (- E2BIG, m)
          else (0, m\<lparr>entries := AList.update k v (entries m)\<rparr>))"

definition hash_delete :: "('k, 'v) bpf_hash \<Rightarrow> 'k \<Rightarrow> ('k, 'v) bpf_hash" where
  "hash_delete m k = m\<lparr>entries := AList.delete k (entries m)\<rparr>"

text \<open>A store through the pointer a lookup returned: no helper call, cannot fail.\<close>

definition hash_store :: "('k, 'v) bpf_hash \<Rightarrow> 'k \<Rightarrow> 'v \<Rightarrow> ('k, 'v) bpf_hash" where
  "hash_store m k v =
     (case hash_lookup m k of None \<Rightarrow> m
      | Some _ \<Rightarrow> m\<lparr>entries := AList.update k v (entries m)\<rparr>)"

definition hash_wf :: "('k, 'v) bpf_hash \<Rightarrow> bool" where
  "hash_wf m \<longleftrightarrow> distinct (map fst (entries m)) \<and> length (entries m) \<le> max_entries m"

lemma length_alist_update:
  "length (AList.update k v xs) = (if k \<in> fst ` set xs then length xs else Suc (length xs))"
  by (induction xs) auto

lemma hash_lookup_None: "hash_lookup m k = None \<longleftrightarrow> k \<notin> fst ` set (entries m)"
  by (simp add: hash_lookup_def map_of_eq_None_iff)

lemma hash_lookup_entries_update [simp]:
  "hash_lookup (m\<lparr>entries := AList.update k v (entries m)\<rparr>) = (hash_lookup m)(k \<mapsto> v)"
  by (rule ext) (simp add: hash_lookup_def update_conv)

lemma hash_lookup_delete [simp]: "hash_lookup (hash_delete m k) = (hash_lookup m)(k := None)"
  by (rule ext) (simp add: hash_lookup_def hash_delete_def delete_conv')

lemma hash_lookup_store:
  "hash_lookup (hash_store m k v) =
     (if hash_lookup m k = None then hash_lookup m else (hash_lookup m)(k \<mapsto> v))"
  by (auto simp: hash_store_def split: option.split)

lemma hash_wf_update: "hash_wf m \<Longrightarrow> hash_wf (snd (hash_update m k v f))"
proof -
  assume wf: "hash_wf m"
  have "hash_lookup m k = None \<longleftrightarrow> k \<notin> fst ` set (entries m)" by (rule hash_lookup_None)
  with wf show ?thesis
    by (cases "hash_lookup m k")
      (auto simp: hash_update_def hash_wf_def length_alist_update intro: distinct_update)
qed

lemma hash_wf_delete: "hash_wf m \<Longrightarrow> hash_wf (hash_delete m k)"
  by (auto simp: hash_wf_def hash_delete_def intro: distinct_delete
      order_trans [OF length_delete_le])

lemma hash_wf_store: "hash_wf m \<Longrightarrow> hash_wf (hash_store m k v)"
  using hash_lookup_None [of m k]
  by (auto simp: hash_store_def hash_wf_def length_alist_update intro: distinct_update
      split: option.split)

subsection \<open>The contract of a hash map\<close>

locale bpf_map =
  fixes lookup :: "'m \<Rightarrow> 'k \<Rightarrow> 'v option"
    and update :: "'m \<Rightarrow> 'k \<Rightarrow> 'v \<Rightarrow> upd_flag \<Rightarrow> int \<times> 'm"
    and delete :: "'m \<Rightarrow> 'k \<Rightarrow> 'm"
    and store :: "'m \<Rightarrow> 'k \<Rightarrow> 'v \<Rightarrow> 'm"
    and invar :: "'m \<Rightarrow> bool"
  assumes update_ok: "update m k v f = (0, m') \<Longrightarrow> lookup m' = (lookup m)(k \<mapsto> v)"
    and update_err: "update m k v f = (e, m') \<Longrightarrow> e \<noteq> 0 \<Longrightarrow> m' = m"
    and update_live: "lookup m k = Some w \<Longrightarrow> fst (update m k v BPF_NOEXIST) \<noteq> 0"
    and update_any_live: "lookup m k = Some w \<Longrightarrow> fst (update m k v BPF_ANY) = 0"
    and lookup_delete: "lookup (delete m k) = (lookup m)(k := None)"
    and lookup_store: "lookup m k = Some w \<Longrightarrow> lookup (store m k v) = (lookup m)(k \<mapsto> v)"
    and invar_update: "invar m \<Longrightarrow> invar (snd (update m k v f))"
    and invar_delete: "invar m \<Longrightarrow> invar (delete m k)"
    and invar_store: "invar m \<Longrightarrow> invar (store m k v)"
begin

lemma update_other: "k' \<noteq> k \<Longrightarrow> lookup (snd (update m k v f)) k' = lookup m k'"
proof -
  assume ne: "k' \<noteq> k"
  obtain e m' where u: "update m k v f = (e, m')" by (cases "update m k v f")
  show ?thesis
  proof (cases "e = 0")
    case True
    with u ne show ?thesis by (simp add: update_ok [of m k v f m'])
  next
    case False
    with u show ?thesis by (simp add: update_err [OF u])
  qed
qed

lemma update_key:
  "lookup (snd (update m k v f)) k = (if fst (update m k v f) = 0 then Some v else lookup m k)"
proof -
  obtain e m' where u: "update m k v f = (e, m')" by (cases "update m k v f")
  show ?thesis
    using update_ok [of m k v f m'] update_err [OF u] u by (cases "e = 0") auto
qed

text \<open>An insert that must not replace: the live entry survives, whatever the outcome.\<close>

lemma noexist_keeps_live: "lookup m k' = Some w \<Longrightarrow> lookup (snd (update m k v BPF_NOEXIST)) k' = Some w"
  using update_live [of m k w v] update_key [of m k v BPF_NOEXIST] update_other [of k' k m v BPF_NOEXIST]
  by (cases "k' = k") auto

text \<open>Stash and take: what an update stored is what a later lookup finds, once.\<close>

lemma stash_take:
  assumes "update m k v f = (0, m')"
  shows "lookup m' k = Some v" and "lookup (delete m' k) k = None"
    and "k' \<noteq> k \<Longrightarrow> lookup (delete m' k) k' = lookup m k'"
  using assms by (simp_all add: update_ok lookup_delete)

end

interpretation bhash: bpf_map hash_lookup hash_update hash_delete hash_store hash_wf
  by (unfold_locales; (erule hash_wf_update | erule hash_wf_delete | erule hash_wf_store |
      auto simp: hash_update_def errno_defs hash_lookup_store split: option.splits if_splits))

section \<open>LRU hash maps\<close>

text \<open>
  An update stores the new pair and evicts the other keys \<open>ev\<close> names (none, as long as
  there is room); an LRU map never refuses.
\<close>

definition lru_update :: "('k \<Rightarrow> bool) \<Rightarrow> ('k \<Rightarrow> 'v option) \<Rightarrow> 'k \<Rightarrow> 'v \<Rightarrow> 'k \<Rightarrow> 'v option" where
  "lru_update ev m k v = (\<lambda>k'. if k' = k then Some v else if ev k' then None else m k')"

lemma lru_update_same [simp]: "lru_update ev m k v k = Some v"
  by (simp add: lru_update_def)

section \<open>User memory\<close>

type_synonym umem = "u64 \<Rightarrow> u8 option"

fun probe_read_user :: "umem \<Rightarrow> u64 \<Rightarrow> nat \<Rightarrow> u8 list option" where
  "probe_read_user m a 0 = Some []"
| "probe_read_user m a (Suc n) =
     (case m a of None \<Rightarrow> None | Some b \<Rightarrow> map_option ((#) b) (probe_read_user m (a + 1) n))"

lemma probe_read_user_numeral [simp]:
  "probe_read_user m a (numeral n) =
     (case m a of None \<Rightarrow> None | Some b \<Rightarrow> map_option ((#) b) (probe_read_user m (a + 1) (pred_numeral n)))"
  by (simp add: numeral_eq_Suc)

definition read_u64 :: "umem \<Rightarrow> u64 \<Rightarrow> u64 option" where
  "read_u64 m a = map_option le_word (probe_read_user m a 8)"

lemma length_probe_read_user: "probe_read_user m a n = Some bs \<Longrightarrow> length bs = n"
  by (induction n arbitrary: a bs) (auto split: option.splits)

section \<open>Bounded loops\<close>

fun bpf_loop_from :: "u32 \<Rightarrow> nat \<Rightarrow> (u32 \<Rightarrow> 's \<Rightarrow> bool \<times> 's) \<Rightarrow> 's \<Rightarrow> 's" where
  "bpf_loop_from i 0 f s = s"
| "bpf_loop_from i (Suc n) f s =
     (let (stop, s') = f i s in if stop then s' else bpf_loop_from (i + 1) n f s')"

definition bpf_loop :: "nat \<Rightarrow> (u32 \<Rightarrow> 's \<Rightarrow> bool \<times> 's) \<Rightarrow> 's \<Rightarrow> 's" where
  "bpf_loop n f s = bpf_loop_from 0 n f s"

text \<open>
  The loop rule: an invariant \<open>I\<close> that every continuing iteration keeps and every
  stopping iteration turns into \<open>Q\<close> gives \<open>I\<close> or \<open>Q\<close> at the end.
\<close>

lemma bpf_loop_from_rule:
  assumes "\<And>i s s'. I s \<Longrightarrow> f i s = (False, s') \<Longrightarrow> I s'"
    and "\<And>i s s'. I s \<Longrightarrow> f i s = (True, s') \<Longrightarrow> Q s'"
    and "I s"
  shows "I (bpf_loop_from i n f s) \<or> Q (bpf_loop_from i n f s)"
  using assms(3)
proof (induction n arbitrary: i s)
  case 0
  then show ?case by simp
next
  case (Suc n)
  obtain stop s' where fs: "f i s = (stop, s')" by (cases "f i s")
  show ?case
  proof (cases stop)
    case True
    with fs Suc.prems show ?thesis by (simp add: assms(2))
  next
    case False
    with fs Suc.prems have "I s'" by (simp add: assms(1))
    with False fs show ?thesis by (simp add: Suc.IH)
  qed
qed

lemma bpf_loop_rule:
  assumes "\<And>i s s'. I s \<Longrightarrow> f i s = (False, s') \<Longrightarrow> I s'"
    and "\<And>i s s'. I s \<Longrightarrow> f i s = (True, s') \<Longrightarrow> Q s'"
    and "I s"
  shows "I (bpf_loop n f s) \<or> Q (bpf_loop n f s)"
  unfolding bpf_loop_def by (rule bpf_loop_from_rule [of I f Q]) (use assms in blast)+

text \<open>The same rule with the number of continuing iterations in the invariant.\<close>

lemma bpf_loop_from_counted:
  assumes "\<And>k i s s'. I k s \<Longrightarrow> f i s = (False, s') \<Longrightarrow> I (Suc k) s'"
    and "\<And>k i s s'. I k s \<Longrightarrow> f i s = (True, s') \<Longrightarrow> Q s'"
  shows "I k s \<Longrightarrow> I (k + n) (bpf_loop_from i n f s) \<or> Q (bpf_loop_from i n f s)"
proof (induction n arbitrary: i k s)
  case (Suc n)
  obtain stop s' where fs: "f i s = (stop, s')" by (cases "f i s")
  show ?case
  proof (cases stop)
    case True
    with fs Suc.prems assms(2) show ?thesis by simp
  next
    case False
    with fs assms(1) [OF Suc.prems, of i s'] have "I (Suc k) s'" by simp
    with False fs Suc.IH [of "Suc k" s' "i + 1"] show ?thesis by simp
  qed
qed simp

lemma bpf_loop_counted:
  assumes "\<And>k i s s'. I k s \<Longrightarrow> f i s = (False, s') \<Longrightarrow> I (Suc k) s'"
    and "\<And>k i s s'. I k s \<Longrightarrow> f i s = (True, s') \<Longrightarrow> Q s'"
    and "I 0 s"
  shows "I n (bpf_loop n f s) \<or> Q (bpf_loop n f s)"
  using bpf_loop_from_counted [of I f Q 0 s n 0] assms by (simp add: bpf_loop_def)

lemma bpf_loop_invariant:
  assumes "\<And>i s. I s \<Longrightarrow> I (snd (f i s))" and "I s"
  shows "I (bpf_loop n f s)"
  using bpf_loop_rule [of I f I s n] assms by (metis snd_conv)

section \<open>Tasks\<close>

text \<open>The fields of \<open>struct task_struct\<close> every program reads, and the kernel-thread flag.\<close>

abbreviation PF_KTHREAD :: u32 where "PF_KTHREAD \<equiv> 0x00200000"

record task =
  t_pid :: u32
  t_tgid :: u32
  t_flags :: u32

end
