(* ===== verification/Unwind_Record.thy ===== *)
theory Unwind_Record
  imports Bpf_Runtime
begin

text \<open>
  \<open>src/bpf/unwind_record.h\<close>: the sample record the native walker and every interpreter
  module append to, the walk state that survives a tail call, the dispatch counters and
  the two pushers. The consumer's reading of a record is \<open>SplitSlots\<close>
  (\<open>src/unwind/interp/frame.go\<close>), and the lemmas relate the pushers to it: a push that
  succeeds appends exactly one frame to what the consumer decodes, a push that is refused
  changes nothing but the refusal flag.
\<close>

section \<open>Constants\<close>

abbreviation MAX_FRAMES :: nat where "MAX_FRAMES \<equiv> 127"

abbreviation FRAME_TAG_NATIVE :: u8 where "FRAME_TAG_NATIVE \<equiv> 0"
abbreviation UNWINDER_NATIVE :: u32 where "UNWINDER_NATIVE \<equiv> 0"

abbreviation INTERP_SLOT_RESUME_STEP :: u32 where "INTERP_SLOT_RESUME_STEP \<equiv> 0"
abbreviation INTERP_SLOT_RESUME_WALK :: u32 where "INTERP_SLOT_RESUME_WALK \<equiv> 1"
abbreviation INTERP_MAX_UNWINDERS :: u32 where "INTERP_MAX_UNWINDERS \<equiv> 8"

definition INTERP_SLOT_UNWINDER :: "u32 \<Rightarrow> u32" where
  "INTERP_SLOT_UNWINDER i = i + 1"

abbreviation INTERP_STAT_RANGE_HIT :: u32 where "INTERP_STAT_RANGE_HIT \<equiv> 0"
abbreviation INTERP_STAT_IN_RANGE :: u32 where "INTERP_STAT_IN_RANGE \<equiv> 1"
abbreviation INTERP_STAT_CLAIMED :: u32 where "INTERP_STAT_CLAIMED \<equiv> 2"
abbreviation INTERP_STAT_DISPATCHED :: u32 where "INTERP_STAT_DISPATCHED \<equiv> 3"
abbreviation INTERP_STAT_TAILCALL_FAILED :: u32 where "INTERP_STAT_TAILCALL_FAILED \<equiv> 4"
abbreviation INTERP_STAT_BUDGET :: u32 where "INTERP_STAT_BUDGET \<equiv> 5"
abbreviation INTERP_STAT_RESUMED :: u32 where "INTERP_STAT_RESUMED \<equiv> 6"
abbreviation INTERP_STAT_MAX :: u32 where "INTERP_STAT_MAX \<equiv> 7"

abbreviation WALKER_FLAG_FRAME_PUSH_REFUSED :: u16 where
  "WALKER_FLAG_FRAME_PUSH_REFUSED \<equiv> 0x80"

section \<open>The sample record\<close>

record sample_header =
  h_pid :: u32
  h_tid :: u32
  h_time_ns :: u64
  h_value :: u64
  h_mode :: u8
  h_n_pcs :: u8
  h_walker_flags :: u16
  h_kern_stack :: u64

record sample_record =
  hdr :: sample_header
  pcs :: "u64 list"
  tags :: "u8 list"

definition rec_flags :: "sample_record \<Rightarrow> u16" where
  "rec_flags r = h_walker_flags (hdr r)"

definition or_flags :: "u16 \<Rightarrow> sample_record \<Rightarrow> sample_record" where
  "or_flags f r = r\<lparr>hdr := (hdr r)\<lparr>h_walker_flags := h_walker_flags (hdr r) OR f\<rparr>\<rparr>"

lemma or_flags_simps [simp]:
  "pcs (or_flags f r) = pcs r" "tags (or_flags f r) = tags r"
  "rec_flags (or_flags f r) = rec_flags r OR f"
  by (simp_all add: or_flags_def rec_flags_def)

section \<open>The walk state that survives a tail call\<close>

record walk_persist =
  p_pc :: u64
  p_fp :: u64
  p_sp :: u64
  p_interp_scratch :: "u64 list"
  p_pid :: u32
  p_tid :: u32
  p_n_pcs :: u32
  p_pending_unwinder :: u32
  p_interp_done :: u32
  p_stopped :: u8
  p_tail_calls :: u32

section \<open>Dispatch counters\<close>

definition interp_count :: "u32 \<Rightarrow> u64 list \<Rightarrow> u64 list" where
  "interp_count slot stats = (if slot \<ge> INTERP_STAT_MAX then stats else array_add stats slot 1)"

lemma length_interp_count [simp]: "length (interp_count slot stats) = length stats"
  by (simp add: interp_count_def)

lemma nth_interp_count:
  "j < length stats \<Longrightarrow>
     interp_count slot stats ! j = (if slot < 7 \<and> j = unat slot then stats ! j + 1 else stats ! j)"
  by (auto simp: interp_count_def nth_array_add)

section \<open>Writing a frame\<close>

definition record_push_native :: "sample_record \<Rightarrow> u32 \<Rightarrow> u64 \<Rightarrow> bool \<times> sample_record \<times> u32" where
  "record_push_native r n pc =
     (let i = n in
      if i \<ge> of_nat MAX_FRAMES then (True, or_flags WALKER_FLAG_FRAME_PUSH_REFUSED r, n)
      else (False,
            r\<lparr>tags := (tags r)[unat i := FRAME_TAG_NATIVE], pcs := (pcs r)[unat i := pc]\<rparr>,
            i + 1))"

definition record_push_interp ::
  "sample_record \<Rightarrow> u32 \<Rightarrow> u8 \<Rightarrow> u64 \<Rightarrow> u64 \<Rightarrow> bool \<times> sample_record \<times> u32" where
  "record_push_interp r n tag a b =
     (let i = n in
      if i > of_nat (MAX_FRAMES - 2) then (True, or_flags WALKER_FLAG_FRAME_PUSH_REFUSED r, n)
      else (False,
            r\<lparr>tags := (tags r)[unat i := tag, unat (i + 1) := tag],
              pcs := (pcs r)[unat i := a, unat (i + 1) := b]\<rparr>,
            i + 2))"

section \<open>What the consumer reads\<close>

text \<open>
  \<open>interp.Slot\<close>: \<open>Unwinder\<close> 0 is a native frame, any other value an interpreter pair.
\<close>

datatype slot = Native u64 | Interp u8 u64 u64

fun SplitSlots :: "u64 list \<Rightarrow> u8 list \<Rightarrow> slot list \<times> bool" where
  "SplitSlots [] ts = ([], False)"
| "SplitSlots (p # ps) [] = (let (fs, tr) = SplitSlots ps [] in (Native p # fs, tr))"
| "SplitSlots (p # ps) (t # ts) =
     (if t = FRAME_TAG_NATIVE then (let (fs, tr) = SplitSlots ps ts in (Native p # fs, tr))
      else (case ps of
              [] \<Rightarrow> ([], True)
            | q # ps' \<Rightarrow> (let (fs, tr) = SplitSlots ps' (drop 1 ts) in (Interp t p q # fs, tr))))"

definition rec_slots :: "sample_record \<Rightarrow> u32 \<Rightarrow> slot list \<times> bool" where
  "rec_slots r n = SplitSlots (take (unat n) (pcs r)) (take (unat n) (tags r))"

text \<open>
  A record the pushers keep: arrays of the declared size, a cursor in range, and no half
  pair at the end.
\<close>

definition rec_wf :: "sample_record \<Rightarrow> u32 \<Rightarrow> bool" where
  "rec_wf r n \<longleftrightarrow> length (pcs r) = MAX_FRAMES \<and> length (tags r) = MAX_FRAMES \<and>
     unat n \<le> MAX_FRAMES \<and> \<not> snd (rec_slots r n)"

definition rec_frames :: "sample_record \<Rightarrow> u32 \<Rightarrow> slot list" where
  "rec_frames r n = fst (rec_slots r n)"

lemma SplitSlots_snoc_native:
  assumes "length ps = length ts" and "\<not> snd (SplitSlots ps ts)"
  shows "SplitSlots (ps @ [p]) (ts @ [0]) = (fst (SplitSlots ps ts) @ [Native p], False)"
  using assms
proof (induction ps ts rule: SplitSlots.induct)
  case (1 ts)
  then show ?case by simp
next
  case (2 p ps)
  then show ?case by simp
next
  case (3 q ps u ts)
  then show ?case
    by (cases ps; cases ts) (auto simp: case_prod_beta split: if_splits)
qed

lemma SplitSlots_snoc_interp:
  assumes "length ps = length ts" and "\<not> snd (SplitSlots ps ts)" and "t \<noteq> 0"
  shows "SplitSlots (ps @ [a, b]) (ts @ [t, t]) = (fst (SplitSlots ps ts) @ [Interp t a b], False)"
  using assms
proof (induction ps ts rule: SplitSlots.induct)
  case (1 ts)
  then show ?case by simp
next
  case (2 p ps)
  then show ?case by simp
next
  case (3 q ps u ts)
  then show ?case
    by (cases ps; cases ts) (auto simp: case_prod_beta split: if_splits)
qed

lemma rec_slots_or_flags [simp]: "rec_slots (or_flags f r) n = rec_slots r n"
  by (simp add: rec_slots_def)

lemma rec_wf_or_flags [simp]: "rec_wf (or_flags f r) n = rec_wf r n"
  by (simp add: rec_wf_def)

lemma rec_frames_or_flags [simp]: "rec_frames (or_flags f r) n = rec_frames r n"
  by (simp add: rec_frames_def)

lemma rec_wf_zero: "rec_wf r 0 \<longleftrightarrow> length (pcs r) = MAX_FRAMES \<and> length (tags r) = MAX_FRAMES"
  by (simp add: rec_wf_def rec_slots_def)

lemma rec_frames_zero [simp]: "rec_frames r 0 = []"
  by (simp add: rec_frames_def rec_slots_def)

subsection \<open>The two pushers\<close>

lemma push_native_ok:
  assumes "rec_wf r n" and "record_push_native r n pc = (False, r', n')"
  shows "rec_wf r' n'" and "rec_frames r' n' = rec_frames r n @ [Native pc]"
    and "rec_flags r' = rec_flags r" and "unat n' = Suc (unat n)" and "hdr r' = hdr r"
proof -
  from assms(2) have lt: "unat n < 127" and n': "n' = n + 1"
    and r': "r' = r\<lparr>tags := (tags r)[unat n := 0], pcs := (pcs r)[unat n := pc]\<rparr>"
    by (auto simp: record_push_native_def Let_def word_le_nat_alt split: if_splits)
  from lt n' show un: "unat n' = Suc (unat n)" by (simp add: unat_plus_one_less)
  have "rec_slots r' n' = (rec_frames r n @ [Native pc], False)"
    using assms(1) lt SplitSlots_snoc_native
    by (simp add: rec_slots_def rec_frames_def un r' rec_wf_def take_snoc_update)
  then show "rec_wf r' n'" and "rec_frames r' n' = rec_frames r n @ [Native pc]"
    using assms(1) lt un by (simp_all add: rec_wf_def rec_frames_def r')
  show "rec_flags r' = rec_flags r" and "hdr r' = hdr r" by (simp_all add: r' rec_flags_def)
qed

lemma push_native_refused:
  assumes "record_push_native r n pc = (True, r', n')"
  shows "r' = or_flags WALKER_FLAG_FRAME_PUSH_REFUSED r" and "n' = n" and "MAX_FRAMES \<le> unat n"
  using assms by (auto simp: record_push_native_def Let_def word_le_nat_alt split: if_splits)

lemma push_interp_ok:
  assumes "rec_wf r n" and "record_push_interp r n t a b = (False, r', n')" and "t \<noteq> 0"
  shows "rec_wf r' n'" and "rec_frames r' n' = rec_frames r n @ [Interp t a b]"
    and "rec_flags r' = rec_flags r" and "unat n' = unat n + 2" and "hdr r' = hdr r"
proof -
  from assms(2) have le: "unat n \<le> 125" and n': "n' = n + 2"
    and r': "r' = r\<lparr>tags := (tags r)[unat n := t, unat (n + 1) := t],
                    pcs := (pcs r)[unat n := a, unat (n + 1) := b]\<rparr>"
    by (auto simp: record_push_interp_def Let_def word_less_nat_alt split: if_splits)
  from le n' show un: "unat n' = unat n + 2" by (simp add: unat_plus_if')
  from le have u1: "unat (n + 1) = Suc (unat n)" by (simp add: unat_plus_if')
  have "rec_slots r' n' = (rec_frames r n @ [Interp t a b], False)"
    using assms(1,3) le SplitSlots_snoc_interp
    by (simp add: rec_slots_def rec_frames_def un u1 r' rec_wf_def take_snoc2_update)
  then show "rec_wf r' n'" and "rec_frames r' n' = rec_frames r n @ [Interp t a b]"
    using assms(1) le un by (simp_all add: rec_wf_def rec_frames_def r')
  show "rec_flags r' = rec_flags r" and "hdr r' = hdr r" by (simp_all add: r' rec_flags_def)
qed

lemma push_interp_refused:
  assumes "record_push_interp r n t a b = (True, r', n')"
  shows "r' = or_flags WALKER_FLAG_FRAME_PUSH_REFUSED r" and "n' = n" and "MAX_FRAMES - 2 < unat n"
  using assms by (auto simp: record_push_interp_def Let_def word_less_nat_alt split: if_splits)

section \<open>What an unwinder module may change\<close>

text \<open>
  Between a dispatch and the return to the native walk a module owns its scratch words, its
  done bit and the cursor. It leaves the registers, the process and the resume marks alone,
  and of the record header it touches at most the refusal flag.
\<close>

definition same_walk :: "walk_persist \<Rightarrow> walk_persist \<Rightarrow> bool" where
  "same_walk st st' \<longleftrightarrow> p_pc st' = p_pc st \<and> p_fp st' = p_fp st \<and> p_sp st' = p_sp st \<and> p_pid st' = p_pid st \<and>
     p_tid st' = p_tid st \<and> p_pending_unwinder st' = p_pending_unwinder st \<and> p_stopped st' = p_stopped st \<and>
     p_tail_calls st' = p_tail_calls st"

definition hdr_ok :: "sample_record \<Rightarrow> sample_record \<Rightarrow> bool" where
  "hdr_ok r r' \<longleftrightarrow> hdr r' = hdr r \<or> hdr r' = hdr (or_flags WALKER_FLAG_FRAME_PUSH_REFUSED r)"

lemma hdr_ok_cong: "hdr r = hdr q \<Longrightarrow> hdr_ok q r' \<Longrightarrow> hdr_ok r r'"
  by (auto simp: hdr_ok_def or_flags_def)

text \<open>
  The contract of a module: a dispatch on a well-formed record is append-only and keeps the
  module's own law \<open>J\<close>, which the native walk cannot break.
\<close>

locale unwinder_module =
  fixes dispatch_fn :: "walk_persist \<Rightarrow> sample_record \<Rightarrow> 'm \<Rightarrow> walk_persist \<times> sample_record \<times> 'm"
    and J :: "walk_persist \<Rightarrow> 'm \<Rightarrow> bool"
  assumes dispatch_walk: "J st m \<Longrightarrow> rec_wf r (p_n_pcs st) \<Longrightarrow> dispatch_fn st r m = (st', r', m') \<Longrightarrow>
      same_walk st st' \<and> hdr_ok r r'"
    and dispatch_wf: "J st m \<Longrightarrow> rec_wf r (p_n_pcs st) \<Longrightarrow> dispatch_fn st r m = (st', r', m') \<Longrightarrow>
      rec_wf r' (p_n_pcs st')"
    and dispatch_appends: "J st m \<Longrightarrow> rec_wf r (p_n_pcs st) \<Longrightarrow> dispatch_fn st r m = (st', r', m') \<Longrightarrow>
      \<exists>xs. rec_frames r' (p_n_pcs st') = rec_frames r (p_n_pcs st) @ xs"
    and dispatch_J: "J st m \<Longrightarrow> rec_wf r (p_n_pcs st) \<Longrightarrow> dispatch_fn st r m = (st', r', m') \<Longrightarrow> J st' m'"
    and J_native: "J st m \<Longrightarrow> p_interp_scratch st' = p_interp_scratch st \<Longrightarrow>
      p_interp_done st' = p_interp_done st \<Longrightarrow> p_pid st' = p_pid st \<Longrightarrow> p_tid st' = p_tid st \<Longrightarrow> J st' m"
begin

lemma dispatch_owner:
  "J st m \<Longrightarrow> rec_wf r (p_n_pcs st) \<Longrightarrow> dispatch_fn st r m = (st', r', m') \<Longrightarrow>
     p_pid st' = p_pid st \<and> p_tid st' = p_tid st"
  using dispatch_walk [of st m r st' r' m'] by (simp add: same_walk_def)

end

section \<open>The pushers refine appending a frame\<close>

text \<open>
  \<open>record_push_native\<close> on a well-formed record appends exactly one native frame to
  what the consumer decodes and advances the cursor by one; it refuses exactly when the
  record is full, and a refusal changes nothing but the refusal flag.
\<close>

theorem record_push_native_appends:
  assumes "rec_wf r n"
  shows "case record_push_native r n pc of (refused, r', n') \<Rightarrow>
    (refused \<longleftrightarrow> unat n = MAX_FRAMES) \<and> rec_wf r' n' \<and>
    rec_frames r' n' = rec_frames r n @ (if refused then [] else [Native pc]) \<and>
    rec_flags r' = rec_flags r OR (if refused then WALKER_FLAG_FRAME_PUSH_REFUSED else 0) \<and>
    unat n' = unat n + (if refused then 0 else 1)"
proof -
  obtain b r' n' where p: "record_push_native r n pc = (b, r', n')" by (cases "record_push_native r n pc")
  have "b \<longleftrightarrow> unat n = MAX_FRAMES"
    using p assms by (auto simp: record_push_native_def Let_def word_le_nat_alt rec_wf_def split: if_splits)
  then show ?thesis
    using p assms push_native_ok [OF assms, of pc r' n'] push_native_refused [of r n pc r' n']
    by (cases b) auto
qed

definition empty_record :: sample_record where
  "empty_record = \<lparr>hdr = \<lparr>h_pid = 0, h_tid = 0, h_time_ns = 0, h_value = 0, h_mode = 0, h_n_pcs = 0,
     h_walker_flags = 0, h_kern_stack = 0\<rparr>, pcs = replicate MAX_FRAMES 0, tags = replicate MAX_FRAMES 0\<rparr>"

lemma empty_record_wf [simp]: "rec_wf empty_record 0"
  by (simp add: rec_wf_zero empty_record_def)

text \<open>
  \<open>record_push_interp\<close> appends one interpreter pair atomically: both slots with the
  same tag, or, exactly when fewer than two slots are left, nothing but the refusal flag;
  the record never ends in half a pair.
\<close>

theorem record_push_interp_appends:
  assumes "rec_wf r n" and "t \<noteq> FRAME_TAG_NATIVE"
  shows "case record_push_interp r n t a b of (refused, r', n') \<Rightarrow>
    (refused \<longleftrightarrow> MAX_FRAMES - 2 < unat n) \<and> rec_wf r' n' \<and>
    rec_frames r' n' = rec_frames r n @ (if refused then [] else [Interp t a b]) \<and>
    rec_flags r' = rec_flags r OR (if refused then WALKER_FLAG_FRAME_PUSH_REFUSED else 0) \<and>
    unat n' = unat n + (if refused then 0 else 2)"
proof -
  obtain c r' n' where p: "record_push_interp r n t a b = (c, r', n')"
    by (cases "record_push_interp r n t a b")
  have "c \<longleftrightarrow> MAX_FRAMES - 2 < unat n"
    using p by (auto simp: record_push_interp_def Let_def word_less_nat_alt split: if_splits)
  then show ?thesis
    using p assms push_interp_ok [OF assms(1), of t a b r' n'] push_interp_refused [of r n t a b r' n']
    by (cases c) auto
qed

end
