(* ===== verification/Cfi_Tables.thy ===== *)
theory Cfi_Tables
  imports Bpf_Runtime
begin

text \<open>
  The per-frame table lookups of \<open>src/bpf/unwind_common.h\<close>: the CFI row and mapping
  layouts, \<open>mapping_for_pc\<close> (a \<open>bpf_loop\<close> over at most \<open>MAX_PID_MAPPINGS\<close> slots) and
  \<open>cfi_lookup\<close> (a binary search bounded to \<open>BINARY_SEARCH_MAX_ITERS\<close> probes). The scan is
  shown equal to the first match of the valid prefix, the search equal to the linear
  reference on every sorted table of fewer than \<open>2 ^ 24\<close> rows, and to lose row 0 of a
  table of exactly \<open>2 ^ 24\<close> rows.
\<close>

section \<open>Rows and mappings\<close>

abbreviation CFA_TYPE_UNDEFINED :: u8 where "CFA_TYPE_UNDEFINED \<equiv> 0"
abbreviation CFA_TYPE_SP :: u8 where "CFA_TYPE_SP \<equiv> 1"
abbreviation CFA_TYPE_FP :: u8 where "CFA_TYPE_FP \<equiv> 2"

abbreviation FP_TYPE_UNDEFINED :: u8 where "FP_TYPE_UNDEFINED \<equiv> 0"
abbreviation FP_TYPE_OFFSET_CFA :: u8 where "FP_TYPE_OFFSET_CFA \<equiv> 1"
abbreviation FP_TYPE_SAME_VALUE :: u8 where "FP_TYPE_SAME_VALUE \<equiv> 2"
abbreviation FP_TYPE_REGISTER :: u8 where "FP_TYPE_REGISTER \<equiv> 3"

abbreviation RA_TYPE_UNDEFINED :: u8 where "RA_TYPE_UNDEFINED \<equiv> 0"
abbreviation RA_TYPE_OFFSET_CFA :: u8 where "RA_TYPE_OFFSET_CFA \<equiv> 1"
abbreviation RA_TYPE_SAME_VALUE :: u8 where "RA_TYPE_SAME_VALUE \<equiv> 2"
abbreviation RA_TYPE_REGISTER :: u8 where "RA_TYPE_REGISTER \<equiv> 3"

abbreviation MODE_FP_SAFE :: u8 where "MODE_FP_SAFE \<equiv> 0"
abbreviation MODE_FP_LESS :: u8 where "MODE_FP_LESS \<equiv> 1"
abbreviation MODE_FALLBACK :: u8 where "MODE_FALLBACK \<equiv> 2"

record cfi_entry =
  pc_start :: u64
  pc_end_delta :: u32
  cfa_offset :: u32
  fp_offset :: u32
  ra_offset :: u32
  cfa_type :: u8
  fp_type :: u8
  ra_type :: u8

record pid_mapping =
  vma_start :: u64
  vma_end :: u64
  load_bias :: u64
  pm_table_id :: u64

section \<open>The mapping scan\<close>

abbreviation MAX_PID_MAPPINGS :: nat where "MAX_PID_MAPPINGS \<equiv> 256"

record mapping_lookup_result =
  m_table_id :: u64
  m_rel_pc :: u64
  m_found :: bool

record mapping_scan_ctx =
  sc_pc :: u64
  sc_out :: mapping_lookup_result
  sc_inner :: "pid_mapping list"
  sc_len :: u32

definition no_mapping :: mapping_lookup_result where
  "no_mapping = \<lparr>m_table_id = 0, m_rel_pc = 0, m_found = False\<rparr>"

definition mapping_scan_step :: "u32 \<Rightarrow> mapping_scan_ctx \<Rightarrow> bool \<times> mapping_scan_ctx" where
  "mapping_scan_step idx c =
     (if idx \<ge> sc_len c then (True, c)
      else case array_lookup (sc_inner c) idx of
        None \<Rightarrow> (True, c)
      | Some m \<Rightarrow>
          if sc_pc c \<ge> vma_start m \<and> sc_pc c < vma_end m
          then (True, c\<lparr>sc_out := \<lparr>m_table_id = pm_table_id m,
                                   m_rel_pc = sc_pc c - load_bias m, m_found = True\<rparr>\<rparr>)
          else (False, c))"

definition mapping_for_pc ::
  "(u32 \<Rightarrow> pid_mapping list option) \<Rightarrow> (u32 \<Rightarrow> u32 option) \<Rightarrow> u32 \<Rightarrow> u64 \<Rightarrow> mapping_lookup_result" where
  "mapping_for_pc pid_mappings pid_mapping_lengths pid pc =
     (case pid_mappings pid of None \<Rightarrow> no_mapping
      | Some inner \<Rightarrow>
         (case pid_mapping_lengths pid of None \<Rightarrow> no_mapping
          | Some len \<Rightarrow>
             if len = 0 then no_mapping
             else sc_out (bpf_loop MAX_PID_MAPPINGS mapping_scan_step
                    \<lparr>sc_pc = pc, sc_out = no_mapping, sc_inner = inner,
                     sc_len = (if len > 256 then 256 else len)\<rparr>)))"

text \<open>The specification: the first mapping of the valid prefix that contains the pc.\<close>

definition mapping_hit :: "u64 \<Rightarrow> pid_mapping \<Rightarrow> bool" where
  "mapping_hit pc m \<longleftrightarrow> vma_start m \<le> pc \<and> pc < vma_end m"

definition mapping_result :: "u64 \<Rightarrow> pid_mapping option \<Rightarrow> mapping_lookup_result" where
  "mapping_result pc om =
     (case om of None \<Rightarrow> no_mapping
      | Some m \<Rightarrow> \<lparr>m_table_id = pm_table_id m, m_rel_pc = pc - load_bias m, m_found = True\<rparr>)"

lemma drop_take_Cons:
  "j < length xs \<Longrightarrow> j < n \<Longrightarrow> drop j (take n xs) = xs ! j # drop (Suc j) (take n xs)"
  by (metis Cons_nth_drop_Suc length_take min_less_iff_conj nth_take)

lemma scan_from:
  assumes "sc_out c = no_mapping" and "j + n = 256"
    and "unat (sc_len c) \<le> 256"
  shows "sc_out (bpf_loop_from (of_nat j) n mapping_scan_step c) =
    mapping_result (sc_pc c) (find (mapping_hit (sc_pc c)) (drop j (take (unat (sc_len c)) (sc_inner c))))"
  using assms(2)
proof (induction n arbitrary: j)
  case 0
  with assms show ?case by (simp add: mapping_result_def)
next
  case (Suc n)
  have uj: "unat (of_nat j :: u32) = j" using Suc.prems by (simp add: unat_of_nat)
  have nx: "of_nat j + 1 = (of_nat (Suc j) :: u32)" by simp
  consider (past) "unat (sc_len c) \<le> j" | (short) "j < unat (sc_len c)" "length (sc_inner c) \<le> j"
    | (row) "j < unat (sc_len c)" "j < length (sc_inner c)" by linarith
  then show ?case
  proof cases
    case past
    then show ?thesis
      using assms by (simp add: mapping_scan_step_def word_le_nat_alt uj mapping_result_def)
  next
    case short
    then show ?thesis
      using assms by (simp add: mapping_scan_step_def word_le_nat_alt uj mapping_result_def
          array_lookup_def)
  next
    case row
    let ?m = "sc_inner c ! j"
    from row have dr: "drop j (take (unat (sc_len c)) (sc_inner c)) =
        ?m # drop (Suc j) (take (unat (sc_len c)) (sc_inner c))" by (simp add: drop_take_Cons)
    show ?thesis
    proof (cases "mapping_hit (sc_pc c) ?m")
      case True
      with row show ?thesis
        by (simp add: dr mapping_scan_step_def word_le_nat_alt uj array_lookup_def
            mapping_hit_def mapping_result_def)
    next
      case False
      then have "mapping_scan_step (of_nat j) c = (False, c)"
        using row by (auto simp: mapping_scan_step_def word_le_nat_alt uj array_lookup_def mapping_hit_def)
      with Suc.IH [of "Suc j"] Suc.prems False show ?thesis by (simp add: dr nx)
    qed
  qed
qed

lemma mapping_for_pc_find:
  "mapping_for_pc maps lens pid pc =
     (case (maps pid, lens pid) of
        (Some inner, Some len) \<Rightarrow>
          mapping_result pc (find (mapping_hit pc) (take (min (unat len) MAX_PID_MAPPINGS) inner))
      | _ \<Rightarrow> no_mapping)"
proof -
  { fix inner len
    let ?l = "if len > 256 then 256 else len :: u32"
    let ?c = "\<lparr>sc_pc = pc, sc_out = no_mapping, sc_inner = inner, sc_len = ?l\<rparr>"
    have ul: "unat ?l = min (unat len) 256" by (auto simp: word_less_nat_alt)
    have "sc_out (bpf_loop_from (of_nat 0) 256 mapping_scan_step ?c) =
        mapping_result pc (find (mapping_hit pc) (take (min (unat len) 256) inner))"
      using scan_from [of ?c 0 256] by (simp add: ul split del: if_split)
    then have "len \<noteq> 0 \<Longrightarrow> maps pid = Some inner \<Longrightarrow> lens pid = Some len \<Longrightarrow> ?thesis"
      by (simp add: mapping_for_pc_def bpf_loop_def split del: if_split) }
  then show ?thesis
    by (cases "maps pid"; cases "lens pid"; cases "lens pid = Some 0")
      (auto simp: mapping_for_pc_def mapping_result_def)
qed

section \<open>The CFI binary search\<close>

abbreviation BINARY_SEARCH_MAX_ITERS :: nat where "BINARY_SEARCH_MAX_ITERS \<equiv> 24"

fun cfi_search :: "nat \<Rightarrow> cfi_entry list \<Rightarrow> u32 \<Rightarrow> u32 \<Rightarrow> u64 \<Rightarrow> cfi_entry option" where
  "cfi_search 0 inner lo hi rel_pc = None"
| "cfi_search (Suc i) inner lo hi rel_pc =
     (if lo \<ge> hi then None
      else let mid = lo + (hi - lo) div 2 in
        (case array_lookup inner mid of
           None \<Rightarrow> None
         | Some e \<Rightarrow>
             if rel_pc < pc_start e then cfi_search i inner lo mid rel_pc
             else if rel_pc \<ge> pc_start e + ucast (pc_end_delta e)
             then cfi_search i inner (mid + 1) hi rel_pc
             else Some e))"

definition cfi_lookup ::
  "(u64 \<Rightarrow> cfi_entry list option) \<Rightarrow> (u64 \<Rightarrow> u32 option) \<Rightarrow> u64 \<Rightarrow> u64 \<Rightarrow> cfi_entry option" where
  "cfi_lookup cfi_rules cfi_lengths table_id rel_pc =
     (case cfi_rules table_id of None \<Rightarrow> None
      | Some inner \<Rightarrow>
         (case cfi_lengths table_id of None \<Rightarrow> None
          | Some len \<Rightarrow>
             if len = 0 then None
             else cfi_search BINARY_SEARCH_MAX_ITERS inner 0 len rel_pc))"

subsection \<open>The tables userspace installs\<close>

definition cfi_covers :: "u64 \<Rightarrow> cfi_entry \<Rightarrow> bool" where
  "cfi_covers pc e \<longleftrightarrow> pc_start e \<le> pc \<and> pc < pc_start e + ucast (pc_end_delta e)"

definition row_end :: "cfi_entry \<Rightarrow> nat" where
  "row_end e = unat (pc_start e) + unat (pc_end_delta e)"

definition cfi_table_ok :: "cfi_entry list \<Rightarrow> bool" where
  "cfi_table_ok es \<longleftrightarrow> list_all (\<lambda>e. row_end e < 2 ^ 64) es \<and>
     sorted_wrt (\<lambda>a b. row_end a \<le> unat (pc_start b)) es"

lemma row_end_word:
  "row_end e < 2 ^ 64 \<Longrightarrow> unat (pc_start e + ucast (pc_end_delta e)) = row_end e"
  by (simp add: row_end_def unat_plus_if')

lemma covers_unat:
  "row_end e < 2 ^ 64 \<Longrightarrow> cfi_covers pc e \<longleftrightarrow> unat (pc_start e) \<le> unat pc \<and> unat pc < row_end e"
  by (simp add: cfi_covers_def word_le_nat_alt word_less_nat_alt row_end_word)

lemma table_nth:
  assumes "cfi_table_ok es"
  shows "i < length es \<Longrightarrow> row_end (es ! i) < 2 ^ 64"
    and "i < j \<Longrightarrow> j < length es \<Longrightarrow> row_end (es ! i) \<le> unat (pc_start (es ! j))"
  using assms by (auto simp: cfi_table_ok_def list_all_length sorted_wrt_iff_nth_less)

lemma mid_bounds:
  assumes "(lo :: u32) < hi"
  shows "unat (lo + (hi - lo) div 2) = unat lo + (unat hi - unat lo) div 2"
proof -
  have d: "unat ((hi - lo) div 2) = (unat hi - unat lo) div 2"
    using assms by (simp add: unat_div_distrib unat_sub)
  have "unat lo < unat hi" and "unat hi < 4294967296"
    using assms by (simp_all add: word_less_nat_alt)
  then have "unat lo + (unat hi - unat lo) div 2 < 4294967296" by linarith
  then show ?thesis by (simp add: unat_plus_if' d)
qed

text \<open>Whatever the table, a row the search returns is a row of it and covers the pc.\<close>

lemma cfi_search_sound:
  "cfi_search n inner lo hi pc = Some e \<Longrightarrow> e \<in> set inner \<and> cfi_covers pc e"
  by (induction n arbitrary: lo hi)
    (auto simp: Let_def array_lookup_Some cfi_covers_def not_less not_le
      split: if_splits option.splits)

lemma cfi_search_complete:
  assumes ok: "cfi_table_ok inner" and cov: "cfi_covers pc (inner ! i)"
  shows "\<lbrakk>unat hi \<le> length inner; unat lo \<le> i; i < unat hi; unat hi - unat lo < 2 ^ n\<rbrakk>
    \<Longrightarrow> cfi_search n inner lo hi pc = Some (inner ! i)"
proof (induction n arbitrary: lo hi)
  case 0
  then show ?case by simp
next
  case (Suc n)
  let ?mid = "lo + (hi - lo) div 2"
  from Suc.prems have lt: "lo < hi" by (simp add: word_less_nat_alt)
  note um = mid_bounds [OF lt]
  from lt have ml: "unat ?mid < length inner" "unat ?mid < unat hi" "unat lo \<le> unat ?mid"
    using Suc.prems um by (auto simp: word_less_nat_alt)
  have ib: "i < length inner" using Suc.prems by simp
  note ci = covers_unat [OF table_nth(1) [OF ok ib], THEN iffD1, OF cov]
  note cm = covers_unat [OF table_nth(1) [OF ok ml(1)], of pc]
  note em = row_end_word [OF table_nth(1) [OF ok ml(1)]]
  have step: "cfi_search (Suc n) inner lo hi pc =
      (if pc < pc_start (inner ! unat ?mid) then cfi_search n inner lo ?mid pc
       else if pc \<ge> pc_start (inner ! unat ?mid) + ucast (pc_end_delta (inner ! unat ?mid))
       then cfi_search n inner (?mid + 1) hi pc else Some (inner ! unat ?mid))"
    using not_le [THEN iffD2, OF lt] ml by (simp add: Let_def array_lookup_def)
  consider "i < unat ?mid" | "i = unat ?mid" | "unat ?mid < i" by linarith
  then show ?case
  proof cases
    case 1
    have "pc < pc_start (inner ! unat ?mid)"
      using table_nth(2) [OF ok 1 ml(1)] ci by (simp add: word_less_nat_alt)
    moreover have "cfi_search n inner lo ?mid pc = Some (inner ! i)"
      by (rule Suc.IH) (use Suc.prems 1 ml um in auto)
    ultimately show ?thesis by (simp only: step if_True if_False)
  next
    case 2
    with cov show ?thesis by (auto simp only: step cfi_covers_def not_less not_le split: if_split)
  next
    case 3
    have "pc_start (inner ! unat ?mid) + ucast (pc_end_delta (inner ! unat ?mid)) \<le> pc"
      using table_nth(2) [OF ok 3 ib] ci em by (simp add: word_le_nat_alt)
    moreover have "\<not> pc < pc_start (inner ! unat ?mid)"
      using table_nth(2) [OF ok 3 ib] ci by (simp add: word_less_nat_alt row_end_def)
    moreover have "cfi_search n inner (?mid + 1) hi pc = Some (inner ! i)"
    proof (rule Suc.IH)
      have m1: "unat (?mid + 1) = Suc (unat ?mid)"
        using ml(2) unat_lt_max [of hi] by (intro unat_plus_one_less [where n = "unat hi"]) auto
      then show "unat (?mid + 1) \<le> i" using 3 by simp
      have "unat hi - unat lo < 2 * 2 ^ n" using Suc.prems by simp
      then show "unat hi - unat (?mid + 1) < 2 ^ n"
        using 3 Suc.prems(3) um m1 by linarith
    qed (use Suc.prems in auto)
    ultimately show ?thesis by (simp only: step if_True if_False)
  qed
qed

text \<open>On a sorted table the row that covers a pc is unique.\<close>

lemma cover_unique:
  assumes "cfi_table_ok es" "i < length es" "j < length es"
    and "cfi_covers pc (es ! i)" "cfi_covers pc (es ! j)"
  shows "i = j"
proof (rule ccontr)
  assume "i \<noteq> j"
  then have "i < j \<or> j < i" by linarith
  moreover note ci = covers_unat [OF table_nth(1) [OF assms(1,2)], THEN iffD1, OF assms(4)]
    and cj = covers_unat [OF table_nth(1) [OF assms(1,3)], THEN iffD1, OF assms(5)]
  ultimately show False
    using table_nth(2) [OF assms(1), of i j] table_nth(2) [OF assms(1), of j i] assms(2,3)
    by linarith
qed

lemma table_ok_take: "cfi_table_ok es \<Longrightarrow> cfi_table_ok (take n es)"
  by (auto simp: cfi_table_ok_def list_all_iff sorted_wrt_take dest: in_set_takeD)

lemma cfi_search_eq_find:
  assumes ok: "cfi_table_ok inner" and len: "unat len \<le> length inner" "unat len < 2 ^ n"
  shows "cfi_search n inner 0 len pc = find (cfi_covers pc) (take (unat len) inner)"
proof (cases "find (cfi_covers pc) (take (unat len) inner)")
  case (Some e)
  then obtain i where i: "i < unat len" "e = inner ! i" "cfi_covers pc (inner ! i)"
    using len by (auto simp: find_Some_iff)
  then have "cfi_search n inner 0 len pc = Some (inner ! i)"
    using ok len by (intro cfi_search_complete) auto
  with Some i show ?thesis by simp
next
  case None
  have "cfi_search n inner 0 len pc = None"
  proof (rule ccontr)
    assume "cfi_search n inner 0 len pc \<noteq> None"
    then obtain e where e: "cfi_search n inner 0 len pc = Some e" by blast
    have "\<And>lo hi. cfi_search n inner lo hi pc = Some e \<Longrightarrow> unat hi \<le> unat len \<Longrightarrow>
        \<exists>i < unat len. e = inner ! i"
    proof (induction n)
      case 0
      then show ?case by simp
    next
      case (Suc n)
      show ?case
      proof (cases "lo < hi")
        case True
        with Suc.prems have "unat (lo + (hi - lo) div 2) < unat len"
          by (simp add: mid_bounds word_less_nat_alt)
        with Suc True show ?thesis
          by (auto simp: Let_def array_lookup_Some word_less_nat_alt split: if_splits option.splits)
      next
        case False
        with Suc.prems show ?thesis by (simp add: not_less)
      qed
    qed
    with e obtain i where "i < unat len" "e = inner ! i" by blast
    with cfi_search_sound [OF e] None len show False
      by (auto simp: find_None_iff in_set_conv_nth)
  qed
  with None show ?thesis by simp
qed

subsection \<open>The bound is one row short of a power of two\<close>

lemma cfi_search_row0_lost:
  assumes ok: "cfi_table_ok inner" and cov: "cfi_covers pc (inner ! 0)"
  shows "\<lbrakk>n \<le> 31; 2 ^ n \<le> length inner\<rbrakk> \<Longrightarrow> cfi_search n inner 0 (of_nat (2 ^ n)) pc = None"
proof (induction n)
  case 0
  then show ?case by simp
next
  case (Suc n)
  let ?hi = "of_nat (2 ^ Suc n) :: u32"
  have p: "(2 :: nat) ^ Suc n \<le> 2 ^ 31" using Suc.prems(1) by (intro power_increasing) auto
  then have uh: "unat ?hi = 2 ^ Suc n"
    by (simp only: unat_of_nat take_bit_nat_eq_self_iff) (rule mod_less, simp)
  then have lt: "0 < ?hi" by (simp add: word_less_nat_alt)
  have um: "unat (0 + (?hi - 0) div 2) = 2 ^ n" using mid_bounds [OF lt] uh by simp
  have mid: "(0 :: u32) + (?hi - 0) div 2 = of_nat (2 ^ n)"
    by (rule word_eq_of_nat) (rule um)
  have "(0 :: nat) < 2 ^ n" by simp
  with Suc.prems(2) have l: "2 ^ n < length inner" "0 < length inner"
    unfolding power_Suc by linarith+
  have "pc < pc_start (inner ! (2 ^ n))"
    using table_nth(2) [OF ok, of 0 "2 ^ n"] l
      covers_unat [OF table_nth(1) [OF ok l(2)], THEN iffD1, OF cov]
    by (simp add: word_less_nat_alt)
  moreover have "cfi_search n inner 0 (of_nat (2 ^ n)) pc = None"
    using Suc.prems by (intro Suc.IH) auto
  ultimately show ?case
    using lt l um mid by (simp add: Let_def array_lookup_def)
qed

section \<open>The lookups against their references\<close>

text \<open>
  \<open>mapping_for_pc\<close> returns the first mapping of the process's valid prefix (at most
  \<open>MAX_PID_MAPPINGS\<close> rows) that contains the pc, with the pc rebased to the binary, and
  \<open>found = false\<close> when there is none or the process has no installed mappings.
\<close>

theorem mapping_for_pc_first_match:
  "mapping_for_pc maps lens pid pc =
     (case (maps pid, lens pid) of
        (Some inner, Some len) \<Rightarrow>
          mapping_result pc (find (mapping_hit pc) (take (min (unat len) MAX_PID_MAPPINGS) inner))
      | _ \<Rightarrow> no_mapping)"
  by (rule mapping_for_pc_find)

text \<open>
  C4: the bounded binary search of \<open>cfi_lookup\<close> equals the linear search for the row that
  covers the pc, on every sorted table of fewer than \<open>2 ^ 24\<close> rows: within the bound of 24
  probes it always terminates with the row, or with a true miss.
\<close>

theorem cfi_lookup_eq_find:
  assumes "cfi_rules t = Some inner" and "cfi_lengths t = Some len"
    and "cfi_table_ok inner" and "unat len \<le> length inner" and "unat len < 2 ^ BINARY_SEARCH_MAX_ITERS"
  shows "cfi_lookup cfi_rules cfi_lengths t pc = find (cfi_covers pc) (take (unat len) inner)"
  using assms cfi_search_eq_find [of inner len BINARY_SEARCH_MAX_ITERS pc]
  by (auto simp: cfi_lookup_def)

text \<open>A table with one one-byte row per address, to evaluate the search on.\<close>

definition dense_row :: "nat \<Rightarrow> cfi_entry" where
  "dense_row i = \<lparr>pc_start = of_nat i, pc_end_delta = 1, cfa_offset = 16, fp_offset = 0, ra_offset = 0,
     cfa_type = CFA_TYPE_FP, fp_type = FP_TYPE_SAME_VALUE, ra_type = RA_TYPE_OFFSET_CFA\<rparr>"

definition dense_table :: "nat \<Rightarrow> cfi_entry list" where
  "dense_table n = map dense_row [0..<n]"

lemma unat_dense_row: "i < 2 ^ 32 \<Longrightarrow> unat (pc_start (dense_row i)) = i"
  by (simp add: dense_row_def unat_of_nat take_bit_nat_eq_self)

lemma dense_table_ok: "n \<le> 2 ^ 32 \<Longrightarrow> cfi_table_ok (dense_table n)"
  by (auto simp: cfi_table_ok_def dense_table_def list_all_length sorted_wrt_iff_nth_less row_end_def
      unat_dense_row) (simp_all add: dense_row_def)

lemma length_dense_table [simp]: "length (dense_table n) = n"
  by (simp add: dense_table_def)

lemma nth_dense_table [simp]: "i < n \<Longrightarrow> dense_table n ! i = dense_row i"
  by (simp add: dense_table_def)

theorem cfi_lookup_eq_find_witness:
  "cfi_lookup [7 \<mapsto> dense_table 3] [7 \<mapsto> 3] 7 1 = find (cfi_covers 1) (take (unat (3 :: u32)) (dense_table 3))"
  by (rule cfi_lookup_eq_find) (simp_all add: dense_table_ok)

text \<open>
  C25: on a sorted table of exactly \<open>2 ^ 24\<close> rows, the largest length the size comments and
  the userspace check accept, 24 probes do not reach row 0: a pc that row covers is
  reported as a miss.
\<close>

theorem cfi_lookup_row0_unreachable:
  assumes "cfi_rules t = Some inner" and "cfi_lengths t = Some (of_nat (2 ^ BINARY_SEARCH_MAX_ITERS))"
    and "cfi_table_ok inner" and "2 ^ BINARY_SEARCH_MAX_ITERS \<le> length inner"
    and "cfi_covers pc (inner ! 0)"
  shows "cfi_lookup cfi_rules cfi_lengths t pc = None"
  using assms cfi_search_row0_lost [of inner pc BINARY_SEARCH_MAX_ITERS]
  by (auto simp: cfi_lookup_def)

theorem cfi_lookup_row0_unreachable_witness:
  "cfi_lookup [7 \<mapsto> dense_table (2 ^ 24)] [7 \<mapsto> of_nat (2 ^ BINARY_SEARCH_MAX_ITERS)] 7 0 = None \<and>
   cfi_covers 0 (dense_table (2 ^ 24) ! 0)"
proof -
  have c: "cfi_covers 0 (dense_table (2 ^ 24) ! 0)" by (simp add: cfi_covers_def dense_row_def)
  have "cfi_lookup [7 \<mapsto> dense_table (2 ^ 24)] [7 \<mapsto> of_nat (2 ^ BINARY_SEARCH_MAX_ITERS)] 7 0 = None"
    by (rule cfi_lookup_row0_unreachable [where t = 7 and inner = "dense_table (2 ^ 24)"])
      (use c in \<open>simp_all add: dense_table_ok\<close>)
  with c show ?thesis by blast
qed

end
