(* ===== verification/Walker.thy ===== *)
theory Walker
  imports Unwind_Record Cfi_Tables
begin

text \<open>
  The native walker of \<open>src/bpf/unwind_common.h\<close>: the CFI miss notifier, the handoff query
  \<open>next_unwinder\<close>, one frame of unwinding (\<open>unwind_frame\<close>) and the \<open>bpf_loop\<close> callback
  \<open>walk_step\<close>. What a walk reads and never writes (memory of the traced process, the tables
  userspace installs, the clock, ring buffer pressure) is the record \<open>walk_env\<close>; the kernel
  objects it writes are \<open>kernel_state\<close>; the registers, the cursor and the sample record are
  \<open>walk_ctx\<close>.

  The lemmas show that a frame only appends to the record, that the walk takes exactly one
  step past the end of a frame-pointer chain, that the flags name at most one way the walk
  ended, and that on a stack the unwind information describes the walk records exactly that
  stack, up to the first frame an interpreter has claimed.
\<close>

section \<open>Flags\<close>

abbreviation WALKER_FLAG_FP_TERMINATED :: u16 where "WALKER_FLAG_FP_TERMINATED \<equiv> 0x01"
abbreviation WALKER_FLAG_DWARF_USED :: u16 where "WALKER_FLAG_DWARF_USED \<equiv> 0x02"
abbreviation WALKER_FLAG_CFI_MISS :: u16 where "WALKER_FLAG_CFI_MISS \<equiv> 0x04"
abbreviation WALKER_FLAG_RA_UNDEFINED :: u16 where "WALKER_FLAG_RA_UNDEFINED \<equiv> 0x08"
abbreviation WALKER_FLAG_FP_EXHAUSTED :: u16 where "WALKER_FLAG_FP_EXHAUSTED \<equiv> 0x10"
abbreviation WALKER_FLAG_FP_NONMONOTONIC :: u16 where "WALKER_FLAG_FP_NONMONOTONIC \<equiv> 0x20"
abbreviation WALKER_FLAG_ROOT_DISAGREEMENT :: u16 where "WALKER_FLAG_ROOT_DISAGREEMENT \<equiv> 0x40"
abbreviation WALKER_FLAG_RA_ZERO :: u16 where "WALKER_FLAG_RA_ZERO \<equiv> 0x100"

section \<open>State\<close>

record cfi_miss_event =
  ev_pid :: u32
  ev_table_id :: u64
  ev_rel_pc :: u64
  ev_ktime_ns :: u64

record handoff_span =
  span_lo :: u64
  span_hi :: u64

abbreviation HANDOFF_MAX_RANGES :: nat where "HANDOFF_MAX_RANGES \<equiv> 3"

record handoff_range =
  spans :: "handoff_span list"
  unwinder_id :: u32

record walk_env =
  e_ktime :: "nat \<Rightarrow> u64"
  e_rb_room :: "nat \<Rightarrow> bool"
  e_lru_evicts :: "nat \<Rightarrow> u32 \<times> u64 \<Rightarrow> bool"
  e_umem :: umem
  e_cfi_rules :: "u64 \<Rightarrow> cfi_entry list option"
  e_cfi_lengths :: "u64 \<Rightarrow> u32 option"
  e_pid_mappings :: "u32 \<Rightarrow> pid_mapping list option"
  e_pid_mapping_lengths :: "u32 \<Rightarrow> u32 option"
  e_handoff_ranges :: "u64 \<Rightarrow> handoff_range option"
  e_interp_enabled :: bool

record kernel_state =
  k_clock_reads :: nat
  k_reserves :: nat
  k_lru_updates :: nat
  k_ratelimit :: "u32 \<times> u64 \<Rightarrow> u64 option"
  k_miss_events :: "cfi_miss_event list"
  k_stats :: "u64 list"

record walk_ctx =
  w_pc :: u64
  w_fp :: u64
  w_sp :: u64
  w_pid :: u32
  w_n_pcs :: u32
  w_rec :: sample_record
  w_pending_unwinder :: u32
  w_interp_done :: u32

definition w_flags :: "walk_ctx \<Rightarrow> u16" where
  "w_flags w = rec_flags (w_rec w)"

definition set_flag :: "u16 \<Rightarrow> walk_ctx \<Rightarrow> walk_ctx" where
  "set_flag f w = w\<lparr>w_rec := or_flags f (w_rec w)\<rparr>"

definition k_count :: "u32 \<Rightarrow> kernel_state \<Rightarrow> kernel_state" where
  "k_count slot k = k\<lparr>k_stats := interp_count slot (k_stats k)\<rparr>"

section \<open>Operations\<close>

subsection \<open>Lazy CFI: the miss notifier\<close>

definition emit_cfi_miss :: "walk_env \<Rightarrow> u32 \<Rightarrow> u64 \<Rightarrow> u64 \<Rightarrow> kernel_state \<Rightarrow> kernel_state" where
  "emit_cfi_miss env pid table_id rel_pc k =
     (let key = (pid, table_id);
          now = e_ktime env (k_clock_reads k);
          k = k\<lparr>k_clock_reads := Suc (k_clock_reads k)\<rparr>;
          limited = (case k_ratelimit k key of None \<Rightarrow> False | Some last_emit \<Rightarrow> now - last_emit < 1000000000)
      in if limited then k
         else let k = k\<lparr>k_ratelimit := lru_update (e_lru_evicts env (k_lru_updates k)) (k_ratelimit k) key now,
                       k_lru_updates := Suc (k_lru_updates k)\<rparr>;
                  room = e_rb_room env (k_reserves k);
                  k = k\<lparr>k_reserves := Suc (k_reserves k)\<rparr>
              in if \<not> room then k
                 else k\<lparr>k_miss_events := k_miss_events k @
                        [\<lparr>ev_pid = pid, ev_table_id = table_id, ev_rel_pc = rel_pc, ev_ktime_ns = now\<rparr>]\<rparr>)"

subsection \<open>Pushing and the end of the frame-pointer chain\<close>

definition frame_push_native :: "walk_ctx \<Rightarrow> u64 \<Rightarrow> bool \<times> walk_ctx" where
  "frame_push_native w pc =
     (let (refused, r, n) = record_push_native (w_rec w) (w_n_pcs w) pc
      in (refused, w\<lparr>w_rec := r, w_n_pcs := n\<rparr>))"

definition fp_chain_ended :: "walk_ctx \<Rightarrow> bool" where
  "fp_chain_ended w = has_flag (w_flags w) WALKER_FLAG_FP_TERMINATED"

subsection \<open>Who claims a frame\<close>

definition in_span :: "u64 \<Rightarrow> handoff_span \<Rightarrow> bool" where
  "in_span rel_pc s \<longleftrightarrow> rel_pc \<ge> span_lo s \<and> rel_pc < span_hi s"

definition next_unwinder :: "walk_env \<Rightarrow> u64 \<Rightarrow> u64 \<Rightarrow> u32 \<Rightarrow> kernel_state \<Rightarrow> u32 \<times> kernel_state" where
  "next_unwinder env table_id rel_pc d k =
     (case e_handoff_ranges env table_id of
        None \<Rightarrow> (UNWINDER_NATIVE, k)
      | Some hr \<Rightarrow>
          let k = k_count INTERP_STAT_RANGE_HIT k;
              inside = list_ex (in_span rel_pc) (take HANDOFF_MAX_RANGES (spans hr))
          in if \<not> inside then (UNWINDER_NATIVE, k)
             else let k = k_count INTERP_STAT_IN_RANGE k; i = unwinder_id hr
                  in if d AND push_bit (unat (i AND 31)) 1 \<noteq> 0 then (UNWINDER_NATIVE, k) else (i, k))"

subsection \<open>Moving between the stack context and the persisted state\<close>

definition walk_load :: "walk_persist \<Rightarrow> sample_record \<Rightarrow> walk_ctx" where
  "walk_load st r = \<lparr>w_pc = p_pc st, w_fp = p_fp st, w_sp = p_sp st, w_pid = p_pid st, w_n_pcs = p_n_pcs st,
     w_rec = r, w_pending_unwinder = p_pending_unwinder st, w_interp_done = p_interp_done st\<rparr>"

definition walk_save :: "walk_ctx \<Rightarrow> walk_persist \<Rightarrow> walk_persist" where
  "walk_save w st = st\<lparr>p_pc := w_pc w, p_fp := w_fp w, p_sp := w_sp w, p_pid := w_pid w, p_n_pcs := w_n_pcs w,
     p_pending_unwinder := w_pending_unwinder w, p_interp_done := w_interp_done w\<rparr>"

subsection \<open>One frame\<close>

text \<open>The arm for a frame a CFI row describes.\<close>

definition dwarf_step :: "walk_env \<Rightarrow> cfi_entry \<Rightarrow> walk_ctx \<Rightarrow> bool \<times> walk_ctx" where
  "dwarf_step env e w =
     (let base = (if cfa_type e = CFA_TYPE_FP then w_fp w else w_sp w);
          cfa = base + sext64 (cfa_offset e)
      in if ra_type e = RA_TYPE_OFFSET_CFA then
           if fp_chain_ended w then (True, set_flag WALKER_FLAG_ROOT_DISAGREEMENT w)
           else (case read_u64 (e_umem env) (cfa + sext64 (ra_offset e)) of
             None \<Rightarrow> (True, w)
           | Some ret_addr \<Rightarrow>
               if ret_addr = 0 then (True, set_flag WALKER_FLAG_RA_ZERO w)
               else (case (if fp_type e = FP_TYPE_OFFSET_CFA
                           then read_u64 (e_umem env) (cfa + sext64 (fp_offset e))
                           else if fp_type e = FP_TYPE_SAME_VALUE then Some (w_fp w) else Some 0) of
                 None \<Rightarrow> (True, w)
               | Some new_fp \<Rightarrow>
                   (False, set_flag WALKER_FLAG_DWARF_USED
                      (w\<lparr>w_pc := ret_addr, w_fp := new_fp, w_sp := cfa\<rparr>))))
         else if ra_type e = RA_TYPE_UNDEFINED then (True, set_flag WALKER_FLAG_RA_UNDEFINED w)
         else (True, w))"

text \<open>The frame-pointer arm.\<close>

definition fp_step :: "walk_env \<Rightarrow> walk_ctx \<Rightarrow> bool \<times> walk_ctx" where
  "fp_step env w =
     (if w_fp w = 0 then
        if fp_chain_ended w then (True, w) else (True, set_flag WALKER_FLAG_FP_EXHAUSTED w)
      else (case read_u64 (e_umem env) (w_fp w) of None \<Rightarrow> (True, w)
      | Some saved_fp \<Rightarrow>
         (case read_u64 (e_umem env) (w_fp w + 8) of None \<Rightarrow> (True, w)
          | Some ret_addr \<Rightarrow>
             if saved_fp \<le> w_fp w then
               if saved_fp = 0 then
                 let w = set_flag WALKER_FLAG_FP_TERMINATED w
                 in if ret_addr = 0 then (True, w)
                    else (False, w\<lparr>w_sp := w_fp w + 16, w_pc := ret_addr, w_fp := 0\<rparr>)
               else let w = set_flag WALKER_FLAG_FP_NONMONOTONIC w
                    in (True, if ret_addr \<noteq> 0 then snd (frame_push_native w ret_addr) else w)
             else (False, w\<lparr>w_sp := w_fp w + 16, w_pc := ret_addr, w_fp := saved_fp\<rparr>))))"

definition unwind_frame ::
  "walk_env \<Rightarrow> bool \<Rightarrow> walk_ctx \<times> kernel_state \<Rightarrow> bool \<times> walk_ctx \<times> kernel_state" where
  "unwind_frame env lead = (\<lambda>(w, k).
     let (refused, w) = (if lead then frame_push_native w (w_pc w) else (False, w))
     in if refused then (True, w, k)
        else let m = mapping_for_pc (e_pid_mappings env) (e_pid_mapping_lengths env) (w_pid w) (w_pc w);
                 (u, k) = (if m_found m \<and> e_interp_enabled env \<and> lead
                           then next_unwinder env (m_table_id m) (m_rel_pc m) (w_interp_done w) k
                           else (UNWINDER_NATIVE, k))
             in if u \<noteq> UNWINDER_NATIVE
                then (True, w\<lparr>w_pending_unwinder := u\<rparr>, k_count INTERP_STAT_CLAIMED k)
                else let have_tables = (m_found m \<and> e_cfi_lengths env (m_table_id m) \<noteq> None);
                         k = (if m_found m \<and> \<not> have_tables
                              then emit_cfi_miss env (w_pid w) (m_table_id m) (m_rel_pc m) k else k);
                         ep = (if m_found m
                               then cfi_lookup (e_cfi_rules env) (e_cfi_lengths env) (m_table_id m) (m_rel_pc m)
                               else None);
                         w = (if ep = None \<and> have_tables then set_flag WALKER_FLAG_CFI_MISS w else w);
                         (stop, w) = (case ep of Some e \<Rightarrow> dwarf_step env e w | None \<Rightarrow> fp_step env w)
                     in (stop, w, k))"

definition walk_step ::
  "walk_env \<Rightarrow> u32 \<Rightarrow> walk_ctx \<times> kernel_state \<Rightarrow> bool \<times> walk_ctx \<times> kernel_state" where
  "walk_step env idx s = unwind_frame env True s"

section \<open>Frame rules\<close>

lemma set_flag_simps [simp]:
  "w_pc (set_flag f w) = w_pc w" "w_fp (set_flag f w) = w_fp w" "w_sp (set_flag f w) = w_sp w"
  "w_pid (set_flag f w) = w_pid w" "w_n_pcs (set_flag f w) = w_n_pcs w"
  "w_pending_unwinder (set_flag f w) = w_pending_unwinder w" "w_interp_done (set_flag f w) = w_interp_done w"
  "w_rec (set_flag f w) = or_flags f (w_rec w)" "w_flags (set_flag f w) = w_flags w OR f"
  by (simp_all add: set_flag_def w_flags_def)

lemma w_flags_update [simp]:
  "w_flags (w\<lparr>w_pc := a\<rparr>) = w_flags w" "w_flags (w\<lparr>w_fp := a\<rparr>) = w_flags w"
  "w_flags (w\<lparr>w_sp := a\<rparr>) = w_flags w" "w_flags (w\<lparr>w_n_pcs := n\<rparr>) = w_flags w"
  "w_flags (w\<lparr>w_rec := r\<rparr>) = rec_flags r" "w_flags (w\<lparr>w_pending_unwinder := n\<rparr>) = w_flags w"
  by (simp_all add: w_flags_def)

lemma fp_chain_ended_cong: "w_flags w = w_flags w' \<Longrightarrow> fp_chain_ended w = fp_chain_ended w'"
  by (simp add: fp_chain_ended_def)

definition w_frames :: "walk_ctx \<Rightarrow> slot list" where
  "w_frames w = rec_frames (w_rec w) (w_n_pcs w)"

definition w_wf :: "walk_ctx \<Rightarrow> bool" where
  "w_wf w \<longleftrightarrow> rec_wf (w_rec w) (w_n_pcs w)"

lemma w_frames_simps [simp]:
  "w_frames (set_flag f w) = w_frames w" "w_frames (w\<lparr>w_pc := a\<rparr>) = w_frames w"
  "w_frames (w\<lparr>w_fp := a\<rparr>) = w_frames w" "w_frames (w\<lparr>w_sp := a\<rparr>) = w_frames w"
  "w_frames (w\<lparr>w_pending_unwinder := n\<rparr>) = w_frames w"
  by (simp_all add: w_frames_def)

lemma w_wf_simps [simp]:
  "w_wf (set_flag f w) = w_wf w" "w_wf (w\<lparr>w_pc := a\<rparr>) = w_wf w"
  "w_wf (w\<lparr>w_fp := a\<rparr>) = w_wf w" "w_wf (w\<lparr>w_sp := a\<rparr>) = w_wf w"
  "w_wf (w\<lparr>w_pending_unwinder := n\<rparr>) = w_wf w"
  by (simp_all add: w_wf_def)

lemma frame_push_frame:
  "frame_push_native w pc = (b, w') \<Longrightarrow>
     w_pc w' = w_pc w \<and> w_fp w' = w_fp w \<and> w_sp w' = w_sp w \<and> w_pid w' = w_pid w \<and>
     w_pending_unwinder w' = w_pending_unwinder w \<and> w_interp_done w' = w_interp_done w"
  by (auto simp: frame_push_native_def split: prod.splits)

lemma frame_push_ok:
  assumes "frame_push_native w pc = (False, w')" and "w_wf w"
  shows "w_wf w'" and "w_frames w' = w_frames w @ [Native pc]" and "w_flags w' = w_flags w"
    and "unat (w_n_pcs w') = Suc (unat (w_n_pcs w))"
proof -
  obtain r n where p: "record_push_native (w_rec w) (w_n_pcs w) pc = (False, r, n)"
    and w': "w' = w\<lparr>w_rec := r, w_n_pcs := n\<rparr>"
    using assms(1) by (auto simp: frame_push_native_def split: prod.splits)
  from assms(2) have "rec_wf (w_rec w) (w_n_pcs w)" by (simp add: w_wf_def)
  note ok = push_native_ok [OF this p]
  show "w_wf w'" and "w_frames w' = w_frames w @ [Native pc]" and "w_flags w' = w_flags w"
    and "unat (w_n_pcs w') = Suc (unat (w_n_pcs w))"
    using ok by (simp_all add: w' w_wf_def w_frames_def w_flags_def)
qed

lemma frame_push_refused:
  assumes "frame_push_native w pc = (True, w')"
  shows "w' = set_flag WALKER_FLAG_FRAME_PUSH_REFUSED w" and "MAX_FRAMES \<le> unat (w_n_pcs w)"
  using assms push_native_refused [of "w_rec w" "w_n_pcs w" pc]
  by (auto simp: frame_push_native_def set_flag_def split: prod.splits)

lemma frame_push_refused_iff:
  "w_wf w \<Longrightarrow> fst (frame_push_native w pc) \<longleftrightarrow> unat (w_n_pcs w) = MAX_FRAMES"
  by (auto simp: frame_push_native_def record_push_native_def Let_def w_wf_def rec_wf_def word_le_nat_alt)

section \<open>How a walk can end\<close>

text \<open>
  The bits that name a reason to stop. A walk that may still continue has none of them, and
  once the frame-pointer chain has ended it stands on a zero frame pointer; a walk that
  stopped has at most one, consistent with whether the chain ended.
\<close>

definition END_BITS :: "u16 list" where
  "END_BITS = [WALKER_FLAG_RA_UNDEFINED, WALKER_FLAG_FP_EXHAUSTED, WALKER_FLAG_FP_NONMONOTONIC,
     WALKER_FLAG_ROOT_DISAGREEMENT, WALKER_FLAG_RA_ZERO]"

definition endings :: "u16 \<Rightarrow> u16 list" where
  "endings f = filter (has_flag f) END_BITS"

definition ending_ok :: "u16 \<Rightarrow> bool" where
  "ending_ok f \<longleftrightarrow> length (endings f) \<le> 1 \<and>
     (has_flag f WALKER_FLAG_ROOT_DISAGREEMENT \<longrightarrow> has_flag f WALKER_FLAG_FP_TERMINATED) \<and>
     (has_flag f WALKER_FLAG_FP_TERMINATED \<longrightarrow>
        \<not> has_flag f WALKER_FLAG_FP_EXHAUSTED \<and> \<not> has_flag f WALKER_FLAG_FP_NONMONOTONIC \<and>
        \<not> has_flag f WALKER_FLAG_RA_ZERO)"

definition walk_live :: "walk_ctx \<Rightarrow> bool" where
  "walk_live w \<longleftrightarrow> w_wf w \<and> endings (w_flags w) = [] \<and> (fp_chain_ended w \<longrightarrow> w_fp w = 0)"

definition walk_over :: "walk_ctx \<Rightarrow> bool" where
  "walk_over w \<longleftrightarrow> w_wf w \<and> ending_ok (w_flags w)"

lemmas ending_defs = endings_def END_BITS_def

lemma endings_or: "endings f = [] \<Longrightarrow> endings (f OR g) = endings g"
  by (auto simp: ending_defs flag_simps split: if_splits)

lemma endings_simps [simp]:
  "endings 0 = []" "endings 1 = []" "endings 2 = []" "endings 4 = []" "endings 0x80 = []"
  "endings 8 = [8]" "endings 0x10 = [0x10]" "endings 0x20 = [0x20]" "endings 0x40 = [0x40]"
  "endings 0x100 = [0x100]"
  by (simp_all add: ending_defs flag_simps)

lemma endings_Nil_flags:
  "endings f = [] \<Longrightarrow> \<not> has_flag f 8 \<and> \<not> has_flag f 0x10 \<and> \<not> has_flag f 0x20 \<and> \<not> has_flag f 0x40 \<and>
     \<not> has_flag f 0x100"
  by (auto simp: ending_defs split: if_splits)

lemma live_ending_ok: "endings f = [] \<Longrightarrow> ending_ok f"
  using endings_Nil_flags [of f] by (simp add: ending_ok_def)

lemma live_over: "walk_live w \<Longrightarrow> walk_over w"
  by (simp add: walk_live_def walk_over_def live_ending_ok)

text \<open>Raising one ending bit on a live flag word, when the chain state allows that bit.\<close>

lemma ending_ok_or:
  assumes "endings f = []"
    and "g \<in> {8, 0x10, 0x20, 0x40, 0x80, 0x100}"
    and "g = 0x40 \<Longrightarrow> has_flag f 1"
    and "g \<in> {0x10, 0x20, 0x100} \<Longrightarrow> \<not> has_flag f 1"
  shows "ending_ok (f OR g)"
  using assms endings_Nil_flags [OF assms(1)]
  by (auto simp: ending_ok_def endings_or flag_simps)

lemma endings_refused [simp]: "endings (f OR 0x80) = endings f"
  by (simp add: ending_defs flag_simps)

lemma ending_ok_refused: "ending_ok f \<Longrightarrow> ending_ok (f OR 0x80)"
  by (simp add: ending_ok_def flag_simps)

subsection \<open>The two arms\<close>

lemma dwarf_step_live:
  assumes "walk_live w" and "dwarf_step env e w = (False, w')"
  shows "walk_live w'" and "w_frames w' = w_frames w" and "\<not> fp_chain_ended w"
  using assms endings_or [of "w_flags w" 2]
  by (auto simp: dwarf_step_def Let_def walk_live_def fp_chain_ended_def flag_simps
      split: if_splits option.splits)

lemma dwarf_step_over:
  assumes "walk_live w" and "dwarf_step env e w = (True, w')"
  shows "walk_over w'" and "w_frames w' = w_frames w"
  using assms live_ending_ok [of "w_flags w"]
  by (auto simp: dwarf_step_def Let_def walk_live_def walk_over_def fp_chain_ended_def
      intro!: ending_ok_or split: if_splits option.splits)

lemma fp_step_live:
  assumes "walk_live w" and "fp_step env w = (False, w')"
  shows "walk_live w'" and "w_frames w' = w_frames w" and "\<not> fp_chain_ended w"
  using assms endings_or [of "w_flags w" 1]
  by (auto simp: fp_step_def Let_def walk_live_def fp_chain_ended_def flag_simps
      split: if_splits option.splits)

text \<open>
  The frame-pointer arm adds at most one frame, and only on the stop that reports a
  non-monotonic chain.
\<close>

lemma fp_step_over:
  assumes live: "walk_live w" and st: "fp_step env w = (True, w')"
  shows "walk_over w'" and "\<exists>xs. length xs \<le> 1 \<and> w_frames w' = w_frames w @ xs"
proof -
  from live have wf: "w_wf w" and ef: "endings (w_flags w) = []"
    and ce: "has_flag (w_flags w) 1 \<longrightarrow> w_fp w = 0"
    by (simp_all add: walk_live_def fp_chain_ended_def)
  from st have "(\<exists>f \<in> {0, 0x10, 1}. w' = set_flag f w \<and> (f = 0x10 \<longrightarrow> \<not> has_flag (w_flags w) 1)) \<or>
      (w_fp w \<noteq> 0 \<and> (w' = set_flag 0x20 w \<or> (\<exists>ra. w' = snd (frame_push_native (set_flag 0x20 w) ra))))"
    by (auto simp: fp_step_def Let_def fp_chain_ended_def set_flag_def or_flags_def
        split: if_splits option.splits)
  then consider (flag) f where "f \<in> {0, 0x10, 1}" "w' = set_flag f w" "f = 0x10 \<longrightarrow> \<not> has_flag (w_flags w) 1"
    | (bare) "w_fp w \<noteq> 0" "w' = set_flag 0x20 w"
    | (push) ra where "w_fp w \<noteq> 0" "w' = snd (frame_push_native (set_flag 0x20 w) ra)" by blast
  then have "walk_over w' \<and> (\<exists>xs. length xs \<le> 1 \<and> w_frames w' = w_frames w @ xs)"
  proof cases
    case flag
    have "ending_ok (w_flags w OR f)"
    proof (cases "f = 0x10")
      case True
      with flag ef show ?thesis by (auto intro!: ending_ok_or)
    next
      case False
      with flag(1) ef have "endings (w_flags w OR f) = []" by (auto simp: endings_or)
      then show ?thesis by (rule live_ending_ok)
    qed
    with flag(2) wf show ?thesis by (simp add: walk_over_def)
  next
    case bare
    with ce ef wf show ?thesis by (auto simp: walk_over_def intro!: ending_ok_or)
  next
    case push
    let ?w = "set_flag 0x20 w"
    have ok: "ending_ok (w_flags ?w)" using push(1) ce ef by (auto intro!: ending_ok_or)
    obtain b w2 where fp: "frame_push_native ?w ra = (b, w2)" by (cases "frame_push_native ?w ra")
    have "w_wf ?w" using wf by simp
    show ?thesis
    proof (cases b)
      case True
      with fp have "w' = set_flag 0x80 ?w" using push(2) frame_push_refused(1) [of ?w ra w2] by simp
      moreover have "ending_ok (w_flags ?w OR 0x80)"
        using ok by (rule ending_ok_refused)
      ultimately show ?thesis using wf by (simp add: walk_over_def)
    next
      case False
      with fp frame_push_ok [of ?w ra w2] \<open>w_wf ?w\<close> push(2) ok
      show ?thesis by (auto simp: walk_over_def)
    qed
  qed
  then show "walk_over w'" and "\<exists>xs. length xs \<le> 1 \<and> w_frames w' = w_frames w @ xs" by auto
qed

subsection \<open>A whole frame\<close>

lemma next_unwinder_k_frame: "next_unwinder env t p d k = (u, k') \<Longrightarrow> length (k_stats k') = length (k_stats k)"
  by (auto simp: next_unwinder_def k_count_def Let_def split: option.splits if_splits)

lemma unwind_frame_cases:
  assumes "unwind_frame env lead (w, k) = (stop, w', k')"
  obtains (refused) "lead" "frame_push_native w (w_pc w) = (True, w')" "stop" "k' = k"
    | (claimed) w1 u where "lead" "e_interp_enabled env" "frame_push_native w (w_pc w) = (False, w1)"
        "u \<noteq> UNWINDER_NATIVE" "w' = w1\<lparr>w_pending_unwinder := u\<rparr>" "stop"
    | (arm) w1 w2 where "if lead then frame_push_native w (w_pc w) = (False, w1) else w1 = w"
        "w2 = w1 \<or> w2 = set_flag WALKER_FLAG_CFI_MISS w1"
        "(\<exists>e. dwarf_step env e w2 = (stop, w')) \<or> fp_step env w2 = (stop, w')"
  using assms
  by (auto simp: unwind_frame_def Let_def split: if_splits prod.splits option.splits)

lemma live_push: "walk_live w \<Longrightarrow> frame_push_native w pc = (False, w') \<Longrightarrow> walk_live w'"
  using frame_push_ok [of w pc w'] frame_push_frame [of w pc False w']
  by (simp add: walk_live_def fp_chain_ended_def)

lemma live_miss: "walk_live w \<Longrightarrow> walk_live (set_flag WALKER_FLAG_CFI_MISS w)"
  by (simp add: walk_live_def fp_chain_ended_def endings_or flag_simps)

lemma live_pending: "walk_live (w\<lparr>w_pending_unwinder := u\<rparr>) = walk_live w"
  by (simp add: walk_live_def fp_chain_ended_def)

text \<open>What both arms leave alone.\<close>

lemma arm_frame:
  assumes "(\<exists>e. dwarf_step env e w = (stop, w')) \<or> fp_step env w = (stop, w')"
  shows "w_pid w' = w_pid w" and "w_interp_done w' = w_interp_done w"
    and "w_pending_unwinder w' = w_pending_unwinder w"
    and "has_flag (w_flags w) f \<Longrightarrow> has_flag (w_flags w') f"
proof -
  have push: "w_pid (snd (frame_push_native v ra)) = w_pid v"
    "w_interp_done (snd (frame_push_native v ra)) = w_interp_done v"
    "w_pending_unwinder (snd (frame_push_native v ra)) = w_pending_unwinder v"
    "has_flag (w_flags v) f \<Longrightarrow> has_flag (w_flags (snd (frame_push_native v ra))) f" for v ra
    by (simp_all add: frame_push_native_def record_push_native_def Let_def w_flags_def rec_flags_def
        or_flags_def flag_simps split: prod.split)
  from assms show "w_pid w' = w_pid w" and "w_interp_done w' = w_interp_done w"
    and "w_pending_unwinder w' = w_pending_unwinder w"
    and "has_flag (w_flags w) f \<Longrightarrow> has_flag (w_flags w') f"
    by (auto simp: dwarf_step_def fp_step_def Let_def flag_simps push split: if_splits option.splits)
qed

lemma unwind_frame_continues:
  assumes live: "walk_live w" and fr: "unwind_frame env lead (w, k) = (False, w', k')"
  shows "walk_live w'" and "w_frames w' = w_frames w @ (if lead then [Native (w_pc w)] else [])"
    and "\<not> fp_chain_ended w" and "w_pending_unwinder w' = w_pending_unwinder w"
    and "w_pid w' = w_pid w" and "w_interp_done w' = w_interp_done w"
    and "unat (w_n_pcs w) < MAX_FRAMES \<or> \<not> lead"
proof -
  from fr obtain w1 w2 where w1: "if lead then frame_push_native w (w_pc w) = (False, w1) else w1 = w"
    and w2: "w2 = w1 \<or> w2 = set_flag WALKER_FLAG_CFI_MISS w1"
    and arm: "(\<exists>e. dwarf_step env e w2 = (False, w')) \<or> fp_step env w2 = (False, w')"
    by (cases rule: unwind_frame_cases) auto
  have l1: "walk_live w1" using live w1 live_push by (auto split: if_splits)
  then have l2: "walk_live w2" using w2 live_miss by auto
  have c2: "fp_chain_ended w \<Longrightarrow> fp_chain_ended w2"
    using w1 w2 live frame_push_ok(3) [of w "w_pc w" w1]
    by (auto simp: fp_chain_ended_def walk_live_def flag_simps split: if_splits)
  show "walk_live w'" using arm l2 by (elim disjE exE) (rule dwarf_step_live(1) fp_step_live(1); assumption)+
  have "\<not> fp_chain_ended w2" using arm l2
    by (elim disjE exE) (rule dwarf_step_live(3) fp_step_live(3); assumption)+
  with c2 show "\<not> fp_chain_ended w" by blast
  have "w_frames w' = w_frames w2" using arm l2 dwarf_step_live(2) fp_step_live(2) by blast
  moreover have "w_frames w2 = w_frames w1" using w2 by auto
  moreover have "w_frames w1 = w_frames w @ (if lead then [Native (w_pc w)] else [])"
    using w1 live frame_push_ok(2) by (auto simp: walk_live_def split: if_splits)
  ultimately show "w_frames w' = w_frames w @ (if lead then [Native (w_pc w)] else [])" by simp
  show "w_pending_unwinder w' = w_pending_unwinder w" "w_pid w' = w_pid w" "w_interp_done w' = w_interp_done w"
    using arm_frame(1-3) [OF arm] w1 w2 frame_push_frame [of w "w_pc w" False w1] by (auto split: if_splits)
  show "unat (w_n_pcs w) < MAX_FRAMES \<or> \<not> lead"
    using w1 live frame_push_refused_iff [of w "w_pc w"] by (auto simp: walk_live_def w_wf_def rec_wf_def)
qed

lemma unwind_frame_stops:
  assumes live: "walk_live w" and fr: "unwind_frame env lead (w, k) = (True, w', k')"
  shows "walk_over w'"
    and "\<exists>xs. length xs \<le> 1 \<and>
      w_frames w' = w_frames w @ (if lead \<and> unat (w_n_pcs w) < MAX_FRAMES then [Native (w_pc w)] else []) @ xs"
    and "w_pending_unwinder w' \<noteq> w_pending_unwinder w \<Longrightarrow>
      walk_live w' \<and> e_interp_enabled env \<and> lead \<and> w_pending_unwinder w' \<noteq> UNWINDER_NATIVE \<and>
      w_frames w' = w_frames w @ [Native (w_pc w)] \<and>
      w_pc w' = w_pc w \<and> w_fp w' = w_fp w \<and> w_sp w' = w_sp w"
    and "w_pid w' = w_pid w" and "w_interp_done w' = w_interp_done w"
proof -
  have lt: "frame_push_native w pc = (False, w1) \<Longrightarrow> unat (w_n_pcs w) < MAX_FRAMES" for pc w1
    using live frame_push_refused_iff [of w pc] by (auto simp: walk_live_def w_wf_def rec_wf_def)
  have "walk_over w' \<and> (\<exists>xs. length xs \<le> 1 \<and>
      w_frames w' = w_frames w @ (if lead \<and> unat (w_n_pcs w) < MAX_FRAMES then [Native (w_pc w)] else []) @ xs) \<and>
      (w_pending_unwinder w' \<noteq> w_pending_unwinder w \<longrightarrow>
        walk_live w' \<and> e_interp_enabled env \<and> lead \<and> w_pending_unwinder w' \<noteq> UNWINDER_NATIVE \<and>
        w_frames w' = w_frames w @ [Native (w_pc w)] \<and>
        w_pc w' = w_pc w \<and> w_fp w' = w_fp w \<and> w_sp w' = w_sp w) \<and>
      w_pid w' = w_pid w \<and> w_interp_done w' = w_interp_done w"
    using fr
  proof (cases rule: unwind_frame_cases)
    case refused
    then have "w' = set_flag WALKER_FLAG_FRAME_PUSH_REFUSED w" "\<not> unat (w_n_pcs w) < MAX_FRAMES"
      using frame_push_refused [of w "w_pc w" w'] by auto
    then show ?thesis using live by (auto simp: walk_over_def walk_live_def ending_ok_refused live_ending_ok)
  next
    case (claimed w1 u)
    have l': "walk_live w'" using live claimed live_push by (simp add: live_pending)
    have "w_wf w" using live by (simp add: walk_live_def)
    then show ?thesis
      using claimed(1,2,4,5) l' live_over [OF l'] lt [OF claimed(3)] frame_push_ok(2) [OF claimed(3)]
        frame_push_frame [OF claimed(3)]
      by simp
  next
    case (arm w1 w2)
    have l2: "walk_live w2" using live arm live_push live_miss by (auto split: if_splits)
    have f2: "w_frames w2 =
        w_frames w @ (if lead \<and> unat (w_n_pcs w) < MAX_FRAMES then [Native (w_pc w)] else [])"
      using arm(1,2) live lt frame_push_ok(2) [of w "w_pc w" w1] by (auto simp: walk_live_def split: if_splits)
    have p2: "w_pending_unwinder w2 = w_pending_unwinder w \<and> w_pid w2 = w_pid w \<and> w_interp_done w2 = w_interp_done w"
      using arm(1,2) frame_push_frame [of w "w_pc w" False w1] by (auto split: if_splits)
    have "walk_over w' \<and> (\<exists>xs. length xs \<le> 1 \<and> w_frames w' = w_frames w2 @ xs)"
      using arm(3) l2 dwarf_step_over fp_step_over by (metis append_Nil2 le0 list.size(3))
    then show ?thesis using arm_frame(1-3) [OF arm(3)] p2 f2 by auto
  qed
  then show "walk_over w'"
    and "\<exists>xs. length xs \<le> 1 \<and>
      w_frames w' = w_frames w @ (if lead \<and> unat (w_n_pcs w) < MAX_FRAMES then [Native (w_pc w)] else []) @ xs"
    and "w_pending_unwinder w' \<noteq> w_pending_unwinder w \<Longrightarrow>
      walk_live w' \<and> e_interp_enabled env \<and> lead \<and> w_pending_unwinder w' \<noteq> UNWINDER_NATIVE \<and>
      w_frames w' = w_frames w @ [Native (w_pc w)] \<and>
      w_pc w' = w_pc w \<and> w_fp w' = w_fp w \<and> w_sp w' = w_sp w"
    and "w_pid w' = w_pid w" and "w_interp_done w' = w_interp_done w"
    by blast+
qed

section \<open>The stack the unwind information describes\<close>

text \<open>
  The reference the walker is compared with. A frame is described by the CFI row that covers
  it, if there is one, and by the frame-pointer chain otherwise; \<open>call_stack env pid pc fp sp fs\<close>
  says that \<open>fs\<close> are the program counters of the frames from the given registers to the
  outermost frame, which is a frame whose row has no return address, or one whose saved
  frame pointer is the zero marker together with the caller its return slot names.
\<close>

definition frame_row :: "walk_env \<Rightarrow> u32 \<Rightarrow> u64 \<Rightarrow> cfi_entry option" where
  "frame_row env pid pc =
     (let m = mapping_for_pc (e_pid_mappings env) (e_pid_mapping_lengths env) pid pc
      in if m_found m then cfi_lookup (e_cfi_rules env) (e_cfi_lengths env) (m_table_id m) (m_rel_pc m) else None)"

definition row_cfa :: "cfi_entry \<Rightarrow> u64 \<Rightarrow> u64 \<Rightarrow> u64" where
  "row_cfa e fp sp = (if cfa_type e = CFA_TYPE_FP then fp else sp) + sext64 (cfa_offset e)"

definition row_caller_fp :: "umem \<Rightarrow> cfi_entry \<Rightarrow> u64 \<Rightarrow> u64 \<Rightarrow> u64 option" where
  "row_caller_fp mem e fp cfa =
     (if fp_type e = FP_TYPE_OFFSET_CFA then read_u64 mem (cfa + sext64 (fp_offset e))
      else if fp_type e = FP_TYPE_SAME_VALUE then Some fp else Some 0)"

inductive call_stack :: "walk_env \<Rightarrow> u32 \<Rightarrow> u64 \<Rightarrow> u64 \<Rightarrow> u64 \<Rightarrow> u64 list \<Rightarrow> bool" for env pid where
  cfi_root: "frame_row env pid pc = Some e \<Longrightarrow> ra_type e = RA_TYPE_UNDEFINED \<Longrightarrow>
    call_stack env pid pc fp sp [pc]"
| cfi_caller: "frame_row env pid pc = Some e \<Longrightarrow> ra_type e = RA_TYPE_OFFSET_CFA \<Longrightarrow>
    read_u64 (e_umem env) (row_cfa e fp sp + sext64 (ra_offset e)) = Some ra \<Longrightarrow> ra \<noteq> 0 \<Longrightarrow>
    row_caller_fp (e_umem env) e fp (row_cfa e fp sp) = Some fp' \<Longrightarrow>
    call_stack env pid ra fp' (row_cfa e fp sp) fs \<Longrightarrow> call_stack env pid pc fp sp (pc # fs)"
| fp_caller: "frame_row env pid pc = None \<Longrightarrow> fp \<noteq> 0 \<Longrightarrow> read_u64 (e_umem env) fp = Some saved \<Longrightarrow>
    fp < saved \<Longrightarrow> read_u64 (e_umem env) (fp + 8) = Some ra \<Longrightarrow>
    call_stack env pid ra saved (fp + 16) fs \<Longrightarrow> call_stack env pid pc fp sp (pc # fs)"
| fp_root: "frame_row env pid pc = None \<Longrightarrow> fp \<noteq> 0 \<Longrightarrow> read_u64 (e_umem env) fp = Some 0 \<Longrightarrow>
    read_u64 (e_umem env) (fp + 8) = Some ra \<Longrightarrow> ra \<noteq> 0 \<Longrightarrow>
    (\<And>e. frame_row env pid ra = Some e \<Longrightarrow> ra_type e = RA_TYPE_UNDEFINED) \<Longrightarrow>
    call_stack env pid pc fp sp [pc, ra]"

text \<open>
  The interpreter that has claimed a frame in the handoff table: the program counter lies in one of
  the spans published for its binary, and that interpreter is not yet done with the sample.
  A walk goes up to and including the first claimed frame.
\<close>

definition claimer :: "walk_env \<Rightarrow> u32 \<Rightarrow> u32 \<Rightarrow> u64 \<Rightarrow> u32" where
  "claimer env d pid pc =
     (let m = mapping_for_pc (e_pid_mappings env) (e_pid_mapping_lengths env) pid pc
      in if \<not> e_interp_enabled env \<or> \<not> m_found m then UNWINDER_NATIVE
         else case e_handoff_ranges env (m_table_id m) of
           None \<Rightarrow> UNWINDER_NATIVE
         | Some hr \<Rightarrow>
             if (\<exists>s \<in> set (take HANDOFF_MAX_RANGES (spans hr)). span_lo s \<le> m_rel_pc m \<and> m_rel_pc m < span_hi s) \<and>
                \<not> bit d (unat (unwinder_id hr AND 31)) then unwinder_id hr else UNWINDER_NATIVE)"

definition claimed :: "walk_env \<Rightarrow> walk_ctx \<Rightarrow> u64 \<Rightarrow> bool" where
  "claimed env w pc \<longleftrightarrow> claimer env (w_interp_done w) (w_pid w) pc \<noteq> UNWINDER_NATIVE"

fun native_part :: "(u64 \<Rightarrow> bool) \<Rightarrow> u64 list \<Rightarrow> u64 list" where
  "native_part P [] = []"
| "native_part P (pc # fs) = (if P pc then [pc] else pc # native_part P fs)"

lemma native_part_unclaimed: "(\<And>pc. pc \<in> set fs \<Longrightarrow> \<not> P pc) \<Longrightarrow> native_part P fs = fs"
  by (induction fs) auto

lemma next_unwinder_claimer:
  assumes "e_interp_enabled env" and "m_found (mapping_for_pc (e_pid_mappings env) (e_pid_mapping_lengths env) pid pc)"
  shows "fst (next_unwinder env (m_table_id (mapping_for_pc (e_pid_mappings env) (e_pid_mapping_lengths env) pid pc))
    (m_rel_pc (mapping_for_pc (e_pid_mappings env) (e_pid_mapping_lengths env) pid pc)) d k) = claimer env d pid pc"
proof -
  have "d AND push_bit j 1 \<noteq> 0 \<longleftrightarrow> bit d j" for j
    by (simp add: bit_iff_and_push_bit_not_eq_0)
  with assms show ?thesis
    by (auto simp: next_unwinder_def claimer_def Let_def list_ex_iff in_span_def split: option.splits)
qed

lemma claimer_off: "\<not> e_interp_enabled env \<or>
    \<not> m_found (mapping_for_pc (e_pid_mappings env) (e_pid_mapping_lengths env) pid pc) \<Longrightarrow>
    claimer env d pid pc = UNWINDER_NATIVE"
  by (simp add: claimer_def)

text \<open>A walk that reached the root: an end-of-chain bit, and no failure bit.\<close>

definition complete_walk :: "u16 \<Rightarrow> bool" where
  "complete_walk f \<longleftrightarrow> (has_flag f WALKER_FLAG_RA_UNDEFINED \<or> has_flag f WALKER_FLAG_FP_TERMINATED) \<and>
     set (endings f) \<subseteq> {WALKER_FLAG_RA_UNDEFINED}"

lemma unwind_frame_claimed:
  assumes "claimed env w (w_pc w)" and "frame_push_native w (w_pc w) = (False, w1)"
  obtains k' where "unwind_frame env True (w, k) =
    (True, w1\<lparr>w_pending_unwinder := claimer env (w_interp_done w) (w_pid w) (w_pc w)\<rparr>, k')"
proof -
  have on: "e_interp_enabled env" "m_found (mapping_for_pc (e_pid_mappings env) (e_pid_mapping_lengths env) (w_pid w) (w_pc w))"
    using assms(1) claimer_off [of env "w_pid w" "w_pc w"] by (auto simp: claimed_def)
  define m where "m = mapping_for_pc (e_pid_mappings env) (e_pid_mapping_lengths env) (w_pid w) (w_pc w)"
  obtain k2 where nu: "next_unwinder env (m_table_id m) (m_rel_pc m) (w_interp_done w) k =
      (claimer env (w_interp_done w) (w_pid w) (w_pc w), k2)"
    using next_unwinder_claimer [OF on, of "w_interp_done w" k] by (metis m_def prod.collapse)
  have "unwind_frame env True (w, k) =
    (True, w1\<lparr>w_pending_unwinder := claimer env (w_interp_done w) (w_pid w) (w_pc w)\<rparr>, k_count INTERP_STAT_CLAIMED k2)"
    using assms on nu frame_push_frame [OF assms(2)] by (simp add: unwind_frame_def claimed_def Let_def m_def)
  then show thesis by (rule that)
qed

lemma unwind_frame_unclaimed:
  assumes "\<not> claimed env w (w_pc w)" and "frame_push_native w (w_pc w) = (False, w1)"
  shows "\<exists>k'. unwind_frame env True (w, k) =
    (let m = mapping_for_pc (e_pid_mappings env) (e_pid_mapping_lengths env) (w_pid w) (w_pc w);
         w2 = (if frame_row env (w_pid w) (w_pc w) = None \<and> m_found m \<and> e_cfi_lengths env (m_table_id m) \<noteq> None
               then set_flag WALKER_FLAG_CFI_MISS w1 else w1);
         (stop, w') = (case frame_row env (w_pid w) (w_pc w) of Some e \<Rightarrow> dwarf_step env e w2 | None \<Rightarrow> fp_step env w2)
     in (stop, w', k'))"
  using assms frame_push_frame [OF assms(2)] next_unwinder_claimer [of env "w_pid w" "w_pc w" "w_interp_done w" k]
  by (cases "frame_row env (w_pid w) (w_pc w)")
    (auto simp: unwind_frame_def claimed_def Let_def frame_row_def split: prod.split if_splits)

lemma unwind_frame_arm:
  assumes un: "\<not> claimed env w (w_pc w)" and live: "walk_live w" and lt: "unat (w_n_pcs w) < MAX_FRAMES"
    and fr: "unwind_frame env True (w, k) = (stop, w', k')"
  obtains w2 where "walk_live w2" "w_frames w2 = w_frames w @ [Native (w_pc w)]"
    "w_pc w2 = w_pc w" "w_fp w2 = w_fp w" "w_sp w2 = w_sp w" "w_pid w2 = w_pid w"
    "unat (w_n_pcs w2) = Suc (unat (w_n_pcs w))" "fp_chain_ended w2 = fp_chain_ended w"
    "w_interp_done w2 = w_interp_done w" "w_pending_unwinder w2 = w_pending_unwinder w"
    "(case frame_row env (w_pid w) (w_pc w) of Some e \<Rightarrow> dwarf_step env e w2 | None \<Rightarrow> fp_step env w2) = (stop, w')"
proof -
  have wf: "w_wf w" using live by (simp add: walk_live_def)
  obtain w1 where p: "frame_push_native w (w_pc w) = (False, w1)"
    using frame_push_refused_iff [OF wf, of "w_pc w"] lt by (metis nat_less_le prod.collapse)
  have l1: "walk_live w1" by (rule live_push [OF live p])
  note fr1 = frame_push_frame [OF p] and ok1 = frame_push_ok [OF p wf]
  define w2 where "w2 = (if frame_row env (w_pid w) (w_pc w) = None \<and>
      m_found (mapping_for_pc (e_pid_mappings env) (e_pid_mapping_lengths env) (w_pid w) (w_pc w)) \<and>
      e_cfi_lengths env (m_table_id (mapping_for_pc (e_pid_mappings env) (e_pid_mapping_lengths env) (w_pid w) (w_pc w))) \<noteq> None
      then set_flag WALKER_FLAG_CFI_MISS w1 else w1)"
  have "(case frame_row env (w_pid w) (w_pc w) of Some e \<Rightarrow> dwarf_step env e w2 | None \<Rightarrow> fp_step env w2) = (stop, w')"
  proof -
    obtain k2 where "unwind_frame env True (w, k) =
        (case (case frame_row env (w_pid w) (w_pc w) of Some e \<Rightarrow> dwarf_step env e w2 | None \<Rightarrow> fp_step env w2)
         of (stop, w') \<Rightarrow> (stop, w', k2))"
      using unwind_frame_unclaimed [OF un p, of k] unfolding Let_def w2_def [symmetric] by blast
    with fr show ?thesis by (simp split: prod.splits)
  qed
  moreover have "walk_live w2" using l1 live_miss by (simp add: w2_def)
  moreover have "w_frames w2 = w_frames w @ [Native (w_pc w)]" "w_pc w2 = w_pc w" "w_fp w2 = w_fp w"
    "w_sp w2 = w_sp w" "w_pid w2 = w_pid w" "unat (w_n_pcs w2) = Suc (unat (w_n_pcs w))"
    "fp_chain_ended w2 = fp_chain_ended w" "w_interp_done w2 = w_interp_done w" "w_pending_unwinder w2 = w_pending_unwinder w"
    using fr1 ok1 by (simp_all add: w2_def fp_chain_ended_def flag_simps)
  ultimately show thesis by (rule that [rotated -1])
qed

lemma complete_root: "endings f = [] \<Longrightarrow> complete_walk (f OR 8)"
  by (simp add: complete_walk_def endings_or flag_simps)

lemma complete_chain: "endings f = [] \<Longrightarrow> has_flag f 1 \<Longrightarrow> complete_walk f"
  by (simp add: complete_walk_def)

lemma live_endings: "walk_live w \<Longrightarrow> endings (w_flags w) = []"
  by (simp add: walk_live_def)

text \<open>The callback ignores its index, so the loop unfolds at its head.\<close>

lemma walk_loop_index: "bpf_loop_from i m (walk_step env) s = bpf_loop_from j m (walk_step env) s"
proof (induction m arbitrary: i j s)
  case (Suc m)
  have "walk_step env i s = walk_step env j s" by (simp add: walk_step_def)
  then show ?case using Suc.IH [of "i + 1" _ "j + 1"] by (simp add: Let_def split: prod.split)
qed simp

lemma walk_loop_Suc:
  "bpf_loop (Suc m) (walk_step env) s =
     (case unwind_frame env True s of (stop, s') \<Rightarrow> if stop then s' else bpf_loop m (walk_step env) s')"
  using walk_loop_index [of "0 + 1" m env _ 0]
  by (simp add: bpf_loop_def walk_step_def [of env 0] split: prod.split)

lemma walk_loop_zero [simp]: "bpf_loop 0 (walk_step env) s = s"
  by (simp add: bpf_loop_def)

text \<open>One iteration of the walk loop, on a frame no interpreter has claimed.\<close>

lemma loop_head:
  assumes "\<not> claimed env w (w_pc w)" and "walk_live w" and "unat (w_n_pcs w) < MAX_FRAMES"
  obtains stop w' k' w2 where "walk_live w2" "w_frames w2 = w_frames w @ [Native (w_pc w)]"
    "w_fp w2 = w_fp w" "w_sp w2 = w_sp w" "w_pid w2 = w_pid w"
    "unat (w_n_pcs w2) = Suc (unat (w_n_pcs w))" "fp_chain_ended w2 = fp_chain_ended w"
    "w_interp_done w2 = w_interp_done w" "w_pending_unwinder w2 = w_pending_unwinder w"
    "(case frame_row env (w_pid w) (w_pc w) of Some e \<Rightarrow> dwarf_step env e w2 | None \<Rightarrow> fp_step env w2) = (stop, w')"
    "bpf_loop (Suc m) (walk_step env) (w, k) = (if stop then (w', k') else bpf_loop m (walk_step env) (w', k'))"
proof -
  obtain stop w' k' where fr: "unwind_frame env True (w, k) = (stop, w', k')"
    by (cases "unwind_frame env True (w, k)")
  then have "bpf_loop (Suc m) (walk_step env) (w, k) =
       (if stop then (w', k') else bpf_loop m (walk_step env) (w', k'))"
    by (simp add: walk_loop_Suc)
  with unwind_frame_arm [OF assms fr] that show thesis by metis
qed

text \<open>
  The walk from \<open>s\<close> over the frames \<open>fs\<close>: it appends the frames up to the first claimed one. With
  none claimed it reports a complete walk; otherwise it stands on the claimed frame, with its claimer pending
  and no ending flagged.
\<close>

definition walked :: "walk_env \<Rightarrow> walk_ctx \<Rightarrow> u64 list \<Rightarrow> walk_ctx \<Rightarrow> bool" where
  "walked env w fs w' \<longleftrightarrow>
     w_frames w' = w_frames w @ map Native (native_part (claimed env w) fs) \<and>
     w_pid w' = w_pid w \<and> w_interp_done w' = w_interp_done w \<and>
     (case find (claimed env w) fs of
        None \<Rightarrow> complete_walk (w_flags w') \<and> w_pending_unwinder w' = w_pending_unwinder w
      | Some pc \<Rightarrow> w_pc w' = pc \<and> w_pending_unwinder w' = claimer env (w_interp_done w) (w_pid w) pc \<and>
                   endings (w_flags w') = [])"

definition records :: "walk_env \<Rightarrow> nat \<Rightarrow> walk_ctx \<times> kernel_state \<Rightarrow> u64 list \<Rightarrow> bool" where
  "records env m s fs \<longleftrightarrow> walked env (fst s) fs (fst (bpf_loop m (walk_step env) s))"

lemma claimed_cong: "w_interp_done w' = w_interp_done w \<Longrightarrow> w_pid w' = w_pid w \<Longrightarrow> claimed env w' = claimed env w"
  by (simp add: claimed_def fun_eq_iff)

lemma records_cont:
  assumes "bpf_loop (Suc m) (walk_step env) (w, k) = bpf_loop m (walk_step env) (w', k')"
    and "w_frames w' = w_frames w @ [Native pc]" and "\<not> claimed env w pc"
    and "w_interp_done w' = w_interp_done w" and "w_pid w' = w_pid w" and "w_pending_unwinder w' = w_pending_unwinder w"
    and "records env m (w', k') fs"
  shows "records env (Suc m) (w, k) (pc # fs)"
  using assms claimed_cong [of w' w env] by (auto simp: records_def walked_def split: option.splits)

lemma records_last:
  assumes "bpf_loop (Suc m) (walk_step env) (w, k) = (w', k')" and "w_frames w' = w_frames w @ [Native pc]"
    and "\<not> claimed env w pc" and "w_interp_done w' = w_interp_done w" and "w_pid w' = w_pid w"
    and "w_pending_unwinder w' = w_pending_unwinder w" and "complete_walk (w_flags w')"
  shows "records env (Suc m) (w, k) [pc]"
  using assms by (simp add: records_def walked_def)

text \<open>A claimed frame is recorded and the walk stops on it, whatever the frames above it are.\<close>

lemma records_claimed:
  assumes c: "claimed env w (w_pc w)" and live: "walk_live w" and lt: "unat (w_n_pcs w) < MAX_FRAMES"
  shows "records env (Suc m) (w, k) (w_pc w # fs)"
proof -
  have wf: "w_wf w" using live by (simp add: walk_live_def)
  obtain w1 where p: "frame_push_native w (w_pc w) = (False, w1)"
    using frame_push_refused_iff [OF wf, of "w_pc w"] lt by (metis nat_less_le prod.collapse)
  obtain k' where u: "unwind_frame env True (w, k) =
      (True, w1\<lparr>w_pending_unwinder := claimer env (w_interp_done w) (w_pid w) (w_pc w)\<rparr>, k')"
    by (rule unwind_frame_claimed [OF c p])
  show ?thesis
    using frame_push_frame [OF p] frame_push_ok [OF p wf] c live_endings [OF live]
    by (simp add: records_def walked_def walk_loop_Suc u)
qed

text \<open>The one step past the end of the frame-pointer chain records the caller and stops.\<close>

lemma past_root:
  assumes un: "\<not> claimed env w (w_pc w)" and live: "walk_live w" and ended: "fp_chain_ended w"
    and lt: "unat (w_n_pcs w) < MAX_FRAMES"
    and row: "\<And>e. frame_row env (w_pid w) (w_pc w) = Some e \<Longrightarrow> ra_type e = RA_TYPE_UNDEFINED"
  shows "records env (Suc m) (w, k) [w_pc w]"
proof (rule loop_head [OF un live lt, of m k])
  fix stop w' k' w2
  assume w2: "walk_live w2" "w_frames w2 = w_frames w @ [Native (w_pc w)]" "fp_chain_ended w2 = fp_chain_ended w"
      "w_pid w2 = w_pid w" "w_interp_done w2 = w_interp_done w" "w_pending_unwinder w2 = w_pending_unwinder w"
    and arm: "(case frame_row env (w_pid w) (w_pc w) of Some e \<Rightarrow> dwarf_step env e w2 | None \<Rightarrow> fp_step env w2) = (stop, w')"
    and lp: "bpf_loop (Suc m) (walk_step env) (w, k) = (if stop then (w', k') else bpf_loop m (walk_step env) (w', k'))"
  have z: "w_fp w2 = 0" using w2(1,3) ended by (simp add: walk_live_def)
  have "stop \<and> (w' = w2 \<or> w' = set_flag 8 w2) \<and> complete_walk (w_flags w')"
  proof (cases "frame_row env (w_pid w) (w_pc w)")
    case None
    with arm z w2 ended have "stop" "w' = w2" by (simp_all add: fp_step_def)
    then show ?thesis using w2 ended live_endings complete_chain by (simp add: fp_chain_ended_def)
  next
    case (Some e)
    with arm row have "stop" "w' = set_flag 8 w2" by (simp_all add: dwarf_step_def Let_def)
    then show ?thesis using w2 live_endings complete_root by simp
  qed
  with lp w2 un show ?thesis by (intro records_last [of m env w k w' k']) auto
qed

text \<open>What the induction carries: a live walk standing on the given registers, with room.\<close>

definition stands_on :: "walk_ctx \<Rightarrow> u32 \<Rightarrow> u64 \<Rightarrow> u64 \<Rightarrow> u64 \<Rightarrow> nat \<Rightarrow> bool" where
  "stands_on w pid pc fp sp len \<longleftrightarrow> walk_live w \<and> \<not> fp_chain_ended w \<and> w_pid w = pid \<and> w_pc w = pc \<and>
     w_fp w = fp \<and> w_sp w = sp \<and> unat (w_n_pcs w) + len \<le> MAX_FRAMES"

lemma stands_claimed: "claimed env w pc \<Longrightarrow> stands_on w pid pc fp sp (Suc n) \<Longrightarrow> records env (Suc m) (w, k) (pc # fs)"
  using records_claimed [of env w m k fs] by (simp add: stands_on_def)

lemma stands_head:
  assumes "\<not> claimed env w pc" and "stands_on w pid pc fp sp (Suc n)"
  obtains stop w' k' w2 where "walk_live w2" "\<not> fp_chain_ended w2" "w_frames w2 = w_frames w @ [Native pc]" "w_fp w2 = fp" "w_sp w2 = sp"
    "w_pid w2 = pid" "w_pid w = pid" "unat (w_n_pcs w2) + n \<le> MAX_FRAMES" "w_interp_done w2 = w_interp_done w" "w_pending_unwinder w2 = w_pending_unwinder w"
    "(case frame_row env pid pc of Some e \<Rightarrow> dwarf_step env e w2 | None \<Rightarrow> fp_step env w2) = (stop, w')"
    "bpf_loop (Suc m) (walk_step env) (w, k) = (if stop then (w', k') else bpf_loop m (walk_step env) (w', k'))"
proof -
  have "\<not> claimed env w (w_pc w)" "walk_live w" "unat (w_n_pcs w) < MAX_FRAMES"
    using assms by (simp_all add: stands_on_def)
  then show thesis by (rule loop_head [of env w m k]) (rule that, use assms(2) in \<open>simp_all add: stands_on_def\<close>)
qed

lemma records_cfi_root:
  assumes "\<not> claimed env w pc" and "stands_on w pid pc fp sp 1" and "frame_row env pid pc = Some e" and "ra_type e = RA_TYPE_UNDEFINED"
  shows "records env (Suc m) (w, k) [pc]"
proof (rule stands_head [OF assms(1) assms(2) [unfolded One_nat_def], of m k])
  fix stop w' k' w2
  assume w2: "walk_live w2" "w_frames w2 = w_frames w @ [Native pc]" "w_pid w2 = pid" "w_pid w = pid"
      "w_interp_done w2 = w_interp_done w" "w_pending_unwinder w2 = w_pending_unwinder w"
    and arm: "(case frame_row env pid pc of Some e \<Rightarrow> dwarf_step env e w2 | None \<Rightarrow> fp_step env w2) = (stop, w')"
    and lp: "bpf_loop (Suc m) (walk_step env) (w, k) = (if stop then (w', k') else bpf_loop m (walk_step env) (w', k'))"
  have "stop" "w' = set_flag 8 w2" using arm assms(3,4) by (simp_all add: dwarf_step_def Let_def)
  then show ?thesis
    using lp w2 assms(1) by (intro records_last [of m env w k w' k']) (simp_all add: live_endings complete_root)
qed

lemma records_cfi_caller:
  assumes "\<not> claimed env w pc" and "stands_on w pid pc fp sp (Suc n)" and "frame_row env pid pc = Some e" and "ra_type e = RA_TYPE_OFFSET_CFA"
    and "read_u64 (e_umem env) (row_cfa e fp sp + sext64 (ra_offset e)) = Some ra" and "ra \<noteq> 0"
    and "row_caller_fp (e_umem env) e fp (row_cfa e fp sp) = Some fp'"
    and rest: "\<And>w' k'. stands_on w' pid ra fp' (row_cfa e fp sp) n \<Longrightarrow> records env m (w', k') fs"
  shows "records env (Suc m) (w, k) (pc # fs)"
proof (rule stands_head [OF assms(1,2), of m k])
  fix stop w' k' w2
  assume w2: "walk_live w2" "\<not> fp_chain_ended w2" "w_frames w2 = w_frames w @ [Native pc]" "w_fp w2 = fp" "w_sp w2 = sp" "w_pid w2 = pid" "w_pid w = pid"
      "w_interp_done w2 = w_interp_done w" "w_pending_unwinder w2 = w_pending_unwinder w"
      "unat (w_n_pcs w2) + n \<le> MAX_FRAMES"
    and arm: "(case frame_row env pid pc of Some e \<Rightarrow> dwarf_step env e w2 | None \<Rightarrow> fp_step env w2) = (stop, w')"
    and lp: "bpf_loop (Suc m) (walk_step env) (w, k) = (if stop then (w', k') else bpf_loop m (walk_step env) (w', k'))"
  have w': "\<not> stop" "w' = set_flag 2 (w2\<lparr>w_pc := ra, w_fp := fp', w_sp := row_cfa e fp sp\<rparr>)"
    using arm w2 assms(3-7) by (auto simp: dwarf_step_def Let_def row_cfa_def row_caller_fp_def split: option.splits if_splits)
  have "dwarf_step env e w2 = (False, w')" using arm w'(1) assms(3) by simp
  then have "walk_live w'" by (rule dwarf_step_live(1) [OF w2(1)])
  then have "records env m (w', k') fs" using w2 by (intro rest) (simp add: stands_on_def w' fp_chain_ended_def flag_simps)
  then show "records env (Suc m) (w, k) (pc # fs)" by (rule records_cont [rotated 6]) (use assms(1) lp w' w2 in simp_all)
qed

lemma records_fp_caller:
  assumes "\<not> claimed env w pc" and "stands_on w pid pc fp sp (Suc n)" and "frame_row env pid pc = None" and "fp \<noteq> 0"
    and "read_u64 (e_umem env) fp = Some saved" and "read_u64 (e_umem env) (fp + 8) = Some ra" and "fp < saved"
    and rest: "\<And>w' k'. stands_on w' pid ra saved (fp + 16) n \<Longrightarrow> records env m (w', k') fs"
  shows "records env (Suc m) (w, k) (pc # fs)"
proof (rule stands_head [OF assms(1,2), of m k])
  fix stop w' k' w2
  assume w2: "walk_live w2" "\<not> fp_chain_ended w2" "w_frames w2 = w_frames w @ [Native pc]" "w_fp w2 = fp" "w_pid w2 = pid" "w_pid w = pid"
      "w_interp_done w2 = w_interp_done w" "w_pending_unwinder w2 = w_pending_unwinder w"
      "unat (w_n_pcs w2) + n \<le> MAX_FRAMES"
    and arm: "(case frame_row env pid pc of Some e \<Rightarrow> dwarf_step env e w2 | None \<Rightarrow> fp_step env w2) = (stop, w')"
    and lp: "bpf_loop (Suc m) (walk_step env) (w, k) = (if stop then (w', k') else bpf_loop m (walk_step env) (w', k'))"
  have arm': "fp_step env w2 = (stop, w')" using arm assms(3) by simp
  have w': "\<not> stop" "w' = w2\<lparr>w_sp := fp + 16, w_pc := ra, w_fp := saved\<rparr>"
    using arm' w2 assms(4-6) not_le [THEN iffD2, OF assms(7)] by (simp_all add: fp_step_def)
  have "walk_live w'" using fp_step_live(1) [OF w2(1)] arm' w'(1) by simp
  then have "records env m (w', k') fs" using w2 by (intro rest) (simp add: stands_on_def w' fp_chain_ended_def)
  then show "records env (Suc m) (w, k) (pc # fs)" by (rule records_cont [rotated 6]) (use assms(1) lp w' w2 in simp_all)
qed

lemma records_fp_root:
  assumes "\<not> claimed env w pc" and "stands_on w pid pc fp sp 2" and "frame_row env pid pc = None" and "fp \<noteq> 0"
    and "read_u64 (e_umem env) fp = Some 0" and "read_u64 (e_umem env) (fp + 8) = Some ra" and "ra \<noteq> 0"
    and root: "\<And>e. frame_row env pid ra = Some e \<Longrightarrow> ra_type e = RA_TYPE_UNDEFINED"
  shows "records env (Suc (Suc m)) (w, k) [pc, ra]"
proof (rule stands_head [OF assms(1) assms(2) [unfolded numeral_2_eq_2], of "Suc m" k])
  fix stop w' k' w2
  assume w2: "walk_live w2" "w_frames w2 = w_frames w @ [Native pc]" "w_fp w2 = fp" "w_pid w2 = pid" "w_pid w = pid" "w_interp_done w2 = w_interp_done w" "w_pending_unwinder w2 = w_pending_unwinder w"
      "unat (w_n_pcs w2) + Suc 0 \<le> MAX_FRAMES"
    and arm: "(case frame_row env pid pc of Some e \<Rightarrow> dwarf_step env e w2 | None \<Rightarrow> fp_step env w2) = (stop, w')"
    and lp: "bpf_loop (Suc (Suc m)) (walk_step env) (w, k) = (if stop then (w', k') else bpf_loop (Suc m) (walk_step env) (w', k'))"
  have arm': "fp_step env w2 = (stop, w')" using arm assms(3) by simp
  have w': "\<not> stop" "w' = (set_flag 1 w2)\<lparr>w_sp := fp + 16, w_pc := ra, w_fp := 0\<rparr>"
    using arm' w2 assms(4-7) by (auto simp: fp_step_def Let_def)
  have "walk_live w'" using fp_step_live(1) [OF w2(1)] arm' w'(1) by simp
  then have "records env (Suc m) (w', k') [w_pc w']"
  proof (cases "claimed env w' (w_pc w')")
    case True
    then show ?thesis using \<open>walk_live w'\<close> w2 by (intro records_claimed) (simp_all add: w')
  next
    case False
    then show ?thesis using \<open>walk_live w'\<close> root w2 by (intro past_root) (simp_all add: w' fp_chain_ended_def flag_simps)
  qed
  then have "records env (Suc m) (w', k') [ra]" by (simp add: w')
  then show "records env (Suc (Suc m)) (w, k) [pc, ra]" by (rule records_cont [rotated 6]) (use assms(1) lp w' w2 in simp_all)
qed

lemma loop_records_call_stack:
  assumes "call_stack env pid pc fp sp fs"
  shows "stands_on w pid pc fp sp (length fs) \<Longrightarrow> length fs \<le> m \<Longrightarrow> records env m (w, k) fs"
  using assms(1)
proof (induction arbitrary: w k m)
  case (cfi_root pc e fp sp)
  then obtain m' where "m = Suc m'" by (cases m) auto
  with cfi_root show ?case
    using records_cfi_root [of env w pc pid fp sp e m' k] stands_claimed [of env w pc pid fp sp 0 m' k "[]"] by force
next
  case (cfi_caller pc e fp sp ra fp' fs)
  then obtain m' where "m = Suc m'" "length fs \<le> m'" by (cases m) auto
  with cfi_caller show ?case by (cases "claimed env w pc") (auto intro: stands_claimed records_cfi_caller)
next
  case (fp_caller pc fp saved ra fs sp)
  then obtain m' where "m = Suc m'" "length fs \<le> m'" by (cases m) auto
  with fp_caller show ?case by (cases "claimed env w pc") (auto intro: stands_claimed records_fp_caller)
next
  case (fp_root pc fp ra sp)
  then obtain m' where m: "m = Suc (Suc m')" by (cases m; cases "m - 1") auto
  show ?case
  proof (cases "claimed env w pc")
    case True
    then show ?thesis using fp_root.prems stands_claimed [of env w pc pid fp sp 1 "Suc m'" k "[ra]"] by (simp add: m)
  next
    case False
    with fp_root show ?thesis using records_fp_root [of env w pc pid fp sp ra m' k] by (simp add: m numeral_2_eq_2)
  qed
qed

section \<open>The rate limit of the miss notifier\<close>

fun miss_calls :: "walk_env \<Rightarrow> (u32 \<times> u64 \<times> u64) list \<Rightarrow> kernel_state \<Rightarrow> kernel_state" where
  "miss_calls env [] k = k"
| "miss_calls env ((pid, t, rel) # cs) k = miss_calls env cs (emit_cfi_miss env pid t rel k)"

definition ev_key :: "cfi_miss_event \<Rightarrow> u32 \<times> u64" where
  "ev_key e = (ev_pid e, ev_table_id e)"

definition spaced :: "cfi_miss_event list \<Rightarrow> bool" where
  "spaced es \<longleftrightarrow> sorted_wrt (\<lambda>a b. ev_key a = ev_key b \<longrightarrow>
     unat (ev_ktime_ns a) + 1000000000 \<le> unat (ev_ktime_ns b)) es"

definition miss_inv :: "walk_env \<Rightarrow> kernel_state \<Rightarrow> bool" where
  "miss_inv env k \<longleftrightarrow> spaced (k_miss_events k) \<and>
     (\<forall>e \<in> set (k_miss_events k). \<exists>t. k_ratelimit k (ev_key e) = Some t \<and> ev_ktime_ns e \<le> t) \<and>
     (\<forall>key t. k_ratelimit k key = Some t \<longrightarrow> t \<le> e_ktime env (k_clock_reads k))"

lemma spaced_snoc:
  "spaced (es @ [e]) \<longleftrightarrow> spaced es \<and>
     (\<forall>a \<in> set es. ev_key a = ev_key e \<longrightarrow> unat (ev_ktime_ns a) + 1000000000 \<le> unat (ev_ktime_ns e))"
  by (auto simp: spaced_def sorted_wrt_append)

lemma gap_no_wrap:
  "(t :: u64) \<le> now \<Longrightarrow> \<not> now - t < 1000000000 \<Longrightarrow> unat t + 1000000000 \<le> unat now"
  by (simp add: word_less_nat_alt word_le_nat_alt unat_sub)

lemma emit_cfi_miss_inv:
  assumes mono: "\<And>i j. i \<le> j \<Longrightarrow> e_ktime env i \<le> e_ktime env j"
    and keep: "\<And>n key. \<not> e_lru_evicts env n key" and inv: "miss_inv env k"
  shows "miss_inv env (emit_cfi_miss env pid t rel k)"
proof -
  let ?now = "e_ktime env (k_clock_reads k)" and ?next = "e_ktime env (Suc (k_clock_reads k))"
  have nx: "?now \<le> ?next" by (simp add: mono)
  have old: "k_ratelimit k key = Some u \<Longrightarrow> u \<le> ?now" for key u
    using inv unfolding miss_inv_def by blast
  have old': "k_ratelimit k key = Some u \<Longrightarrow> u \<le> ?next" for key u using old nx order_trans by blast
  have lru: "lru_update (e_lru_evicts env n) m key v = m(key \<mapsto> v)" for n m key v
    using keep by (auto simp: lru_update_def)
  show ?thesis
  proof (cases "case k_ratelimit k (pid, t) of None \<Rightarrow> False | Some u \<Rightarrow> ?now - u < 1000000000")
    case True
    then show ?thesis using inv old' by (auto simp: emit_cfi_miss_def Let_def miss_inv_def)
  next
    case False
    have sep: "unat (ev_ktime_ns e) + 1000000000 \<le> unat ?now"
      if "e \<in> set (k_miss_events k)" "ev_key e = (pid, t)" for e
    proof -
      from that inv obtain u where u: "k_ratelimit k (pid, t) = Some u" "ev_ktime_ns e \<le> u"
        by (auto simp: miss_inv_def)
      with False have "unat u + 1000000000 \<le> unat ?now" by (intro gap_no_wrap) (auto dest: old)
      with u(2) show ?thesis by (simp add: word_le_nat_alt)
    qed
    have t: "\<exists>u. ((k_ratelimit k)((pid, t) \<mapsto> ?now)) (ev_key e) = Some u \<and> ev_ktime_ns e \<le> u"
      if "e \<in> set (k_miss_events k)" for e
      using inv sep [OF that] that by (force simp: miss_inv_def word_le_nat_alt)
    show ?thesis
      using False inv sep t old' nx
      by (auto simp: emit_cfi_miss_def Let_def miss_inv_def lru spaced_snoc ev_key_def)
  qed
qed

lemma miss_calls_inv:
  assumes "\<And>i j. i \<le> j \<Longrightarrow> e_ktime env i \<le> e_ktime env j" and "\<And>n key. \<not> e_lru_evicts env n key"
  shows "miss_inv env k \<Longrightarrow> miss_inv env (miss_calls env cs k)"
proof (induction cs arbitrary: k)
  case (Cons c cs)
  obtain pid t rel where "c = (pid, t, rel)" by (cases c)
  with Cons emit_cfi_miss_inv [OF assms Cons.prems] show ?case by simp
qed simp

section \<open>Properties of the walker\<close>

text \<open>
  One frame of the walk is append-only and leaves a well-formed record. A frame that
  lets the walk continue has appended exactly its own pc (nothing, on the frame a resumed
  walk starts on), and one that stops it has appended that and at most one frame more; while
  the walk continues no ending bit is set, and when it stops the flags are consistent.
\<close>

theorem unwind_frame_appends:
  assumes "walk_live w" and "unwind_frame env lead (w, k) = (stop, w', k')"
  shows "(if stop then walk_over w' else walk_live w') \<and>
    (\<exists>xs. length xs \<le> (if stop then 1 else 0) \<and>
      w_frames w' = w_frames w @ (if lead \<and> unat (w_n_pcs w) < MAX_FRAMES then [Native (w_pc w)] else []) @ xs)"
proof (cases stop)
  case True
  with assms unwind_frame_stops(1,2) [of w env lead k w' k'] show ?thesis by simp
next
  case False
  with assms unwind_frame_continues(1,2,7) [of w env lead k w' k'] show ?thesis by auto
qed

definition demo_mem :: umem where
  "demo_mem a = (if a = 0x1008 then Some 7 else if 0x1000 \<le> a \<and> a < 0x1010 then Some 0 else None)"

definition demo_env :: walk_env where
  "demo_env = \<lparr>e_ktime = (\<lambda>n. 0), e_rb_room = (\<lambda>n. True), e_lru_evicts = (\<lambda>n key. False), e_umem = demo_mem,
     e_cfi_rules = (\<lambda>t. None), e_cfi_lengths = (\<lambda>t. None), e_pid_mappings = (\<lambda>p. None),
     e_pid_mapping_lengths = (\<lambda>p. None), e_handoff_ranges = (\<lambda>t. None), e_interp_enabled = False\<rparr>"

definition demo_walk :: "u64 \<Rightarrow> u16 \<Rightarrow> walk_ctx" where
  "demo_walk fp f = \<lparr>w_pc = 5, w_fp = fp, w_sp = 0xFF0, w_pid = 9, w_n_pcs = 0, w_rec = or_flags f empty_record,
     w_pending_unwinder = 0, w_interp_done = 0\<rparr>"

definition demo_kernel :: kernel_state where
  "demo_kernel = \<lparr>k_clock_reads = 0, k_reserves = 0, k_lru_updates = 0, k_ratelimit = (\<lambda>key. None),
     k_miss_events = [], k_stats = replicate 7 0\<rparr>"

lemma demo_flags [simp]: "w_flags (demo_walk fp f) = f"
  by (simp add: w_flags_def demo_walk_def rec_flags_def empty_record_def or_flags_def)

lemma demo_live: "walk_live (demo_walk 0x1000 0)" "walk_live (demo_walk 0 1)"
  by (simp_all add: walk_live_def w_wf_def fp_chain_ended_def) (simp_all add: demo_walk_def)

lemma demo_reads: "read_u64 demo_mem 0x1000 = Some 0" "read_u64 demo_mem 0x1008 = Some 7"
  by (simp_all add: read_u64_def demo_mem_def)

lemma demo_row: "frame_row demo_env pid pc = None"
  by (simp add: frame_row_def mapping_for_pc_def demo_env_def no_mapping_def)

text \<open>
  The step past the end of the frame-pointer chain is bounded to exactly one. A walk that
  stands on the caller named by a zero saved-FP slot stops at that frame, whatever the tables,
  the memory and the claims say about it.
\<close>

theorem fp_chain_one_step_past:
  assumes "walk_live w" and "fp_chain_ended w"
  shows "fst (unwind_frame env lead (w, k))"
  using assms unwind_frame_continues(3) [of w env lead k] by (cases "unwind_frame env lead (w, k)") auto

text \<open>
  C2: on a stack the unwind information describes to its outermost frame (CFI rows where they
  exist, the frame-pointer chain elsewhere) and that fits the record, with the interpreter handoff on or
  off and any table of claims, the walk loop records exactly the frames of that stack, in order, up to and
  including the first one a not yet finished interpreter has claimed. Without such a frame it is
  the whole stack, the walk is flagged complete and the pending unwinder is left alone; at a claimed frame
  the walk stands on it with the claimer pending and no ending flagged.
\<close>

theorem walk_records_call_stack:
  assumes "call_stack env pid pc fp sp fs"
    and "walk_live w" and "\<not> fp_chain_ended w" and "w_pid w = pid" and "w_pc w = pc" and "w_fp w = fp"
    and "w_sp w = sp" and "unat (w_n_pcs w) + length fs \<le> MAX_FRAMES"
  shows "case bpf_loop MAX_FRAMES (walk_step env) (w, k) of (w', k') \<Rightarrow>
    w_frames w' = w_frames w @ map Native (native_part (claimed env w) fs) \<and>
    w_pid w' = pid \<and> w_interp_done w' = w_interp_done w \<and>
    (case find (claimed env w) fs of
       None \<Rightarrow> complete_walk (w_flags w') \<and> w_pending_unwinder w' = w_pending_unwinder w
     | Some q \<Rightarrow> w_pc w' = q \<and> w_pending_unwinder w' = claimer env (w_interp_done w) pid q \<and> endings (w_flags w') = [])"
  using loop_records_call_stack [OF assms(1), of w MAX_FRAMES k] assms(2-)
  by (cases "bpf_loop MAX_FRAMES (walk_step env) (w, k)")
    (simp add: records_def walked_def stands_on_def split: option.splits)

definition claim_map_env :: walk_env where
  "claim_map_env = demo_env\<lparr>e_interp_enabled := True,
     e_pid_mappings := [9 \<mapsto> [\<lparr>vma_start = 7, vma_end = 8, load_bias = 0, pm_table_id = 3\<rparr>]], e_pid_mapping_lengths := [9 \<mapsto> 1],
     e_handoff_ranges := [3 \<mapsto> \<lparr>spans = [\<lparr>span_lo = 7, span_hi = 8\<rparr>], unwinder_id = 1\<rparr>]\<rparr>"

lemma claim_map_lookup:
  "mapping_for_pc (e_pid_mappings claim_map_env) (e_pid_mapping_lengths claim_map_env) 9 pc =
     (if pc = 7 then \<lparr>m_table_id = 3, m_rel_pc = 7, m_found = True\<rparr> else no_mapping)"
proof -
  have "(7::u64) \<le> pc \<and> pc < 8 \<longleftrightarrow> pc = 7" by unat_arith
  then show ?thesis by (simp add: mapping_for_pc_find claim_map_env_def mapping_result_def mapping_hit_def)
qed

lemma claim_map_row: "frame_row claim_map_env 9 pc = None"
  by (simp add: frame_row_def claim_map_lookup no_mapping_def)
    (simp add: claim_map_env_def demo_env_def cfi_lookup_def)

lemma claim_map_claimer: "claimer claim_map_env 0 9 5 = 0" "claimer claim_map_env 0 9 7 = 1" "claimer claim_map_env 2 9 5 = 0" "claimer claim_map_env 2 9 7 = 0"
  by (simp_all add: claimer_def claim_map_lookup no_mapping_def)
    (simp_all add: claim_map_env_def)

theorem walk_records_call_stack_witness:
  "(case bpf_loop MAX_FRAMES (walk_step claim_map_env) (demo_walk 0x1000 0, demo_kernel) of (w', k') \<Rightarrow>
      w_frames w' = w_frames (demo_walk 0x1000 0) @ map Native [5, 7] \<and> w_pc w' = 7 \<and> w_pending_unwinder w' = 1 \<and>
      endings (w_flags w') = []) \<and>
   (case bpf_loop MAX_FRAMES (walk_step claim_map_env) ((demo_walk 0x1000 0)\<lparr>w_interp_done := 2\<rparr>, demo_kernel) of (w', k') \<Rightarrow>
      w_frames w' = w_frames (demo_walk 0x1000 0) @ map Native [5, 7] \<and> w_pending_unwinder w' = 0 \<and> complete_walk (w_flags w'))"
proof -
  have st: "call_stack claim_map_env 9 5 0x1000 0xFF0 [5, 7]"
    by (rule fp_root) (simp_all add: claim_map_row demo_reads, simp_all add: claim_map_env_def demo_env_def demo_reads)
  have walk: "w_pid (demo_walk 0x1000 0) = 9" "w_pc (demo_walk 0x1000 0) = 5" "w_fp (demo_walk 0x1000 0) = 0x1000"
    "w_sp (demo_walk 0x1000 0) = 0xFF0" "w_n_pcs (demo_walk 0x1000 0) = 0" "w_interp_done (demo_walk 0x1000 0) = 0"
    "w_pending_unwinder (demo_walk 0x1000 0) = 0"
    by (simp_all add: demo_walk_def)
  have live: "walk_live ((demo_walk 0x1000 0)\<lparr>w_interp_done := 2\<rparr>)" "\<not> fp_chain_ended ((demo_walk 0x1000 0)\<lparr>w_interp_done := 2\<rparr>)"
    using demo_live(1) demo_flags [of "0x1000" 0] by (simp_all add: walk_live_def w_wf_def fp_chain_ended_def w_flags_def)
  have c: "claimed claim_map_env (demo_walk 0x1000 0) 5 = False" "claimed claim_map_env (demo_walk 0x1000 0) 7"
    "claimed claim_map_env ((demo_walk 0x1000 0)\<lparr>w_interp_done := 2\<rparr>) 5 = False"
    "claimed claim_map_env ((demo_walk 0x1000 0)\<lparr>w_interp_done := 2\<rparr>) 7 = False"
    "w_frames ((demo_walk 0x1000 0)\<lparr>w_interp_done := 2\<rparr>) = w_frames (demo_walk 0x1000 0)"
    by (simp_all add: claimed_def walk claim_map_claimer w_frames_def)
  show ?thesis
    using walk_records_call_stack [OF st demo_live(1), of demo_kernel] walk_records_call_stack [OF st live, of demo_kernel]
    by (simp add: walk c claim_map_claimer fp_chain_ended_def split: prod.splits)
qed

text \<open>
  With a monotonic clock and no LRU eviction, however many frames report a miss, any two
  miss events for the same (pid, table) are at least one second apart.
\<close>

theorem emit_cfi_miss_rate_limited:
  assumes "\<And>i j. i \<le> j \<Longrightarrow> e_ktime env i \<le> e_ktime env j" and "\<And>n key. \<not> e_lru_evicts env n key"
    and "k_miss_events k = []" and "k_ratelimit k = (\<lambda>key. None)"
  shows "spaced (k_miss_events (miss_calls env cs k))"
  using miss_calls_inv [of env k cs] assms by (simp add: miss_inv_def spaced_def)

text \<open>
  \<open>next_unwinder\<close> answers exactly the claim table: the claiming unwinder's id when the pc
  lies in one of the spans installed for the binary and that unwinder is not done with the
  sample, and the native id otherwise; the zeroed spans after the installed ones claim nothing.
\<close>

theorem next_unwinder_claims:
  assumes "e_handoff_ranges env t = Some \<lparr>spans = ss @ replicate n \<lparr>span_lo = 0, span_hi = 0\<rparr>, unwinder_id = i\<rparr>"
    and "length ss + n = HANDOFF_MAX_RANGES"
  shows "fst (next_unwinder env t pc d k) =
    (if (\<exists>s \<in> set ss. span_lo s \<le> pc \<and> pc < span_hi s) \<and> \<not> bit d (unat (i AND 31)) then i
     else UNWINDER_NATIVE)"
proof -
  have pad: "\<not> list_ex (in_span pc) (replicate n \<lparr>span_lo = 0, span_hi = 0\<rparr>)"
    by (auto simp: list_ex_iff in_span_def)
  have "d AND push_bit j 1 \<noteq> 0 \<longleftrightarrow> bit d j" for j
    by (simp add: bit_iff_and_push_bit_not_eq_0)
  then show ?thesis
    using assms pad by (auto simp: next_unwinder_def Let_def list_ex_iff in_span_def)
qed

definition claim_env :: walk_env where
  "claim_env = demo_env\<lparr>e_handoff_ranges := [3 \<mapsto> \<lparr>spans = [\<lparr>span_lo = 16, span_hi = 32\<rparr>] @
     replicate 2 \<lparr>span_lo = 0, span_hi = 0\<rparr>, unwinder_id = 1\<rparr>]\<rparr>"

end
