(* ===== verification/Python_Walk.thy ===== *)
theory Python_Walk
  imports Unwind_Record
begin

text \<open>
  The CPython module of \<open>src/bpf/interp/python/python_walk.h\<close>: reaching the thread state
  through glibc's thread-specific data, one step along the \<open>_PyInterpreterFrame\<close> chain, one
  segment of that chain per dispatch, and the counters. The memory of the process, its
  validated layout and the thread pointer are the record \<open>py_env\<close>; the counters and the frame
  window are \<open>py_mod\<close>.

  The lemmas show that a segment appends exactly the Python frames up to the interpreter's C
  boundary, that the chain is resumed and never restarted, that the segment loop always stops
  for a reason before its bound, and the unit rule of the counters: every slot but the frame
  count moves at most once per sample.
\<close>

section \<open>Constants and data\<close>

abbreviation INTERP_ID_PYTHON :: u8 where "INTERP_ID_PYTHON \<equiv> 1"
abbreviation PY_DONE_BIT :: u32 where "PY_DONE_BIT \<equiv> 2"

abbreviation PY_TSS_KEYS_PER_BLOCK :: u32 where "PY_TSS_KEYS_PER_BLOCK \<equiv> 32"
abbreviation PY_FRAME_WINDOW :: nat where "PY_FRAME_WINDOW \<equiv> 96"

abbreviation PY_CNT_FRAMES_PUSHED :: u32 where "PY_CNT_FRAMES_PUSHED \<equiv> 0"
abbreviation PY_CNT_TSS_MISS :: u32 where "PY_CNT_TSS_MISS \<equiv> 1"
abbreviation PY_CNT_NO_PROC_INFO :: u32 where "PY_CNT_NO_PROC_INFO \<equiv> 2"
abbreviation PY_CNT_TSTATE_READ_FAIL :: u32 where "PY_CNT_TSTATE_READ_FAIL \<equiv> 3"
abbreviation PY_CNT_FRAME_READ_FAIL :: u32 where "PY_CNT_FRAME_READ_FAIL \<equiv> 4"
abbreviation PY_CNT_OWNER_IMPLAUSIBLE :: u32 where "PY_CNT_OWNER_IMPLAUSIBLE \<equiv> 5"
abbreviation PY_CNT_CHAIN_TRUNCATED :: u32 where "PY_CNT_CHAIN_TRUNCATED \<equiv> 6"
abbreviation PY_CNT_PUSH_REFUSED :: u32 where "PY_CNT_PUSH_REFUSED \<equiv> 7"
abbreviation PY_CNT_NONE_EXECUTABLE :: u32 where "PY_CNT_NONE_EXECUTABLE \<equiv> 8"
abbreviation PY_CNT_CHAIN_ABANDONED :: u32 where "PY_CNT_CHAIN_ABANDONED \<equiv> 9"
abbreviation PY_CNT_MAX :: u32 where "PY_CNT_MAX \<equiv> 10"

abbreviation PY_SCRATCH_FRAME :: nat where "PY_SCRATCH_FRAME \<equiv> 0"
abbreviation PY_SCRATCH_STATE :: nat where "PY_SCRATCH_STATE \<equiv> Suc 0"

abbreviation PY_CHAIN_UNSTARTED :: u8 where "PY_CHAIN_UNSTARTED \<equiv> 0"
abbreviation PY_CHAIN_ACTIVE :: u8 where "PY_CHAIN_ACTIVE \<equiv> 1"
abbreviation PY_CHAIN_DONE :: u8 where "PY_CHAIN_DONE \<equiv> 2"

abbreviation PY_STACKREF_TAG_BITS :: u64 where "PY_STACKREF_TAG_BITS \<equiv> 3"

record py_proc_info =
  none_addr :: u64
  tss_key :: u32
  pthread_specific1stblock :: u32
  pthread_key_data_size :: u32
  pthread_key_data_off :: u32
  pthread_size :: u32
  frame_previous :: u16
  frame_executable :: u16
  frame_instr_ptr :: u16
  frame_owner :: u16
  threadstate_frame :: u16
  code_argcount :: u16
  code_kwonlyargcount :: u16
  code_flags :: u16
  code_firstlineno :: u16
  frame_owner_max :: u8
  frame_owner_cstack :: u8
  frame_owner_boundary :: u8
  frame_executable_tagged :: u8
  threadstate_frame_indirect :: u8
  py_enabled :: u8

datatype target_arch = X86 | Arm64 | OtherArch

text \<open>
  \<open>y_task\<close> is the current task: \<open>None\<close> for a null task, otherwise the outcome of the kernel
  read of its thread pointer field (\<open>fsbase\<close> or \<open>tp_value\<close>).
\<close>

record py_env =
  y_umem :: umem
  y_procs :: "u32 \<Rightarrow> py_proc_info option"
  y_arch :: target_arch
  y_task :: "u64 option option"

record py_mod =
  py_walk_counters :: "u64 list"
  py_frame_scratch :: "u8 list list"

record py_seg =
  s_rec :: sample_record
  s_pi :: "py_proc_info option"
  s_frame :: u64
  s_n_pcs :: u32
  s_state :: u8
  s_stopped :: u8

section \<open>Operations\<close>

definition py_tss_get :: "py_env \<Rightarrow> u32 \<Rightarrow> py_proc_info \<Rightarrow> u64" where
  "py_tss_get env key pi =
     (if key \<ge> PY_TSS_KEYS_PER_BLOCK then 0
      else case y_task env of None \<Rightarrow> 0
      | Some tp \<Rightarrow>
         (case (case y_arch env of
                  X86 \<Rightarrow> tp
                | Arm64 \<Rightarrow> map_option (\<lambda>b. b - ucast (pthread_size pi)) tp
                | OtherArch \<Rightarrow> None) of
            None \<Rightarrow> 0
          | Some tls_base \<Rightarrow>
              (case read_u64 (y_umem env)
                 (tls_base + ucast (pthread_specific1stblock pi) +
                  ucast key * ucast (pthread_key_data_size pi) + ucast (pthread_key_data_off pi)) of
                 None \<Rightarrow> 0 | Some val \<Rightarrow> val)))"

definition py_count :: "u32 \<Rightarrow> py_mod \<Rightarrow> py_mod" where
  "py_count slot m =
     (if slot \<ge> PY_CNT_MAX then m
      else m\<lparr>py_walk_counters := array_add (py_walk_counters m) slot 1\<rparr>)"

definition py_count_undo :: "u32 \<Rightarrow> py_mod \<Rightarrow> py_mod" where
  "py_count_undo slot m =
     (if slot \<ge> PY_CNT_MAX then m
      else case array_lookup (py_walk_counters m) slot of
        None \<Rightarrow> m
      | Some d \<Rightarrow> if d > 0 then m\<lparr>py_walk_counters := array_store (py_walk_counters m) slot (d - 1)\<rparr> else m)"

definition window_u64 :: "u8 list \<Rightarrow> u16 \<Rightarrow> u64" where
  "window_u64 b off = le_word (take 8 (drop (unat off) b))"

definition seg_end :: "u8 \<Rightarrow> py_seg \<Rightarrow> py_seg" where
  "seg_end state s = s\<lparr>s_state := state, s_stopped := 1\<rparr>"

definition py_seg_step :: "py_env \<Rightarrow> u32 \<Rightarrow> py_seg \<times> py_mod \<Rightarrow> bool \<times> py_seg \<times> py_mod" where
  "py_seg_step env idx = (\<lambda>(s, m).
     case s_pi s of
       None \<Rightarrow> (True, seg_end PY_CHAIN_DONE s, m)
     | Some pi \<Rightarrow>
       let frame = s_frame s;
           off_owner = frame_owner pi; off_prev = frame_previous pi;
           off_exec = frame_executable pi; off_instr = frame_instr_ptr pi
       in if frame = 0 then (True, seg_end PY_CHAIN_DONE s, m)
          else if off_owner > 95 \<or> off_prev > 88 \<or> off_exec > 88 \<or> off_instr > 88
          then (True, seg_end PY_CHAIN_DONE s, py_count PY_CNT_FRAME_READ_FAIL m)
          else case array_lookup (py_frame_scratch m) 0 of
            None \<Rightarrow> (True, seg_end PY_CHAIN_DONE s, py_count PY_CNT_FRAME_READ_FAIL m)
          | Some _ \<Rightarrow>
            (case probe_read_user (y_umem env) frame PY_FRAME_WINDOW of
              None \<Rightarrow> (True, seg_end PY_CHAIN_DONE s, py_count PY_CNT_FRAME_READ_FAIL m)
            | Some b \<Rightarrow>
              let m = m\<lparr>py_frame_scratch := array_store (py_frame_scratch m) 0 b\<rparr>;
                  owner = b ! unat off_owner;
                  prev = window_u64 b off_prev
              in if owner > frame_owner_max pi
                 then (True, seg_end PY_CHAIN_DONE s, py_count PY_CNT_OWNER_IMPLAUSIBLE m)
                 else if owner \<ge> frame_owner_boundary pi then
                   (if prev \<noteq> 0 then (True, seg_end PY_CHAIN_ACTIVE (s\<lparr>s_frame := prev\<rparr>), m)
                    else (True, seg_end PY_CHAIN_DONE s, m))
                 else
                   let exec = (if frame_executable_tagged pi \<noteq> 0
                               then window_u64 b off_exec AND NOT PY_STACKREF_TAG_BITS
                               else window_u64 b off_exec);
                       instr = window_u64 b off_instr
                   in if exec = 0 \<or> (none_addr pi \<noteq> 0 \<and> exec = none_addr pi)
                      then (True, seg_end PY_CHAIN_DONE s, py_count PY_CNT_NONE_EXECUTABLE m)
                      else
                        let (refused, r, n) = record_push_interp (s_rec s) (s_n_pcs s) INTERP_ID_PYTHON exec instr;
                            s = s\<lparr>s_rec := r, s_n_pcs := n\<rparr>
                        in if refused
                           then (True, seg_end PY_CHAIN_DONE s,
                                 py_count PY_CNT_CHAIN_TRUNCATED (py_count PY_CNT_PUSH_REFUSED m))
                           else (False, s\<lparr>s_frame := prev\<rparr>, py_count PY_CNT_FRAMES_PUSHED m)))"

definition scratch_state :: "walk_persist \<Rightarrow> u8" where
  "scratch_state st = ucast (p_interp_scratch st ! PY_SCRATCH_STATE)"

definition set_scratch :: "nat \<Rightarrow> u64 \<Rightarrow> walk_persist \<Rightarrow> walk_persist" where
  "set_scratch i v st = st\<lparr>p_interp_scratch := (p_interp_scratch st)[i := v]\<rparr>"

definition set_done :: "walk_persist \<Rightarrow> walk_persist" where
  "set_done st = st\<lparr>p_interp_done := p_interp_done st OR PY_DONE_BIT\<rparr>"

definition clear_done :: "walk_persist \<Rightarrow> walk_persist" where
  "clear_done st = st\<lparr>p_interp_done := p_interp_done st AND NOT PY_DONE_BIT\<rparr>"

text \<open>The first dispatch of a sample: from the thread-specific data to the current frame.\<close>

definition py_first_frame :: "py_env \<Rightarrow> py_proc_info \<Rightarrow> py_mod \<Rightarrow> u64 option \<times> py_mod" where
  "py_first_frame env pi m =
     (let tstate = py_tss_get env (tss_key pi) pi
      in if tstate = 0 then (None, py_count PY_CNT_TSS_MISS m)
         else case read_u64 (y_umem env) (tstate + ucast (threadstate_frame pi)) of
           None \<Rightarrow> (None, py_count PY_CNT_TSTATE_READ_FAIL m)
         | Some p \<Rightarrow>
             if threadstate_frame_indirect pi \<noteq> 0 then
               (if p = 0 then (None, py_count PY_CNT_TSTATE_READ_FAIL m)
                else case read_u64 (y_umem env) p of
                  None \<Rightarrow> (None, py_count PY_CNT_TSTATE_READ_FAIL m)
                | Some q \<Rightarrow> (Some q, m))
             else (Some p, m))"

text \<open>The walk of one segment and what it leaves for the next dispatch.\<close>

definition py_run_segment ::
  "py_env \<Rightarrow> py_proc_info \<Rightarrow> u64 \<Rightarrow> walk_persist \<Rightarrow> sample_record \<Rightarrow> py_mod
    \<Rightarrow> walk_persist \<times> sample_record \<times> py_mod" where
  "py_run_segment env pi frame st r m =
     (let (seg, m) = bpf_loop MAX_FRAMES (py_seg_step env)
            (\<lparr>s_rec = r, s_pi = Some pi, s_frame = frame, s_n_pcs = p_n_pcs st, s_state = PY_CHAIN_DONE,
              s_stopped = 0\<rparr>, m);
          st = st\<lparr>p_n_pcs := s_n_pcs seg\<rparr>;
          (state, m) = (if s_stopped seg = 0 then (PY_CHAIN_DONE, py_count PY_CNT_CHAIN_TRUNCATED m)
                        else (s_state seg, m));
          st = set_scratch PY_SCRATCH_STATE (ucast state) st
      in if state = PY_CHAIN_ACTIVE
         then (set_scratch PY_SCRATCH_FRAME (s_frame seg) st, s_rec seg, py_count PY_CNT_CHAIN_ABANDONED m)
         else (set_done (set_scratch PY_SCRATCH_FRAME 0 st), s_rec seg, m))"

definition py_walk_segment ::
  "py_env \<Rightarrow> walk_persist \<Rightarrow> sample_record \<Rightarrow> py_mod \<Rightarrow> walk_persist \<times> sample_record \<times> py_mod" where
  "py_walk_segment env st r m =
     (let state = scratch_state st
      in if state = PY_CHAIN_DONE then (set_done st, r, m)
         else case y_procs env (p_pid st) of
           None \<Rightarrow> (set_done (set_scratch PY_SCRATCH_STATE (ucast PY_CHAIN_DONE) st), r,
                    if state = PY_CHAIN_UNSTARTED then py_count PY_CNT_NO_PROC_INFO m else m)
         | Some pi \<Rightarrow>
             if py_enabled pi = 0
             then (set_done (set_scratch PY_SCRATCH_STATE (ucast PY_CHAIN_DONE) st), r,
                   if state = PY_CHAIN_UNSTARTED then py_count PY_CNT_NO_PROC_INFO m else m)
             else if state = PY_CHAIN_UNSTARTED then
               let st = set_done (set_scratch PY_SCRATCH_STATE (ucast PY_CHAIN_DONE) st);
                   (fr, m) = py_first_frame env pi m
               in (case fr of None \<Rightarrow> (st, r, m)
                   | Some frame \<Rightarrow> py_run_segment env pi frame (clear_done st) r m)
             else py_run_segment env pi (p_interp_scratch st ! PY_SCRATCH_FRAME) st r
                    (py_count_undo PY_CNT_CHAIN_ABANDONED m))"

section \<open>Counters\<close>

definition py_mod_wf :: "py_mod \<Rightarrow> bool" where
  "py_mod_wf m \<longleftrightarrow> length (py_walk_counters m) = unat PY_CNT_MAX \<and> length (py_frame_scratch m) = 1"

definition cnt :: "py_mod \<Rightarrow> nat \<Rightarrow> u64" where
  "cnt m j = py_walk_counters m ! j"

lemma py_mod_wf_simps [simp]:
  "py_mod_wf (py_count slot m) = py_mod_wf m" "py_mod_wf (py_count_undo slot m) = py_mod_wf m"
  "py_mod_wf (m\<lparr>py_frame_scratch := array_store (py_frame_scratch m) 0 b\<rparr>) = py_mod_wf m"
  by (simp_all add: py_mod_wf_def py_count_def py_count_undo_def split: option.split)

lemma cnt_py_count:
  "py_mod_wf m \<Longrightarrow> slot < PY_CNT_MAX \<Longrightarrow> j < 10 \<Longrightarrow>
     cnt (py_count slot m) j = cnt m j + (if j = unat slot then 1 else 0)"
  by (simp add: py_mod_wf_def cnt_def py_count_def nth_array_add not_less [symmetric])

lemma cnt_py_count_undo:
  "py_mod_wf m \<Longrightarrow> slot < PY_CNT_MAX \<Longrightarrow> j < 10 \<Longrightarrow>
     cnt (py_count_undo slot m) j = cnt m j - (if j = unat slot \<and> cnt m j > 0 then 1 else 0)"
  by (auto simp: py_mod_wf_def cnt_def py_count_undo_def array_lookup_def array_store_def
      word_less_nat_alt not_less [symmetric])

lemma cnt_window [simp]: "cnt (m\<lparr>py_frame_scratch := x\<rparr>) j = cnt m j"
  by (simp add: cnt_def)

section \<open>One step and one segment\<close>

definition py_frames :: "(u64 \<times> u64) list \<Rightarrow> slot list" where
  "py_frames fs = map (\<lambda>(exec, instr). Interp INTERP_ID_PYTHON exec instr) fs"

lemma py_frames_simps [simp]:
  "py_frames [] = []" "py_frames (x # xs) = Interp INTERP_ID_PYTHON (fst x) (snd x) # py_frames xs"
  "py_frames (xs @ ys) = py_frames xs @ py_frames ys"
  by (simp_all add: py_frames_def case_prod_beta)

definition s_frames :: "py_seg \<Rightarrow> slot list" where
  "s_frames s = rec_frames (s_rec s) (s_n_pcs s)"

definition s_wf :: "py_seg \<Rightarrow> bool" where
  "s_wf s \<longleftrightarrow> rec_wf (s_rec s) (s_n_pcs s)"

lemma seg_end_simps [simp]:
  "s_rec (seg_end x s) = s_rec s" "s_n_pcs (seg_end x s) = s_n_pcs s" "s_state (seg_end x s) = x"
  "s_stopped (seg_end x s) = 1" "s_frame (seg_end x s) = s_frame s" "s_pi (seg_end x s) = s_pi s"
  "s_frames (seg_end x s) = s_frames s" "s_wf (seg_end x s) = s_wf s"
  by (simp_all add: seg_end_def s_frames_def s_wf_def)

lemma s_frame_update [simp]:
  "s_frames (s\<lparr>s_frame := a\<rparr>) = s_frames s" "s_wf (s\<lparr>s_frame := a\<rparr>) = s_wf s"
  by (simp_all add: s_frames_def s_wf_def)

text \<open>
  How one step leaves the segment: it continues with one more frame in the record and one
  more in the frame count, or it stops with the record as it was, except possibly the
  refusal flag, and with at most one unit on each of the slots 1 to 8, none unless the chain
  is done.
\<close>

definition step_cont :: "py_seg \<Rightarrow> py_mod \<Rightarrow> py_seg \<Rightarrow> py_mod \<Rightarrow> bool" where
  "step_cont s m s' m' \<longleftrightarrow>
     (\<exists>f. s_wf s' \<and> s_frames s' = s_frames s @ py_frames [f]) \<and> unat (s_n_pcs s') = unat (s_n_pcs s) + 2 \<and>
     hdr (s_rec s') = hdr (s_rec s) \<and> s_stopped s' = s_stopped s \<and> py_mod_wf m' \<and>
     (\<forall>j < 10. cnt m' j = cnt m j + (if j = 0 then 1 else 0))"

definition step_stop :: "py_seg \<Rightarrow> py_mod \<Rightarrow> py_seg \<Rightarrow> py_mod \<Rightarrow> bool" where
  "step_stop s m s' m' \<longleftrightarrow>
     s_wf s' \<and> s_frames s' = s_frames s \<and> s_n_pcs s' = s_n_pcs s \<and> hdr_ok (s_rec s) (s_rec s') \<and> s_stopped s' = 1 \<and>
     (s_state s' = PY_CHAIN_ACTIVE \<or> s_state s' = PY_CHAIN_DONE) \<and> py_mod_wf m' \<and>
     (\<forall>j < 10. cnt m' j = cnt m j \<or>
        (cnt m' j = cnt m j + 1 \<and> j \<noteq> 0 \<and> j \<noteq> 9 \<and> s_state s' = PY_CHAIN_DONE))"

lemma step_stop_done:
  assumes "s_wf s" and "py_mod_wf m"
  shows "step_stop s m (seg_end PY_CHAIN_DONE s) m"
    and "slot < 9 \<Longrightarrow> slot \<noteq> 0 \<Longrightarrow> step_stop s m (seg_end PY_CHAIN_DONE s) (py_count slot m)"
  using assms by (auto simp: step_stop_def hdr_ok_def cnt_py_count word_less_nat_alt unat_gt_0)

lemma step_stop_window:
  "step_stop s (m\<lparr>py_frame_scratch := x\<rparr>) s' m' \<Longrightarrow> step_stop s m s' m'"
  by (simp add: step_stop_def)

lemma py_push_cont:
  assumes "s_wf s" and "py_mod_wf m" and "record_push_interp (s_rec s) (s_n_pcs s) INTERP_ID_PYTHON e i = (False, r, n)"
  shows "step_cont s m (s\<lparr>s_rec := r, s_n_pcs := n, s_frame := p\<rparr>) (py_count PY_CNT_FRAMES_PUSHED m)"
  using assms push_interp_ok [of "s_rec s" "s_n_pcs s" INTERP_ID_PYTHON e i r n]
  by (auto simp: step_cont_def s_wf_def s_frames_def cnt_py_count intro: exI [of _ "(e, i)"])

lemma py_push_stop:
  assumes "s_wf s" and "py_mod_wf m" and "record_push_interp (s_rec s) (s_n_pcs s) INTERP_ID_PYTHON e i = (True, r, n)"
  shows "step_stop s m (seg_end PY_CHAIN_DONE (s\<lparr>s_rec := r, s_n_pcs := n\<rparr>))
    (py_count PY_CNT_CHAIN_TRUNCATED (py_count PY_CNT_PUSH_REFUSED m))"
proof -
  note ref = push_interp_refused [OF assms(3)]
  have c: "cnt (py_count PY_CNT_CHAIN_TRUNCATED (py_count PY_CNT_PUSH_REFUSED m)) j =
      cnt m j + (if j = 7 then 1 else 0) + (if j = 6 then 1 else 0)" if "j < 10" for j
    using assms(2) that by (simp add: cnt_py_count)
  show ?thesis
    using assms(1,2) ref c by (auto simp: step_stop_def hdr_ok_def s_wf_def s_frames_def)
qed

lemma py_seg_step_effect:
  assumes wf: "s_wf s" "py_mod_wf m" and st: "py_seg_step env idx (s, m) = (stop, s', m')"
  shows "if stop then step_stop s m s' m' else step_cont s m s' m'"
proof (cases "s_pi s")
  case None
  with st step_stop_done(1) [OF wf] show ?thesis by (auto simp: py_seg_step_def)
next
  case (Some pi)
  let ?bad = "frame_owner pi > 95 \<or> frame_previous pi > 88 \<or> frame_executable pi > 88 \<or> frame_instr_ptr pi > 88"
  obtain x where wnd: "array_lookup (py_frame_scratch m) 0 = Some x"
    using wf(2) by (cases "py_frame_scratch m") (auto simp: py_mod_wf_def array_lookup_def)
  consider (null) "s_frame s = 0" | (bad) "s_frame s \<noteq> 0" "?bad"
    | (fault) "s_frame s \<noteq> 0" "\<not> ?bad" "probe_read_user (y_umem env) (s_frame s) PY_FRAME_WINDOW = None"
    | (read) b where "s_frame s \<noteq> 0" "\<not> ?bad" "probe_read_user (y_umem env) (s_frame s) PY_FRAME_WINDOW = Some b"
    by blast
  then show ?thesis
  proof cases
    case null
    with st Some step_stop_done(1) [OF wf] show ?thesis by (auto simp: py_seg_step_def Let_def)
  next
    case bad
    with st Some step_stop_done(2) [OF wf] show ?thesis
      by (auto simp: py_seg_step_def Let_def simp del: probe_read_user_numeral split: if_splits)
  next
    case fault
    with st Some wnd step_stop_done(2) [OF wf] show ?thesis
      by (auto simp: py_seg_step_def Let_def simp del: probe_read_user_numeral split: if_splits)
  next
    case read
    define m1 where "m1 = m\<lparr>py_frame_scratch := array_store (py_frame_scratch m) 0 b\<rparr>"
    have wf1: "py_mod_wf m1" using wf(2) by (simp add: m1_def)
    have up: "step_stop s m1 t n \<Longrightarrow> step_stop s m t n" "step_cont s m1 t n \<Longrightarrow> step_cont s m t n" for t n
      by (simp_all add: m1_def step_stop_def step_cont_def)
    note rules = up(1) [OF step_stop_done(1) [OF wf(1) wf1]] up(1) [OF step_stop_done(2) [OF wf(1) wf1]]
      up(1) [OF py_push_stop [OF wf(1) wf1]] up(2) [OF py_push_cont [OF wf(1) wf1]]
    have act: "m1 = n \<Longrightarrow> step_stop s m (seg_end PY_CHAIN_ACTIVE (s\<lparr>s_frame := p\<rparr>)) n"
      "m1 = n \<Longrightarrow> step_stop s m (seg_end PY_CHAIN_DONE s) n" for p n
      using wf wf1 by (auto simp: step_stop_def hdr_ok_def m1_def)
    from st Some read wnd show ?thesis
      by (auto simp: py_seg_step_def Let_def m1_def [symmetric] simp del: probe_read_user_numeral
          split: if_splits prod.splits intro: rules act)
  qed
qed

text \<open>A whole segment, from any well-formed state.\<close>

definition seg_run :: "py_seg \<Rightarrow> py_mod \<Rightarrow> nat \<Rightarrow> py_seg \<times> py_mod \<Rightarrow> bool" where
  "seg_run s m k t \<longleftrightarrow> (\<exists>fs. length fs = k \<and> s_wf (fst t) \<and> s_frames (fst t) = s_frames s @ py_frames fs \<and>
     unat (s_n_pcs (fst t)) = unat (s_n_pcs s) + 2 * k \<and> hdr (s_rec (fst t)) = hdr (s_rec s) \<and> py_mod_wf (snd t) \<and>
     (\<forall>j < 10. cnt (snd t) j = cnt m j + (if j = 0 then of_nat k else 0)))"

definition seg_over :: "py_seg \<Rightarrow> py_mod \<Rightarrow> py_seg \<times> py_mod \<Rightarrow> bool" where
  "seg_over s m t \<longleftrightarrow> (\<exists>fs. s_wf (fst t) \<and> s_frames (fst t) = s_frames s @ py_frames fs \<and>
     unat (s_n_pcs (fst t)) = unat (s_n_pcs s) + 2 * length fs \<and>
     hdr_ok (s_rec s) (s_rec (fst t)) \<and> s_stopped (fst t) = 1 \<and>
     (s_state (fst t) = PY_CHAIN_ACTIVE \<or> s_state (fst t) = PY_CHAIN_DONE) \<and> py_mod_wf (snd t) \<and>
     cnt (snd t) 0 = cnt m 0 + of_nat (length fs) \<and>
     (\<forall>j < 10. j \<noteq> 0 \<longrightarrow> cnt (snd t) j = cnt m j \<or>
        (cnt (snd t) j = cnt m j + 1 \<and> j \<noteq> 9 \<and> s_state (fst t) = PY_CHAIN_DONE)))"

lemma seg_run_cont:
  assumes "seg_run s m k t" and "py_seg_step env i t = (False, t')"
  shows "seg_run s m (Suc k) t'"
proof -
  obtain s1 m1 where t: "t = (s1, m1)" by (cases t)
  obtain s2 m2 where t': "t' = (s2, m2)" by (cases t')
  from assms(1) obtain fs where fs: "length fs = k" "s_frames s1 = s_frames s @ py_frames fs"
    "unat (s_n_pcs s1) = unat (s_n_pcs s) + 2 * k" "hdr (s_rec s1) = hdr (s_rec s)"
    and wf: "s_wf s1" "py_mod_wf m1"
    and c: "\<And>j. j < 10 \<Longrightarrow> cnt m1 j = cnt m j + (if j = 0 then of_nat k else 0)"
    by (auto simp: seg_run_def t)
  from py_seg_step_effect [OF wf assms(2) [unfolded t t']] have sc: "step_cont s1 m1 s2 m2" by simp
  then obtain f where f: "s_frames s2 = s_frames s1 @ py_frames [f]" by (auto simp: step_cont_def)
  have "cnt m2 j = cnt m j + (if j = 0 then of_nat (Suc k) else 0)" if "j < 10" for j
    using sc c [OF that] that by (simp add: step_cont_def)
  with sc fs f show ?thesis
    by (auto simp: seg_run_def t' step_cont_def intro!: exI [of _ "fs @ [f]"])
qed

lemma seg_run_stop:
  assumes "seg_run s m k t" and "py_seg_step env i t = (True, t')"
  shows "seg_over s m t'"
proof -
  obtain s1 m1 where t: "t = (s1, m1)" by (cases t)
  obtain s2 m2 where t': "t' = (s2, m2)" by (cases t')
  from assms(1) obtain fs where fs: "length fs = k" "s_frames s1 = s_frames s @ py_frames fs"
    "unat (s_n_pcs s1) = unat (s_n_pcs s) + 2 * k" "hdr (s_rec s1) = hdr (s_rec s)"
    and wf: "s_wf s1" "py_mod_wf m1"
    and c: "\<And>j. j < 10 \<Longrightarrow> cnt m1 j = cnt m j + (if j = 0 then of_nat k else 0)"
    by (auto simp: seg_run_def t)
  from py_seg_step_effect [OF wf assms(2) [unfolded t t']] have ss: "step_stop s1 m1 s2 m2" by simp
  then have h: "hdr_ok (s_rec s) (s_rec s2)" using hdr_ok_cong [OF fs(4) [symmetric]] by (simp add: step_stop_def)
  have "cnt m2 0 = cnt m1 0" using ss unfolding step_stop_def by (metis zero_less_numeral)
  then have z: "cnt m2 0 = cnt m 0 + of_nat k" using c [of 0] by simp
  have "cnt m2 j = cnt m j \<or> (cnt m2 j = cnt m j + 1 \<and> j \<noteq> 9 \<and> s_state s2 = PY_CHAIN_DONE)"
    if "j < 10" "j \<noteq> 0" for j
    using ss c [OF that(1)] that by (auto simp: step_stop_def)
  with ss fs h z show ?thesis
    by (auto simp: seg_over_def t' step_stop_def intro!: exI [of _ fs])
qed

text \<open>
  Every iteration that continues fills two slots of a record of \<open>MAX_FRAMES\<close>, so the loop
  always ends by a stopping iteration: the bound itself is never what ends a segment.
\<close>

lemma seg_loop_over:
  assumes "s_wf s" and "py_mod_wf m"
  shows "seg_over s m (bpf_loop MAX_FRAMES (py_seg_step env) (s, m))"
proof -
  let ?t = "bpf_loop MAX_FRAMES (py_seg_step env) (s, m)"
  have "seg_run s m 0 (s, m)" using assms by (simp add: seg_run_def)
  then have "seg_run s m MAX_FRAMES ?t \<or> seg_over s m ?t"
    by (intro bpf_loop_counted [where I = "seg_run s m" and Q = "seg_over s m"] seg_run_cont seg_run_stop)
  moreover have "\<not> seg_run s m MAX_FRAMES ?t"
    by (auto simp: seg_run_def s_wf_def rec_wf_def)
  ultimately show ?thesis by blast
qed

section \<open>One dispatch\<close>

text \<open>
  What the core relies on between dispatches: four scratch words, a chain state, the done bit
  exactly when the chain is done, and a live cursor only in a process with a validated layout.
\<close>

definition py_live :: "py_env \<Rightarrow> walk_persist \<Rightarrow> bool" where
  "py_live env st \<longleftrightarrow> (\<exists>pi. y_procs env (p_pid st) = Some pi \<and> py_enabled pi \<noteq> 0)"

definition py_st_ok :: "py_env \<Rightarrow> walk_persist \<Rightarrow> bool" where
  "py_st_ok env st \<longleftrightarrow> length (p_interp_scratch st) = 4 \<and>
     scratch_state st \<in> {PY_CHAIN_UNSTARTED, PY_CHAIN_ACTIVE, PY_CHAIN_DONE} \<and>
     (has_flag (p_interp_done st) PY_DONE_BIT \<longleftrightarrow> scratch_state st = PY_CHAIN_DONE) \<and>
     (scratch_state st = PY_CHAIN_ACTIVE \<longrightarrow> py_live env st)"

definition py_call ::
  "py_env \<Rightarrow> walk_persist \<Rightarrow> sample_record \<Rightarrow> py_mod \<Rightarrow> walk_persist \<times> sample_record \<times> py_mod \<Rightarrow> bool" where
  "py_call env st r m t \<longleftrightarrow> (case t of (st', r', m') \<Rightarrow>
     same_walk st st' \<and> hdr_ok r r' \<and> py_mod_wf m' \<and> py_st_ok env st' \<and>
     (\<exists>fs. rec_wf r' (p_n_pcs st') \<and> rec_frames r' (p_n_pcs st') = rec_frames r (p_n_pcs st) @ py_frames fs \<and>
        cnt m' 0 = cnt m 0 + of_nat (length fs)) \<and>
     (\<forall>j < 9. j \<noteq> 0 \<longrightarrow> cnt m' j = cnt m j \<or>
        (cnt m' j = cnt m j + 1 \<and> scratch_state st \<noteq> PY_CHAIN_DONE \<and> scratch_state st' = PY_CHAIN_DONE)) \<and>
     cnt m' 9 = cnt m 9 - (if scratch_state st = PY_CHAIN_ACTIVE \<and> cnt m 9 > 0 then 1 else 0)
       + (if scratch_state st' = PY_CHAIN_ACTIVE then 1 else 0))"

lemma same_walk_simps [simp]:
  "same_walk st st" "same_walk st (set_done t) = same_walk st t" "same_walk st (set_scratch i v t) = same_walk st t"
  "same_walk st (clear_done t) = same_walk st t" "same_walk st (t\<lparr>p_n_pcs := n\<rparr>) = same_walk st t"
  by (simp_all add: same_walk_def set_done_def clear_done_def set_scratch_def)

lemma same_walk_left [simp]:
  "same_walk (set_done t) st = same_walk t st" "same_walk (set_scratch i v t) st = same_walk t st"
  "same_walk (clear_done t) st = same_walk t st"
  by (simp_all add: same_walk_def set_done_def clear_done_def set_scratch_def)

lemma scratch_simps [simp]:
  "p_n_pcs (set_done t) = p_n_pcs t" "p_n_pcs (clear_done t) = p_n_pcs t" "p_n_pcs (set_scratch i v t) = p_n_pcs t"
  "p_pid (set_done t) = p_pid t" "p_pid (clear_done t) = p_pid t" "p_pid (set_scratch i v t) = p_pid t"
  "p_interp_scratch (set_done t) = p_interp_scratch t" "p_interp_scratch (clear_done t) = p_interp_scratch t"
  "p_interp_scratch (set_scratch i v t) = (p_interp_scratch t)[i := v]"
  "p_interp_done (set_scratch i v t) = p_interp_done t"
  by (simp_all add: set_done_def clear_done_def set_scratch_def)

lemma scratch_state_simps [simp]:
  "scratch_state (set_done t) = scratch_state t" "scratch_state (clear_done t) = scratch_state t"
  "scratch_state (t\<lparr>p_n_pcs := n\<rparr>) = scratch_state t"
  "scratch_state (set_scratch PY_SCRATCH_FRAME v t) = scratch_state t"
  "length (p_interp_scratch t) = 4 \<Longrightarrow> scratch_state (set_scratch PY_SCRATCH_STATE v t) = ucast v"
  by (simp_all add: scratch_state_def)

lemma done_simps [simp]:
  "has_flag (p_interp_done (set_done t)) PY_DONE_BIT" "\<not> has_flag (p_interp_done (clear_done t)) PY_DONE_BIT"
  by (simp_all add: set_done_def clear_done_def flag_simps) (simp add: has_flag_def and.assoc)

lemma py_live_cong [simp]:
  "py_live env (set_done t) = py_live env t" "py_live env (clear_done t) = py_live env t"
  "py_live env (set_scratch i v t) = py_live env t" "py_live env (t\<lparr>p_n_pcs := n\<rparr>) = py_live env t"
  by (simp_all add: py_live_def)

lemma py_run_segment_call:
  assumes wf: "rec_wf r (p_n_pcs st)" "py_mod_wf m" and len: "length (p_interp_scratch st) = 4"
    and nd: "\<not> has_flag (p_interp_done st) PY_DONE_BIT" and live: "py_live env st"
    and run: "py_run_segment env pi frame st r m = (st', r', m')"
  shows "same_walk st st' \<and> hdr_ok r r' \<and> py_mod_wf m' \<and> py_st_ok env st' \<and>
    (\<exists>fs. rec_wf r' (p_n_pcs st') \<and> rec_frames r' (p_n_pcs st') = rec_frames r (p_n_pcs st) @ py_frames fs \<and>
       cnt m' 0 = cnt m 0 + of_nat (length fs)) \<and>
    (\<forall>j < 9. j \<noteq> 0 \<longrightarrow> cnt m' j = cnt m j \<or> (cnt m' j = cnt m j + 1 \<and> scratch_state st' = PY_CHAIN_DONE)) \<and>
    cnt m' 9 = cnt m 9 + (if scratch_state st' = PY_CHAIN_ACTIVE then 1 else 0)"
proof -
  let ?s = "\<lparr>s_rec = r, s_pi = Some pi, s_frame = frame, s_n_pcs = p_n_pcs st, s_state = PY_CHAIN_DONE,
      s_stopped = 0\<rparr>"
  obtain seg m1 where lp: "bpf_loop MAX_FRAMES (py_seg_step env) (?s, m) = (seg, m1)"
    by (cases "bpf_loop MAX_FRAMES (py_seg_step env) (?s, m)")
  have "seg_over ?s m (seg, m1)" using seg_loop_over [of ?s m env] wf lp by (simp add: s_wf_def)
  then obtain fs where sg: "s_wf seg" "s_frames seg = rec_frames r (p_n_pcs st) @ py_frames fs"
    "hdr_ok r (s_rec seg)" "s_stopped seg = 1" "s_state seg = PY_CHAIN_ACTIVE \<or> s_state seg = PY_CHAIN_DONE"
    "py_mod_wf m1" "cnt m1 0 = cnt m 0 + of_nat (length fs)"
    and c: "\<And>j. j < 10 \<Longrightarrow> j \<noteq> 0 \<Longrightarrow> cnt m1 j = cnt m j \<or>
      (cnt m1 j = cnt m j + 1 \<and> j \<noteq> 9 \<and> s_state seg = PY_CHAIN_DONE)"
    by (auto simp: seg_over_def s_frames_def)
  have c9: "cnt m1 9 = cnt m 9" using c [of 9] by simp
  show ?thesis
  proof (cases "s_state seg = PY_CHAIN_ACTIVE")
    case True
    have "cnt m' j = cnt m1 j + (if j = 9 then 1 else 0)" if "j < 10" for j
      using run lp sg(4,6) True that by (auto simp: py_run_segment_def Let_def cnt_py_count)
    moreover from run lp sg(4) True have "st' = set_scratch PY_SCRATCH_FRAME (s_frame seg)
        (set_scratch PY_SCRATCH_STATE 1 (st\<lparr>p_n_pcs := s_n_pcs seg\<rparr>))" "r' = s_rec seg" "py_mod_wf m' = py_mod_wf m1"
      by (auto simp: py_run_segment_def Let_def)
    moreover have "cnt m1 j = cnt m j" if "j < 10" "j \<noteq> 0" for j using c [OF that] True by auto
    ultimately show ?thesis
      using sg c9 len nd live True by (auto simp: py_st_ok_def s_wf_def s_frames_def)
  next
    case False
    with run lp sg(4,5) have e: "st' = set_done (set_scratch PY_SCRATCH_FRAME 0
        (set_scratch PY_SCRATCH_STATE 2 (st\<lparr>p_n_pcs := s_n_pcs seg\<rparr>)))" "r' = s_rec seg" "m' = m1"
      by (auto simp: py_run_segment_def Let_def)
    have "cnt m1 j = cnt m j \<or> cnt m1 j = cnt m j + 1" if "j < 9" "j \<noteq> 0" for j using c [of j] that by auto
    with e sg c9 len live False show ?thesis
      by (auto simp: py_st_ok_def s_wf_def s_frames_def)
  qed
qed

lemma py_first_frame_effect:
  assumes "py_first_frame env pi m = (fr, m')" and "py_mod_wf m"
  shows "py_mod_wf m'" and "fr \<noteq> None \<Longrightarrow> m' = m"
    and "j < 10 \<Longrightarrow> cnt m' j = cnt m j \<or> (cnt m' j = cnt m j + 1 \<and> j \<noteq> 0 \<and> j \<noteq> 9 \<and> fr = None)"
proof -
  have "(m' = m) \<or> (fr = None \<and> (m' = py_count PY_CNT_TSS_MISS m \<or> m' = py_count PY_CNT_TSTATE_READ_FAIL m))"
    and fr: "fr \<noteq> None \<Longrightarrow> m' = m"
    using assms(1) by (auto simp: py_first_frame_def Let_def split: if_splits option.splits)
  then show "py_mod_wf m'" and "j < 10 \<Longrightarrow> cnt m' j = cnt m j \<or> (cnt m' j = cnt m j + 1 \<and> j \<noteq> 0 \<and> j \<noteq> 9 \<and> fr = None)"
    using assms(2) by (auto simp: cnt_py_count split: if_splits)
  show "fr \<noteq> None \<Longrightarrow> m' = m" by (rule fr)
qed

lemma py_refuse_call:
  assumes "py_st_ok env st" and "rec_wf r (p_n_pcs st)" and "py_mod_wf m'" and "scratch_state st \<noteq> PY_CHAIN_DONE"
    and "\<And>j. j < 10 \<Longrightarrow> cnt m' j = cnt m j \<or> (cnt m' j = cnt m j + 1 \<and> j \<noteq> 0 \<and> j \<noteq> 9)"
    and "scratch_state st = PY_CHAIN_ACTIVE \<Longrightarrow> cnt m 9 = 0"
  shows "py_call env st r m (set_done (set_scratch PY_SCRATCH_STATE 2 st), r, m')"
proof -
  have "cnt m' 0 = cnt m 0" "cnt m' 9 = cnt m 9" using assms(5) [of 0] assms(5) [of 9] by auto
  moreover have "cnt m' j = cnt m j \<or> cnt m' j = cnt m j + 1" if "j < 9" for j using assms(5) [of j] that by auto
  ultimately show ?thesis
    using assms(1-4,6)
    by (auto simp: py_call_def hdr_ok_def py_st_ok_def intro!: exI [of _ "[]"])
qed

text \<open>The effect of a whole dispatch.\<close>

lemma py_start_call:
  assumes ok: "py_st_ok env st" and wf: "rec_wf r (p_n_pcs st)" "py_mod_wf m"
    and start: "scratch_state st = PY_CHAIN_UNSTARTED" "y_procs env (p_pid st) = Some pi" "py_enabled pi \<noteq> 0"
  shows "py_call env st r m (py_walk_segment env st r m)"
proof -
  obtain fr m1 where ff: "py_first_frame env pi m = (fr, m1)" by (cases "py_first_frame env pi m")
  note e = py_first_frame_effect [OF ff wf(2)]
  let ?st = "set_done (set_scratch PY_SCRATCH_STATE 2 st)"
  show ?thesis
  proof (cases fr)
    case None
    with start ff have "py_walk_segment env st r m = (?st, r, m1)" by (simp add: py_walk_segment_def Let_def)
    then show ?thesis using start ok wf e(1,3) by (auto intro!: py_refuse_call)
  next
    case (Some frame)
    obtain st' r' m' where run: "py_run_segment env pi frame (clear_done ?st) r m = (st', r', m')"
      by (cases "py_run_segment env pi frame (clear_done ?st) r m")
    have w: "py_walk_segment env st r m = (st', r', m')"
      using start ff Some e(2) run by (simp add: py_walk_segment_def Let_def)
    have "py_live env st" "length (p_interp_scratch st) = 4" using start ok by (auto simp: py_live_def py_st_ok_def)
    with py_run_segment_call [OF _ wf(2) _ _ _ run] wf(1) start(1) w show ?thesis by (auto simp: py_call_def)
  qed
qed

lemma py_resume_call:
  assumes ok: "py_st_ok env st" and wf: "rec_wf r (p_n_pcs st)" "py_mod_wf m"
    and resume: "scratch_state st = PY_CHAIN_ACTIVE" "y_procs env (p_pid st) = Some pi" "py_enabled pi \<noteq> 0"
  shows "py_call env st r m (py_walk_segment env st r m)"
proof -
  let ?m = "py_count_undo PY_CNT_CHAIN_ABANDONED m" and ?fr = "p_interp_scratch st ! PY_SCRATCH_FRAME"
  from ok have len: "length (p_interp_scratch st) = 4" and bit: "has_flag (p_interp_done st) PY_DONE_BIT \<longleftrightarrow> scratch_state st = PY_CHAIN_DONE"
    by (auto simp: py_st_ok_def)
  obtain st' r' m' where run: "py_run_segment env pi ?fr st r ?m = (st', r', m')"
    by (cases "py_run_segment env pi ?fr st r ?m")
  have w: "py_walk_segment env st r m = (st', r', m')"
    using resume run by (simp add: py_walk_segment_def Let_def)
  have u: "cnt ?m j = cnt m j - (if j = 9 \<and> cnt m j > 0 then 1 else 0)" if "j < 10" for j
    using cnt_py_count_undo [OF wf(2), of PY_CNT_CHAIN_ABANDONED j] that by simp
  have "py_live env st" using resume by (auto simp: py_live_def)
  with py_run_segment_call [OF wf(1) _ len _ _ run] wf(2) bit resume(1) u w show ?thesis by (auto simp: py_call_def)
qed

lemma py_walk_segment_call:
  assumes ok: "py_st_ok env st" and wf: "rec_wf r (p_n_pcs st)" "py_mod_wf m"
  shows "py_call env st r m (py_walk_segment env st r m)"
proof -
  from ok have st3: "scratch_state st \<in> {PY_CHAIN_UNSTARTED, PY_CHAIN_ACTIVE, PY_CHAIN_DONE}"
    and act: "scratch_state st = PY_CHAIN_ACTIVE \<longrightarrow> py_live env st" by (auto simp: py_st_ok_def)
  consider (over) "scratch_state st = PY_CHAIN_DONE"
    | (none) "scratch_state st = PY_CHAIN_UNSTARTED" "\<not> py_live env st"
    | (start) pi where "scratch_state st = PY_CHAIN_UNSTARTED" "y_procs env (p_pid st) = Some pi" "py_enabled pi \<noteq> 0"
    | (resume) pi where "scratch_state st = PY_CHAIN_ACTIVE" "y_procs env (p_pid st) = Some pi" "py_enabled pi \<noteq> 0"
    using st3 act by (auto simp: py_live_def)
  then show ?thesis
  proof cases
    case over
    with ok wf show ?thesis
      by (auto simp: py_walk_segment_def py_call_def hdr_ok_def py_st_ok_def intro!: exI [of _ "[]"])
  next
    case none
    then have "py_walk_segment env st r m = (set_done (set_scratch PY_SCRATCH_STATE 2 st), r, py_count PY_CNT_NO_PROC_INFO m)"
      by (auto simp: py_walk_segment_def py_live_def Let_def split: option.split)
    then show ?thesis using none ok wf by (auto intro!: py_refuse_call simp: cnt_py_count split: if_splits)
  next
    case start
    then show ?thesis by (rule py_start_call [OF ok wf])
  next
    case resume
    then show ?thesis by (rule py_resume_call [OF ok wf])
  qed
qed

section \<open>The chain a segment follows\<close>

text \<open>
  The reference: \<open>py_segment env pi frame fs rest\<close> says that from \<open>frame\<close> the chain has the
  Python frames \<open>fs\<close> (code object and instruction pointer) up to the interpreter's entry
  frame, and continues beyond it at \<open>rest\<close>, or ends there.
\<close>

definition py_owner :: "py_proc_info \<Rightarrow> u8 list \<Rightarrow> u8" where
  "py_owner pi b = b ! unat (frame_owner pi)"

definition py_code :: "py_proc_info \<Rightarrow> u8 list \<Rightarrow> u64" where
  "py_code pi b = (let e = window_u64 b (frame_executable pi)
     in if frame_executable_tagged pi \<noteq> 0 then e AND NOT PY_STACKREF_TAG_BITS else e)"

definition offsets_ok :: "py_proc_info \<Rightarrow> bool" where
  "offsets_ok pi \<longleftrightarrow> frame_owner pi \<le> 95 \<and> frame_previous pi \<le> 88 \<and> frame_executable pi \<le> 88 \<and> frame_instr_ptr pi \<le> 88"

inductive py_segment :: "py_env \<Rightarrow> py_proc_info \<Rightarrow> u64 \<Rightarrow> (u64 \<times> u64) list \<Rightarrow> u64 option \<Rightarrow> bool" for env pi where
  chain_end: "py_segment env pi 0 [] None"
| entry_frame: "frame \<noteq> 0 \<Longrightarrow> probe_read_user (y_umem env) frame PY_FRAME_WINDOW = Some b \<Longrightarrow>
    py_owner pi b \<le> frame_owner_max pi \<Longrightarrow> frame_owner_boundary pi \<le> py_owner pi b \<Longrightarrow>
    rest = (let prev = window_u64 b (frame_previous pi) in if prev = 0 then None else Some prev) \<Longrightarrow>
    py_segment env pi frame [] rest"
| python_frame: "frame \<noteq> 0 \<Longrightarrow> probe_read_user (y_umem env) frame PY_FRAME_WINDOW = Some b \<Longrightarrow>
    py_owner pi b \<le> frame_owner_max pi \<Longrightarrow> py_owner pi b < frame_owner_boundary pi \<Longrightarrow>
    py_code pi b \<noteq> 0 \<Longrightarrow> none_addr pi = 0 \<or> py_code pi b \<noteq> none_addr pi \<Longrightarrow>
    py_segment env pi (window_u64 b (frame_previous pi)) fs rest \<Longrightarrow>
    py_segment env pi frame ((py_code pi b, window_u64 b (frame_instr_ptr pi)) # fs) rest"

definition seg_follows :: "py_seg \<Rightarrow> (u64 \<times> u64) list \<Rightarrow> u64 option \<Rightarrow> py_seg \<Rightarrow> bool" where
  "seg_follows s fs rest s' \<longleftrightarrow> s_frames s' = s_frames s @ py_frames fs \<and> s_stopped s' = 1 \<and>
     (case rest of None \<Rightarrow> s_state s' = PY_CHAIN_DONE | Some p \<Rightarrow> s_state s' = PY_CHAIN_ACTIVE \<and> s_frame s' = p)"

lemma py_seg_step_frame:
  assumes "s_wf s" "py_mod_wf m" "s_pi s = Some pi" "offsets_ok pi" "s_frame s \<noteq> 0" "unat (s_n_pcs s) \<le> 125"
    and "probe_read_user (y_umem env) (s_frame s) PY_FRAME_WINDOW = Some b"
    and "py_owner pi b \<le> frame_owner_max pi" "py_owner pi b < frame_owner_boundary pi"
    and "py_code pi b \<noteq> 0" "none_addr pi = 0 \<or> py_code pi b \<noteq> none_addr pi"
  obtains s' m' where "py_seg_step env i (s, m) = (False, s', m')" "s_wf s'" "py_mod_wf m'" "s_pi s' = Some pi"
    "s_frame s' = window_u64 b (frame_previous pi)" "unat (s_n_pcs s') = unat (s_n_pcs s) + 2"
    "s_frames s' = s_frames s @ [Interp INTERP_ID_PYTHON (py_code pi b) (window_u64 b (frame_instr_ptr pi))]"
proof -
  let ?i = "window_u64 b (frame_instr_ptr pi)"
  obtain x where wnd: "array_lookup (py_frame_scratch m) 0 = Some x"
    using assms(2) by (cases "py_frame_scratch m") (auto simp: py_mod_wf_def array_lookup_def)
  obtain c r n where p: "record_push_interp (s_rec s) (s_n_pcs s) INTERP_ID_PYTHON (py_code pi b) ?i = (c, r, n)"
    by (cases "record_push_interp (s_rec s) (s_n_pcs s) INTERP_ID_PYTHON (py_code pi b) ?i")
  with assms(6) have c: "c = False" using push_interp_refused(3) by fastforce
  define m1 where "m1 = m\<lparr>py_frame_scratch := array_store (py_frame_scratch m) 0 b\<rparr>"
  let ?s = "s\<lparr>s_rec := r, s_n_pcs := n, s_frame := window_u64 b (frame_previous pi)\<rparr>"
  have "py_seg_step env i (s, m) = (False, ?s, py_count PY_CNT_FRAMES_PUSHED m1)"
    using assms wnd p c
    by (auto simp: py_seg_step_def Let_def offsets_ok_def py_owner_def py_code_def m1_def not_less not_le
        simp del: probe_read_user_numeral)
  moreover have "py_mod_wf m1" using assms(2) by (simp add: m1_def)
  moreover note push_interp_ok [of "s_rec s" "s_n_pcs s" INTERP_ID_PYTHON "py_code pi b" ?i r n]
  ultimately show thesis
    using assms(1,3) p c by (intro that [of ?s "py_count PY_CNT_FRAMES_PUSHED m1"]) (auto simp: s_wf_def s_frames_def)
qed

lemma seg_loop_follows:
  assumes "py_segment env pi frame fs rest" and off: "offsets_ok pi"
  shows "\<lbrakk>s_wf s; py_mod_wf m; s_pi s = Some pi; s_frame s = frame; unat (s_n_pcs s) + 2 * length fs \<le> MAX_FRAMES;
      length fs < k\<rbrakk> \<Longrightarrow> seg_follows s fs rest (fst (bpf_loop_from i k (py_seg_step env) (s, m)))"
  using assms(1)
proof (induction arbitrary: s m i k)
  case chain_end
  then obtain k' where "k = Suc k'" by (cases k) auto
  with chain_end show ?case by (simp add: py_seg_step_def Let_def seg_follows_def)
next
  case (entry_frame frame b rest)
  then obtain k' where k: "k = Suc k'" by (cases k) auto
  obtain x where wnd: "array_lookup (py_frame_scratch m) 0 = Some x"
    using entry_frame.prems(2) by (cases "py_frame_scratch m") (auto simp: py_mod_wf_def array_lookup_def)
  show ?case
    using entry_frame off k wnd
    by (auto simp: py_seg_step_def Let_def seg_follows_def offsets_ok_def py_owner_def not_less not_le
        simp del: probe_read_user_numeral)
next
  case (python_frame frame b fs rest)
  then obtain k' where k: "k = Suc k'" by (cases k) auto
  obtain s' m' where st: "py_seg_step env i (s, m) = (False, s', m')" and s': "s_wf s'" "py_mod_wf m'" "s_pi s' = Some pi"
    "s_frame s' = window_u64 b (frame_previous pi)" "unat (s_n_pcs s') = unat (s_n_pcs s) + 2"
    "s_frames s' = s_frames s @ [Interp INTERP_ID_PYTHON (py_code pi b) (window_u64 b (frame_instr_ptr pi))]"
    by (rule py_seg_step_frame [of s m pi env b i]) (use python_frame off in auto)
  have "seg_follows s' fs rest (fst (bpf_loop_from (i + 1) k' (py_seg_step env) (s', m')))"
    using python_frame.prems s' k by (intro python_frame.IH) auto
  with st s'(6) k show ?case by (simp add: seg_follows_def)
qed

lemma py_run_segment_follows:
  assumes seg: "py_segment env pi frame fs rest" and off: "offsets_ok pi"
    and wf: "rec_wf r (p_n_pcs st)" "py_mod_wf m" and len: "length (p_interp_scratch st) = 4"
    and room: "unat (p_n_pcs st) + 2 * length fs \<le> MAX_FRAMES"
    and run: "py_run_segment env pi frame st r m = (st', r', m')"
  shows "rec_frames r' (p_n_pcs st') = rec_frames r (p_n_pcs st) @ py_frames fs" (is ?frames)
    and "case rest of None \<Rightarrow> scratch_state st' = PY_CHAIN_DONE
      | Some p \<Rightarrow> scratch_state st' = PY_CHAIN_ACTIVE \<and> p_interp_scratch st' ! PY_SCRATCH_FRAME = p" (is ?rest)
proof -
  let ?s = "\<lparr>s_rec = r, s_pi = Some pi, s_frame = frame, s_n_pcs = p_n_pcs st, s_state = PY_CHAIN_DONE,
      s_stopped = 0\<rparr>"
  obtain sg m1 where lp: "bpf_loop MAX_FRAMES (py_seg_step env) (?s, m) = (sg, m1)"
    by (cases "bpf_loop MAX_FRAMES (py_seg_step env) (?s, m)")
  have "length fs < MAX_FRAMES" using room by simp
  then have "seg_follows ?s fs rest sg"
    using seg_loop_follows [OF seg off, of ?s m MAX_FRAMES 0] wf room lp by (simp add: s_wf_def bpf_loop_def)
  then show ?frames and ?rest
    using run lp len
    by (auto simp: seg_follows_def py_run_segment_def Let_def s_frames_def split: option.splits)
qed

lemma py_start_follows:
  assumes "scratch_state st = PY_CHAIN_UNSTARTED" and "y_procs env (p_pid st) = Some pi" "py_enabled pi \<noteq> 0"
    and "py_first_frame env pi m = (Some frame, m)"
  shows "py_walk_segment env st r m =
    py_run_segment env pi frame (clear_done (set_done (set_scratch PY_SCRATCH_STATE 2 st))) r m"
  using assms by (simp add: py_walk_segment_def Let_def)

lemma py_resume_follows:
  assumes "scratch_state st = PY_CHAIN_ACTIVE" and "y_procs env (p_pid st) = Some pi" "py_enabled pi \<noteq> 0"
  shows "py_walk_segment env st r m =
    py_run_segment env pi (p_interp_scratch st ! PY_SCRATCH_FRAME) st r (py_count_undo PY_CNT_CHAIN_ABANDONED m)"
  using assms by (simp add: py_walk_segment_def Let_def)

text \<open>
  A chain of segments and the dispatches of one sample. Each dispatch runs on the walk and the
  record the native walk has reached by then; the module's own words, the done bits and the process are as
  the dispatch before left them. The module state is threaded through.
\<close>

inductive py_chain :: "py_env \<Rightarrow> py_proc_info \<Rightarrow> u64 \<Rightarrow> (u64 \<times> u64) list list \<Rightarrow> bool" for env pi where
  last_segment: "py_segment env pi frame fs None \<Longrightarrow> py_chain env pi frame [fs]"
| more_segments: "py_segment env pi frame fs (Some p) \<Longrightarrow> py_chain env pi p segs \<Longrightarrow> py_chain env pi frame (fs # segs)"

fun py_dispatches ::
  "py_env \<Rightarrow> py_mod \<Rightarrow> (walk_persist \<times> sample_record) list \<Rightarrow> (walk_persist \<times> sample_record) list" where
  "py_dispatches env m [] = []"
| "py_dispatches env m ((st, r) # ins) =
     (let (st', r', m') = py_walk_segment env st r m in (st', r') # py_dispatches env m' ins)"

definition handed_over :: "walk_persist \<Rightarrow> walk_persist \<Rightarrow> bool" where
  "handed_over st st' \<longleftrightarrow> p_interp_scratch st' = p_interp_scratch st \<and> p_interp_done st' = p_interp_done st \<and>
     p_pid st' = p_pid st"

definition seg_at :: "(u64 \<times> u64) list list \<Rightarrow> nat \<Rightarrow> (u64 \<times> u64) list" where
  "seg_at segs i = (if i < length segs then segs ! i else [])"

text \<open>Where the walk state stands: the segments \<open>segs\<close> are still to be dispatched.\<close>

definition at_chain :: "py_env \<Rightarrow> py_proc_info \<Rightarrow> walk_persist \<Rightarrow> (u64 \<times> u64) list list \<Rightarrow> bool" where
  "at_chain env pi st segs \<longleftrightarrow> py_st_ok env st \<and> y_procs env (p_pid st) = Some pi \<and> py_enabled pi \<noteq> 0 \<and>
     (if segs = [] then scratch_state st = PY_CHAIN_DONE
      else \<exists>frame. py_chain env pi frame segs \<and>
        (scratch_state st = PY_CHAIN_ACTIVE \<and> p_interp_scratch st ! PY_SCRATCH_FRAME = frame \<or>
         scratch_state st = PY_CHAIN_UNSTARTED \<and> (\<forall>m. py_first_frame env pi m = (Some frame, m))))"

lemma at_chain_done: "at_chain env pi st segs \<Longrightarrow> scratch_state st = PY_CHAIN_DONE \<longleftrightarrow> segs = []"
  by (auto simp: at_chain_def split: if_splits)

lemma at_chain_cong: "handed_over st st' \<Longrightarrow> at_chain env pi st' segs = at_chain env pi st segs"
  by (simp add: handed_over_def at_chain_def py_st_ok_def py_live_def scratch_state_def)

lemma py_first_frame_any: "py_first_frame env pi m = (Some frame, m) \<Longrightarrow> py_first_frame env pi m' = (Some frame, m')"
  by (auto simp: py_first_frame_def Let_def split: if_splits option.splits)

lemma py_segment_run_at:
  assumes "py_chain env pi frame segs" and "offsets_ok pi" and "rec_wf r (p_n_pcs st)" and "py_mod_wf m"
    and "length (p_interp_scratch st) = 4" and "unat (p_n_pcs st) + 2 * length (seg_at segs 0) \<le> MAX_FRAMES"
    and "py_run_segment env pi frame st r m = (st', r', m')"
    and "py_st_ok env st'" and "y_procs env (p_pid st') = Some pi" and "py_enabled pi \<noteq> 0"
  shows "rec_frames r' (p_n_pcs st') = rec_frames r (p_n_pcs st) @ py_frames (seg_at segs 0) \<and> at_chain env pi st' (tl segs)"
  using assms(1)
proof cases
  case (last_segment fs)
  then show ?thesis
    using py_run_segment_follows [OF last_segment(2) assms(2-5) _ assms(7)] assms(6,8-) by (simp add: seg_at_def at_chain_def)
next
  case (more_segments fs p segs')
  then show ?thesis
    using py_run_segment_follows [OF more_segments(2) assms(2-5) _ assms(7)] assms(6,8-) more_segments(3)
    by (auto simp: seg_at_def at_chain_def elim: py_chain.cases)
qed

lemma py_dispatch_at:
  assumes at: "at_chain env pi st segs" and off: "offsets_ok pi" and wf: "rec_wf r (p_n_pcs st)" "py_mod_wf m"
    and room: "unat (p_n_pcs st) + 2 * length (seg_at segs 0) \<le> MAX_FRAMES"
    and w: "py_walk_segment env st r m = (st', r', m')"
  shows "rec_frames r' (p_n_pcs st') = rec_frames r (p_n_pcs st) @ py_frames (seg_at segs 0) \<and>
    at_chain env pi st' (tl segs) \<and> py_mod_wf m'"
proof -
  from at have ok: "py_st_ok env st" and pi: "y_procs env (p_pid st) = Some pi" "py_enabled pi \<noteq> 0"
    by (auto simp: at_chain_def)
  from py_walk_segment_call [OF ok wf] w
  have call: "same_walk st st'" "py_mod_wf m'" "py_st_ok env st'" by (auto simp: py_call_def)
  have pi': "y_procs env (p_pid st') = Some pi" using call(1) pi by (simp add: same_walk_def)
  have len: "length (p_interp_scratch st) = 4" using ok by (simp add: py_st_ok_def)
  consider (over) "segs = []" "scratch_state st = PY_CHAIN_DONE"
    | (start) frame where "py_chain env pi frame segs" "scratch_state st = PY_CHAIN_UNSTARTED"
        "py_first_frame env pi m = (Some frame, m)"
    | (resume) frame where "py_chain env pi frame segs" "scratch_state st = PY_CHAIN_ACTIVE"
        "p_interp_scratch st ! PY_SCRATCH_FRAME = frame"
    using at by (auto simp: at_chain_def split: if_splits)
  then show ?thesis
  proof cases
    case over
    with w call pi' pi(2) show ?thesis by (auto simp: py_walk_segment_def seg_at_def at_chain_def)
  next
    case start
    let ?st = "clear_done (set_done (set_scratch PY_SCRATCH_STATE 2 st))"
    have run: "py_run_segment env pi frame ?st r m = (st', r', m')"
      using py_start_follows [OF start(2) pi start(3), of r] w by simp
    from py_segment_run_at [OF start(1) off _ wf(2) _ _ run call(3) pi' pi(2)] wf(1) len room call(2)
    show ?thesis by simp
  next
    case resume
    have run: "py_run_segment env pi frame st r (py_count_undo PY_CNT_CHAIN_ABANDONED m) = (st', r', m')"
      using py_resume_follows [OF resume(2) pi, of r m] w resume(3) by simp
    from py_segment_run_at [OF resume(1) off wf(1) _ len room run call(3) pi' pi(2)] wf(2) call(2)
    show ?thesis by simp
  qed
qed

lemma py_dispatches_follow:
  assumes "ins \<noteq> [] \<Longrightarrow> at_chain env pi (fst (hd ins)) segs" and "offsets_ok pi" and "py_mod_wf m"
    and "\<And>i. i < length ins \<Longrightarrow> rec_wf (snd (ins ! i)) (p_n_pcs (fst (ins ! i))) \<and>
      unat (p_n_pcs (fst (ins ! i))) + 2 * length (seg_at segs i) \<le> MAX_FRAMES"
    and "\<And>i. Suc i < length ins \<Longrightarrow> handed_over (fst (py_dispatches env m ins ! i)) (fst (ins ! Suc i))"
  shows "i < length ins \<Longrightarrow> rec_frames (snd (py_dispatches env m ins ! i)) (p_n_pcs (fst (py_dispatches env m ins ! i))) =
      rec_frames (snd (ins ! i)) (p_n_pcs (fst (ins ! i))) @ py_frames (seg_at segs i) \<and>
    at_chain env pi (fst (py_dispatches env m ins ! i)) (drop (Suc i) segs)"
  using assms
proof (induction ins arbitrary: m segs i)
  case (Cons x ins)
  obtain st r where x: "x = (st, r)" by (cases x)
  obtain st' r' m' where w: "py_walk_segment env st r m = (st', r', m')" by (cases "py_walk_segment env st r m")
  have at: "at_chain env pi st segs" using Cons.prems(2) x by simp
  have one: "rec_frames r' (p_n_pcs st') = rec_frames r (p_n_pcs st) @ py_frames (seg_at segs 0) \<and>
      at_chain env pi st' (tl segs) \<and> py_mod_wf m'"
    using Cons.prems(5) [of 0] x by (intro py_dispatch_at [OF at Cons.prems(3) _ Cons.prems(4) _ w]) simp_all
  have seg: "seg_at (tl segs) j = seg_at segs (Suc j)" for j by (cases segs) (simp_all add: seg_at_def)
  have next_at: "at_chain env pi (fst (hd ins)) (tl segs)" if "ins \<noteq> []"
    using Cons.prems(6) [of 0] one that at_chain_cong [of st'] by (cases ins) (auto simp: x w)
  show ?case
  proof (cases i)
    case 0
    with one show ?thesis by (simp add: x w drop_Suc)
  next
    case (Suc j)
    have "rec_frames (snd (py_dispatches env m' ins ! j)) (p_n_pcs (fst (py_dispatches env m' ins ! j))) =
        rec_frames (snd (ins ! j)) (p_n_pcs (fst (ins ! j))) @ py_frames (seg_at (tl segs) j) \<and>
      at_chain env pi (fst (py_dispatches env m' ins ! j)) (drop (Suc j) (tl segs))"
    proof (rule Cons.IH)
      show "j < length ins" using Cons.prems(1) Suc by simp
      show "handed_over (fst (py_dispatches env m' ins ! n)) (fst (ins ! Suc n))" if "Suc n < length ins" for n
        using Cons.prems(6) [of "Suc n"] that by (simp add: x w)
      show "rec_wf (snd (ins ! n)) (p_n_pcs (fst (ins ! n))) \<and>
          unat (p_n_pcs (fst (ins ! n))) + 2 * length (seg_at (tl segs) n) \<le> MAX_FRAMES" if "n < length ins" for n
        using Cons.prems(5) [of "Suc n"] that by (simp add: seg)
    qed (use next_at one Cons.prems(3) in simp_all)
    then show ?thesis by (simp add: x w Suc seg drop_Suc)
  qed
qed simp

section \<open>A sample of dispatches\<close>

text \<open>
  All the module sees of one sample: it starts from zeroed scratch words, the native walk moves
  everything but the module's own words, and each dispatch runs one segment on whatever
  well-formed record the native walk has reached.
\<close>

inductive py_sample :: "py_env \<Rightarrow> py_mod \<Rightarrow> walk_persist \<Rightarrow> py_mod \<Rightarrow> bool" for env m0 where
  start: "p_interp_scratch st = [0, 0, 0, 0] \<Longrightarrow> p_interp_done st = 0 \<Longrightarrow> py_sample env m0 st m0"
| native: "py_sample env m0 st m \<Longrightarrow> p_interp_scratch st' = p_interp_scratch st \<Longrightarrow>
    p_interp_done st' = p_interp_done st \<Longrightarrow> p_pid st' = p_pid st \<Longrightarrow> py_sample env m0 st' m"
| dispatch: "py_sample env m0 st m \<Longrightarrow> rec_wf r (p_n_pcs st) \<Longrightarrow>
    py_walk_segment env st r m = (st', r', m') \<Longrightarrow> py_sample env m0 st' m'"

definition py_sample_inv :: "py_env \<Rightarrow> py_mod \<Rightarrow> walk_persist \<Rightarrow> py_mod \<Rightarrow> bool" where
  "py_sample_inv env m0 st m \<longleftrightarrow> py_st_ok env st \<and> py_mod_wf m \<and>
     (\<forall>j < 9. j \<noteq> 0 \<longrightarrow> cnt m j = cnt m0 j \<or> (cnt m j = cnt m0 j + 1 \<and> scratch_state st = PY_CHAIN_DONE)) \<and>
     cnt m 9 = cnt m0 9 + (if scratch_state st = PY_CHAIN_ACTIVE then 1 else 0)"

lemma py_sample_inv_start:
  "p_interp_scratch st = [0, 0, 0, 0] \<Longrightarrow> p_interp_done st = 0 \<Longrightarrow> py_mod_wf m \<Longrightarrow> py_sample_inv env m st m"
  by (simp add: py_sample_inv_def py_st_ok_def scratch_state_def)

lemma py_sample_inv_native:
  "py_sample_inv env m0 st m \<Longrightarrow> p_interp_scratch st' = p_interp_scratch st \<Longrightarrow>
     p_interp_done st' = p_interp_done st \<Longrightarrow> p_pid st' = p_pid st \<Longrightarrow> py_sample_inv env m0 st' m"
  by (simp add: py_sample_inv_def py_st_ok_def scratch_state_def py_live_def)

lemma py_sample_inv_dispatch:
  assumes inv: "py_sample_inv env m0 st m" and "rec_wf r (p_n_pcs st)" and room: "cnt m0 9 < - 1"
    and w: "py_walk_segment env st r m = (st', r', m')"
  shows "py_sample_inv env m0 st' m'"
proof -
  from inv have ok: "py_st_ok env st" "py_mod_wf m" by (simp_all add: py_sample_inv_def)
  from py_walk_segment_call [OF ok(1) assms(2) ok(2)] w have call: "py_call env st r m (st', r', m')" by simp
  have "cnt m0 9 \<noteq> - 1" using room by auto
  then have pos: "cnt m0 9 + 1 > 0" by (simp add: word_gt_0 eq_neg_iff_add_eq_0)
  have c: "cnt m' j = cnt m0 j \<or> (cnt m' j = cnt m0 j + 1 \<and> scratch_state st' = PY_CHAIN_DONE)" if "j < 9" "j \<noteq> 0" for j
  proof -
    have "cnt m j = cnt m0 j \<or> (cnt m j = cnt m0 j + 1 \<and> scratch_state st = PY_CHAIN_DONE)"
      using inv that by (simp add: py_sample_inv_def)
    moreover have "cnt m' j = cnt m j \<or>
        (cnt m' j = cnt m j + 1 \<and> scratch_state st \<noteq> PY_CHAIN_DONE \<and> scratch_state st' = PY_CHAIN_DONE)"
      using call that by (simp add: py_call_def)
    moreover have "scratch_state st = PY_CHAIN_DONE \<Longrightarrow> scratch_state st' = PY_CHAIN_DONE"
      using w by (auto simp: py_walk_segment_def)
    ultimately show ?thesis by auto
  qed
  have "cnt m' 9 = cnt m0 9 + (if scratch_state st' = PY_CHAIN_ACTIVE then 1 else 0)"
    using call inv pos by (simp add: py_call_def py_sample_inv_def)
  with c call show ?thesis by (simp add: py_sample_inv_def py_call_def)
qed

lemma py_sample_invariant:
  assumes "py_sample env m0 st m" and "py_mod_wf m0" and "cnt m0 9 < - 1"
  shows "py_sample_inv env m0 st m"
  using assms(1)
proof induction
  case (start st)
  then show ?case using assms(2) by (rule py_sample_inv_start)
next
  case (native st m st')
  then show ?case using py_sample_inv_native by blast
next
  case (dispatch st m r st' r' m')
  show ?case by (rule py_sample_inv_dispatch [OF dispatch.IH dispatch.hyps(2) assms(3) dispatch.hyps(3)])
qed

text \<open>The module keeps the contract of an unwinder, with the sample invariant as its state law.\<close>

interpretation pymod: unwinder_module "py_walk_segment env" "\<lambda>st m. cnt m0 9 < - 1 \<and> py_sample_inv env m0 st m"
  for env m0
proof
  fix st r m st' r' m'
  assume J: "cnt m0 9 < - 1 \<and> py_sample_inv env m0 st m" and wf: "rec_wf r (p_n_pcs st)"
    and w: "py_walk_segment env st r m = (st', r', m')"
  from J have ok: "py_st_ok env st" "py_mod_wf m" by (simp_all add: py_sample_inv_def)
  from py_walk_segment_call [OF ok(1) wf ok(2)] w
  show "same_walk st st' \<and> hdr_ok r r'" "rec_wf r' (p_n_pcs st')"
    "\<exists>xs. rec_frames r' (p_n_pcs st') = rec_frames r (p_n_pcs st) @ xs"
    by (auto simp: py_call_def)
  show "cnt m0 9 < - 1 \<and> py_sample_inv env m0 st' m'"
    using J py_sample_inv_dispatch [OF _ wf _ w] by blast
next
  fix st st' :: walk_persist and m
  assume "cnt m0 9 < - 1 \<and> py_sample_inv env m0 st m" "p_interp_scratch st' = p_interp_scratch st"
    "p_interp_done st' = p_interp_done st" "p_pid st' = p_pid st"
  then show "cnt m0 9 < - 1 \<and> py_sample_inv env m0 st' m" using py_sample_inv_native by blast
qed

section \<open>Properties of the module\<close>

text \<open>
  A dispatch cannot hurt the native walk. Whatever the process memory holds, it leaves the
  registers, the process, the resume marks and the round-trip count alone, only appends
  Python frames to the record, keeps it well-formed, and of the header touches at most the
  refusal flag; afterwards the module's done bit is raised exactly when its chain is done.
\<close>

theorem py_dispatch_preserves_walk:
  assumes "py_st_ok env st" and "rec_wf r (p_n_pcs st)" and "py_mod_wf m"
    and "py_walk_segment env st r m = (st', r', m')"
  shows "same_walk st st' \<and> hdr_ok r r' \<and> rec_wf r' (p_n_pcs st') \<and>
    (\<exists>fs. rec_frames r' (p_n_pcs st') = rec_frames r (p_n_pcs st) @ py_frames fs) \<and>
    (has_flag (p_interp_done st') PY_DONE_BIT \<longleftrightarrow> scratch_state st' = PY_CHAIN_DONE)"
  using py_walk_segment_call [OF assms(1-3)] assms(4) by (auto simp: py_call_def py_st_ok_def)

text \<open>
  The segment loop always ends for a reason the callback names, whatever the chain does (a
  cyclic chain included): on a well-formed record the loop bound never runs out, so the
  truncation branch after the loop is unreachable.
\<close>

theorem py_segment_loop_stops:
  assumes "rec_wf (s_rec s) (s_n_pcs s)" and "py_mod_wf m"
  shows "s_stopped (fst (bpf_loop MAX_FRAMES (py_seg_step env) (s, m))) = 1"
  using seg_loop_over [of s m env] assms by (auto simp: s_wf_def seg_over_def)

text \<open>
  C3: the chain is resumed and never restarted. For any chain of segments and any number of dispatches of one
  sample, wherever the native walk has got to between them, dispatch number \<open>i\<close> appends exactly the
  frames of segment number \<open>i\<close>, in order; it leaves the chain done exactly when no further segment is waiting,
  and every dispatch after the last segment appends nothing.
\<close>

theorem py_chain_resumed_not_restarted:
  assumes "py_st_ok env (fst (hd ins))" and "scratch_state (fst (hd ins)) = PY_CHAIN_UNSTARTED" and "ins \<noteq> []"
    and "y_procs env (p_pid (fst (hd ins))) = Some pi" and "py_enabled pi \<noteq> 0" and "offsets_ok pi"
    and "py_first_frame env pi m = (Some frame, m)" and "py_chain env pi frame segs" and "py_mod_wf m"
    and "\<And>i. i < length ins \<Longrightarrow> rec_wf (snd (ins ! i)) (p_n_pcs (fst (ins ! i))) \<and>
      unat (p_n_pcs (fst (ins ! i))) + 2 * length (seg_at segs i) \<le> MAX_FRAMES"
    and "\<And>i. Suc i < length ins \<Longrightarrow> handed_over (fst (py_dispatches env m ins ! i)) (fst (ins ! Suc i))"
  shows "\<forall>i < length ins. case py_dispatches env m ins ! i of (st', r') \<Rightarrow>
    rec_frames r' (p_n_pcs st') = rec_frames (snd (ins ! i)) (p_n_pcs (fst (ins ! i))) @ py_frames (seg_at segs i) \<and>
    (scratch_state st' = PY_CHAIN_DONE \<longleftrightarrow> length segs \<le> Suc i)"
proof -
  have "segs \<noteq> []" using assms(8) by (auto elim: py_chain.cases)
  then have "at_chain env pi (fst (hd ins)) segs"
    using assms(1-5,7,8) py_first_frame_any [OF assms(7)] by (auto simp: at_chain_def)
  from py_dispatches_follow [OF this assms(6,9-11)] at_chain_done
  show ?thesis by (fastforce split: prod.split)
qed

text \<open>
  The unit rule of the counters. Over one sample, however many times the native walk lands
  on the eval loop, each failure counter (slots 1 to 8) moves by at most one, and the
  provisional abandoned-chain counter ends up one higher exactly when the sample ends with an
  outer segment still waiting; its withdrawal never takes it below where the sample started.
\<close>

theorem py_counters_per_sample:
  assumes "py_sample env m0 st m" and "py_mod_wf m0" and "cnt m0 9 < - 1"
  shows "(\<lambda>j. cnt m j - cnt m0 j) ` {1..8} \<subseteq> {0, 1} \<and>
    cnt m 9 = cnt m0 9 + (if scratch_state st = PY_CHAIN_ACTIVE then 1 else 0)"
proof -
  have "cnt m j - cnt m0 j \<in> {0, 1}" if "j < 9" "j \<noteq> 0" for j
    using py_sample_invariant [OF assms] that by (auto simp: py_sample_inv_def)
  then have "(\<lambda>j. cnt m j - cnt m0 j) ` {1..8} \<subseteq> {0, 1}" by (intro image_subsetI) auto
  then show ?thesis using py_sample_invariant [OF assms] by (simp add: py_sample_inv_def)
qed

section \<open>A concrete process\<close>

text \<open>
  Thread pointer 0x100, thread state at 0x200, and a chain of a Python frame at 0x300, the
  interpreter's entry frame at 0x400 and an outer Python frame at 0x500.
\<close>

definition py_demo_mem :: umem where
  "py_demo_mem a =
     (if a = 0x109 then Some 2 else if a = 0x201 then Some 3
      else if a = 0x300 then Some 0x10 else if a = 0x309 then Some 4 else if a = 0x338 then Some 0x20
      else if a = 0x446 then Some 3 else if a = 0x409 then Some 5
      else if a = 0x500 then Some 0x11 else if a = 0x538 then Some 0x21
      else if 0x100 \<le> a \<and> a < 0x600 then Some 0 else None)"

definition py_demo_pi :: py_proc_info where
  "py_demo_pi = \<lparr>none_addr = 0, tss_key = 0, pthread_specific1stblock = 0, pthread_key_data_size = 16,
     pthread_key_data_off = 8, pthread_size = 0, frame_previous = 8, frame_executable = 0, frame_instr_ptr = 56,
     frame_owner = 70, threadstate_frame = 0, code_argcount = 0, code_kwonlyargcount = 0, code_flags = 0,
     code_firstlineno = 0, frame_owner_max = 3, frame_owner_cstack = 3, frame_owner_boundary = 3,
     frame_executable_tagged = 0, threadstate_frame_indirect = 0, py_enabled = 1\<rparr>"

definition py_demo_env :: py_env where
  "py_demo_env = \<lparr>y_umem = py_demo_mem, y_procs = [9 \<mapsto> py_demo_pi], y_arch = X86, y_task = Some (Some 0x100)\<rparr>"

definition py_demo_mod :: py_mod where
  "py_demo_mod = \<lparr>py_walk_counters = replicate 10 0, py_frame_scratch = [replicate 96 0]\<rparr>"

definition py_demo_st :: walk_persist where
  "py_demo_st = \<lparr>p_pc = 0, p_fp = 0, p_sp = 0, p_interp_scratch = [0, 0, 0, 0], p_pid = 9, p_tid = 9, p_n_pcs = 0,
     p_pending_unwinder = 0, p_interp_done = 0, p_stopped = 0, p_tail_calls = 0\<rparr>"

definition frame_image :: "u8 \<Rightarrow> u8 \<Rightarrow> u8 \<Rightarrow> u8 \<Rightarrow> u8 list" where
  "frame_image e p i ow = [e] @ replicate 8 0 @ [p] @ replicate 46 0 @ [i] @ replicate 13 0 @ [ow] @ replicate 25 0"

lemma demo_windows:
  "probe_read_user py_demo_mem 0x300 PY_FRAME_WINDOW = Some (frame_image 0x10 4 0x20 0)"
  "probe_read_user py_demo_mem 0x400 PY_FRAME_WINDOW = Some (frame_image 0 5 0 3)"
  "probe_read_user py_demo_mem 0x500 PY_FRAME_WINDOW = Some (frame_image 0x11 0 0x21 0)"
  by (simp_all add: py_demo_mem_def frame_image_def replicate_numeral_Cons)

lemma demo_image:
  "py_owner py_demo_pi (frame_image e p i ow) = ow"
  "window_u64 (frame_image e p i ow) 8 = 256 * ucast p" "window_u64 (frame_image e p i ow) 0 = ucast e"
  "window_u64 (frame_image e p i ow) 56 = ucast i"
  by (simp_all add: py_owner_def py_demo_pi_def window_u64_def frame_image_def replicate_numeral_Cons)

lemma demo_segments:
  "py_segment py_demo_env py_demo_pi 0x300 [(0x10, 0x20)] (Some 0x500)"
  "py_segment py_demo_env py_demo_pi 0x500 [(0x11, 0x21)] None"
proof -
  have c: "py_code py_demo_pi (frame_image e p i ow) = ucast e" for e p i ow
    by (simp add: py_code_def py_demo_pi_def demo_image)
  have entry: "py_segment py_demo_env py_demo_pi 0x400 [] (Some 0x500)"
    by (rule entry_frame [where b = "frame_image 0 5 0 3"])
      (simp_all del: probe_read_user_numeral add: py_demo_env_def demo_windows demo_image, simp_all add: py_demo_pi_def demo_image)
  show "py_segment py_demo_env py_demo_pi 0x300 [(0x10, 0x20)] (Some 0x500)"
    using python_frame [where frame = "0x300" and b = "frame_image 0x10 4 0x20 0" and env = py_demo_env and
      pi = py_demo_pi and fs = "[]" and rest = "Some 0x500"] entry
    by (simp del: probe_read_user_numeral add: py_demo_env_def demo_windows demo_image c)
      (simp add: py_demo_pi_def demo_image)
  show "py_segment py_demo_env py_demo_pi 0x500 [(0x11, 0x21)] None"
    using python_frame [where frame = "0x500" and b = "frame_image 0x11 0 0x21 0" and env = py_demo_env and
      pi = py_demo_pi and fs = "[]" and rest = None] chain_end [of py_demo_env py_demo_pi]
    by (simp del: probe_read_user_numeral add: py_demo_env_def demo_windows demo_image c)
      (simp add: py_demo_pi_def demo_image)
qed

lemma demo_first: "py_first_frame py_demo_env py_demo_pi m = (Some 0x300, m)"
  by (simp add: py_first_frame_def py_tss_get_def py_demo_env_def py_demo_pi_def read_u64_def py_demo_mem_def)

lemma demo_st_ok: "py_st_ok py_demo_env py_demo_st" "scratch_state py_demo_st = PY_CHAIN_UNSTARTED"
  by (simp_all add: py_st_ok_def scratch_state_def py_demo_st_def)

lemma demo_mod_wf: "py_mod_wf py_demo_mod" "cnt py_demo_mod 9 < - 1"
  by (simp_all add: py_mod_wf_def py_demo_mod_def cnt_def word_gt_0)

lemma demo_rec: "rec_wf empty_record (p_n_pcs py_demo_st)"
  by (simp add: py_demo_st_def)

lemma demo_chain: "py_chain py_demo_env py_demo_pi 0x300 [[(0x10, 0x20)], [(0x11, 0x21)]]"
  by (rule more_segments [OF demo_segments(1) last_segment [OF demo_segments(2)]])

theorem py_chain_resumed_not_restarted_witness:
  "\<exists>st1 st2. length (py_dispatches py_demo_env py_demo_mod [(py_demo_st, empty_record), (st1, empty_record), (st2, empty_record)]) = 3 \<and>
    (\<forall>i < 3. case py_dispatches py_demo_env py_demo_mod [(py_demo_st, empty_record), (st1, empty_record), (st2, empty_record)] ! i
      of (st', r') \<Rightarrow> rec_frames r' (p_n_pcs st') =
        rec_frames empty_record 0 @ py_frames ([[(0x10, 0x20)], [(0x11, 0x21)], []] ! i) \<and>
      (scratch_state st' = PY_CHAIN_DONE \<longleftrightarrow> 1 \<le> i))"
proof -
  obtain o1 r1 m1 where w1: "py_walk_segment py_demo_env py_demo_st empty_record py_demo_mod = (o1, r1, m1)"
    by (cases "py_walk_segment py_demo_env py_demo_st empty_record py_demo_mod")
  obtain o2 r2 m2 where w2: "py_walk_segment py_demo_env (o1\<lparr>p_n_pcs := 0\<rparr>) empty_record m1 = (o2, r2, m2)"
    by (cases "py_walk_segment py_demo_env (o1\<lparr>p_n_pcs := 0\<rparr>) empty_record m1")
  let ?ins = "[(py_demo_st, empty_record), (o1\<lparr>p_n_pcs := 0\<rparr>, empty_record), (o2\<lparr>p_n_pcs := 0\<rparr>, empty_record)]"
  obtain o3 r3 m3 where w3: "py_walk_segment py_demo_env (o2\<lparr>p_n_pcs := 0\<rparr>) empty_record m2 = (o3, r3, m3)"
    by (cases "py_walk_segment py_demo_env (o2\<lparr>p_n_pcs := 0\<rparr>) empty_record m2")
  have d: "py_dispatches py_demo_env py_demo_mod ?ins = [(o1, r1), (o2, r2), (o3, r3)]" by (simp add: w1 w2 w3)
  have n: "p_n_pcs (fst (?ins ! i)) = 0 \<and> snd (?ins ! i) = empty_record" if "i < 3" for i
    using that by (auto simp: py_demo_st_def numeral_3_eq_3 less_Suc_eq)
  have l: "length (seg_at [[(0x10, 0x20)], [(0x11, 0x21)]] i) \<le> 1" for i
    by (cases i; cases "i - 1") (simp_all add: seg_at_def)
  have "\<forall>i < length ?ins. case py_dispatches py_demo_env py_demo_mod ?ins ! i of (st', r') \<Rightarrow>
      rec_frames r' (p_n_pcs st') = rec_frames (snd (?ins ! i)) (p_n_pcs (fst (?ins ! i))) @
        py_frames (seg_at [[(0x10, 0x20)], [(0x11, 0x21)]] i) \<and>
      (scratch_state st' = PY_CHAIN_DONE \<longleftrightarrow> length [[(0x10, 0x20)], [(0x11 :: u64, 0x21 :: u64)]] \<le> Suc i)"
  proof (rule py_chain_resumed_not_restarted [OF _ _ _ _ _ _ demo_first demo_chain demo_mod_wf(1)])
    show "rec_wf (snd (?ins ! i)) (p_n_pcs (fst (?ins ! i))) \<and>
        unat (p_n_pcs (fst (?ins ! i))) + 2 * length (seg_at [[(0x10, 0x20)], [(0x11, 0x21)]] i) \<le> MAX_FRAMES"
      if "i < length ?ins" for i
      using n [of i] l [of i] that demo_rec by (simp add: py_demo_st_def)
    show "handed_over (fst (py_dispatches py_demo_env py_demo_mod ?ins ! i)) (fst (?ins ! Suc i))"
      if "Suc i < length ?ins" for i
      unfolding d using that by (auto simp: handed_over_def less_Suc_eq)
  qed (simp_all add: demo_st_ok, simp_all add: py_demo_env_def py_demo_st_def, simp_all add: py_demo_pi_def offsets_ok_def)
  then have "\<forall>i < 3. case py_dispatches py_demo_env py_demo_mod ?ins ! i of (st', r') \<Rightarrow>
      rec_frames r' (p_n_pcs st') = rec_frames empty_record 0 @ py_frames ([[(0x10, 0x20)], [(0x11, 0x21)], []] ! i) \<and>
      (scratch_state st' = PY_CHAIN_DONE \<longleftrightarrow> 1 \<le> i)"
    unfolding d by (auto simp: seg_at_def numeral_3_eq_3 less_Suc_eq py_demo_st_def)
  with d have "length (py_dispatches py_demo_env py_demo_mod ?ins) = 3 \<and> (\<forall>i < 3. case py_dispatches py_demo_env py_demo_mod ?ins ! i of (st', r') \<Rightarrow>
      rec_frames r' (p_n_pcs st') = rec_frames empty_record 0 @ py_frames ([[(0x10, 0x20)], [(0x11, 0x21)], []] ! i) \<and>
      (scratch_state st' = PY_CHAIN_DONE \<longleftrightarrow> 1 \<le> i))" by simp
  then show ?thesis by (intro exI)
qed

end
