(* ===== verification/Tail_Calls.thy ===== *)
theory Tail_Calls
  imports Walker Python_Walk
begin

text \<open>
  Driving a walk across tail calls (\<open>src/bpf/unwind_common.h\<close> and the end of
  \<open>src/bpf/unwind_record.h\<close>): \<open>unwind_walk_begin\<close>, \<open>unwind_walk\<close> with its handoff, the two
  resume programs of \<open>INTERP_DEFINE_PROGRAMS\<close> and the module's entry point \<open>py_walk\<close>. A tail
  call replaces the running program, so the programs are the states of a machine: each one
  runs on the per-CPU world and either exits or names the \<open>interp_progs\<close> slot it jumps to.
  The kernel's silent limit on tail calls is the fuel of the machine.

  The lemmas, proved once for every module that keeps the contract \<open>unwinder_module\<close>, show
  that the round-trip budget always stops a sample before the kernel limit does, so every
  sample is finished by its driver exactly once, with a well-formed record, consistent ending
  flags, and dispatch counters that add up.
\<close>

section \<open>State\<close>

abbreviation INTERP_TAIL_CALL_BUDGET :: u32 where "INTERP_TAIL_CALL_BUDGET \<equiv> 10"
abbreviation MAX_TAIL_CALL_CNT :: nat where "MAX_TAIL_CALL_CNT \<equiv> 33"

text \<open>
  What the programs of one CPU share: the one-entry per-CPU arrays \<open>walk_states\<close> and
  \<open>walker_scratch\<close>, the walker's kernel objects, the module's state and the driver's.
\<close>

record ('m, 'd) world =
  x_states :: "walk_persist list"
  x_records :: "sample_record list"
  x_kernel :: kernel_state
  x_mod :: 'm
  x_drv :: 'd

datatype interp_prog = Interp_resume_step | Interp_resume_walk | Interp_unwinder

type_synonym 'd finish = "u32 \<Rightarrow> walk_persist \<Rightarrow> sample_record \<Rightarrow> kernel_state \<Rightarrow> 'd \<Rightarrow> sample_record \<times> kernel_state \<times> 'd"
type_synonym 'm module_fn = "walk_persist \<Rightarrow> sample_record \<Rightarrow> 'm \<Rightarrow> walk_persist \<times> sample_record \<times> 'm"

section \<open>Operations\<close>

definition walk_state_get :: "('m, 'd) world \<Rightarrow> walk_persist option" where
  "walk_state_get x = array_lookup (x_states x) 0"

definition walk_record_get :: "('m, 'd) world \<Rightarrow> sample_record option" where
  "walk_record_get x = array_lookup (x_records x) 0"

definition put_walk :: "walk_persist \<Rightarrow> sample_record \<Rightarrow> ('m, 'd) world \<Rightarrow> ('m, 'd) world" where
  "put_walk st r x = x\<lparr>x_states := array_store (x_states x) 0 st, x_records := array_store (x_records x) 0 r\<rparr>"

definition unwind_walk_begin ::
  "u32 \<Rightarrow> u32 \<Rightarrow> u64 \<Rightarrow> u64 \<Rightarrow> u64 \<Rightarrow> walk_persist \<Rightarrow> sample_record \<Rightarrow> walk_persist \<times> sample_record" where
  "unwind_walk_begin pid tid pc fp sp st r =
     (st\<lparr>p_pc := pc, p_fp := fp, p_sp := sp, p_pid := pid, p_tid := tid, p_n_pcs := 0,
         p_pending_unwinder := UNWINDER_NATIVE, p_interp_done := 0, p_tail_calls := 0, p_stopped := 0,
         p_interp_scratch := [0, 0, 0, 0]\<rparr>,
      r\<lparr>hdr := (hdr r)\<lparr>h_walker_flags := 0\<rparr>\<rparr>)"

text \<open>\<open>Inl slot\<close>: tail-called that slot, the caller is gone. \<open>Inr n\<close>: returned \<open>n\<close>.\<close>

definition walk_return :: "walk_ctx \<Rightarrow> walk_persist \<Rightarrow> kernel_state
    \<Rightarrow> (u32 + u32) \<times> walk_persist \<times> sample_record \<times> kernel_state" where
  "walk_return w st k =
     (Inr (if w_n_pcs w > of_nat MAX_FRAMES then of_nat MAX_FRAMES else w_n_pcs w), walk_save w st, w_rec w, k)"

definition unwind_walk ::
  "walk_env \<Rightarrow> (u32 \<Rightarrow> bool) \<Rightarrow> bool \<Rightarrow> walk_persist \<Rightarrow> sample_record \<Rightarrow> kernel_state
    \<Rightarrow> (u32 + u32) \<times> walk_persist \<times> sample_record \<times> kernel_state" where
  "unwind_walk env tail_call resumed st r k =
     (let w = walk_load st r
      in if \<not> resumed \<or> p_stopped st = 0 then
           let (w, k) = bpf_loop MAX_FRAMES (walk_step env) (w, k);
               claimed = (e_interp_enabled env \<and> w_pending_unwinder w \<noteq> UNWINDER_NATIVE);
               k = (if claimed \<and> p_tail_calls st \<ge> INTERP_TAIL_CALL_BUDGET then k_count INTERP_STAT_BUDGET k else k)
           in if claimed \<and> p_tail_calls st < INTERP_TAIL_CALL_BUDGET then
                let s = w_pending_unwinder w;
                    w = w\<lparr>w_pending_unwinder := UNWINDER_NATIVE\<rparr>;
                    st = walk_save w st;
                    st = st\<lparr>p_tail_calls := p_tail_calls st + 1\<rparr>;
                    k = k_count INTERP_STAT_DISPATCHED k
                in if tail_call (INTERP_SLOT_UNWINDER s) then (Inl (INTERP_SLOT_UNWINDER s), st, w_rec w, k)
                   else walk_return w st (k_count INTERP_STAT_TAILCALL_FAILED k)
              else walk_return w st k
         else walk_return w st k)"

text \<open>A driver's walk function: the walk, then the driver's own way to finish the sample.\<close>

definition driver_walk ::
  "walk_env \<Rightarrow> 'd finish \<Rightarrow> (u32 \<Rightarrow> bool) \<Rightarrow> bool \<Rightarrow> ('m, 'd) world \<Rightarrow> u32 option \<times> ('m, 'd) world" where
  "driver_walk env fin tail_call resumed x =
     (case (walk_state_get x, walk_record_get x) of
        (Some st, Some r) \<Rightarrow>
          (case unwind_walk env tail_call resumed st r (x_kernel x) of
             (Inl s, st, r, k) \<Rightarrow> (Some s, (put_walk st r x)\<lparr>x_kernel := k\<rparr>)
           | (Inr n, st, r, k) \<Rightarrow>
               let (r, k, d) = fin n st r k (x_drv x)
               in (None, (put_walk st r x)\<lparr>x_kernel := k, x_drv := d\<rparr>))
      | _ \<Rightarrow> (None, x))"

definition interp_resume_step ::
  "walk_env \<Rightarrow> (u32 \<Rightarrow> bool) \<Rightarrow> ('m, 'd) world \<Rightarrow> u32 option \<times> ('m, 'd) world" where
  "interp_resume_step env tail_call x =
     (let x = (case (walk_state_get x, walk_record_get x) of
                 (Some st, Some r) \<Rightarrow>
                   let k = k_count INTERP_STAT_RESUMED (x_kernel x);
                       (stop, w, k) = unwind_frame env False (walk_load st r, k);
                       st = (if stop then st\<lparr>p_stopped := 1\<rparr> else st)
                   in (put_walk (walk_save w st) (w_rec w) x)\<lparr>x_kernel := k\<rparr>
               | _ \<Rightarrow> x)
      in (if tail_call INTERP_SLOT_RESUME_WALK then Some INTERP_SLOT_RESUME_WALK else None, x))"

definition interp_resume_walk ::
  "walk_env \<Rightarrow> 'd finish \<Rightarrow> (u32 \<Rightarrow> bool) \<Rightarrow> ('m, 'd) world \<Rightarrow> u32 option \<times> ('m, 'd) world" where
  "interp_resume_walk env fin tail_call x = driver_walk env fin tail_call True x"

definition interp_return_to_native ::
  "(u32 \<Rightarrow> bool) \<Rightarrow> walk_persist \<Rightarrow> sample_record \<Rightarrow> ('m, 'd) world \<Rightarrow> u32 option \<times> ('m, 'd) world" where
  "interp_return_to_native tail_call st r x =
     (if tail_call INTERP_SLOT_RESUME_STEP then Some INTERP_SLOT_RESUME_STEP else None,
      put_walk (st\<lparr>p_pending_unwinder := UNWINDER_NATIVE\<rparr>) r x)"

definition interp_entry ::
  "'m module_fn \<Rightarrow> (u32 \<Rightarrow> bool) \<Rightarrow> ('m, 'd) world \<Rightarrow> u32 option \<times> ('m, 'd) world" where
  "interp_entry seg tail_call x =
     (case (walk_state_get x, walk_record_get x) of
        (Some st, Some r) \<Rightarrow>
          let (st, r, m) = seg st r (x_mod x)
          in interp_return_to_native tail_call st r (x\<lparr>x_mod := m\<rparr>)
      | _ \<Rightarrow> (None, x))"

definition py_walk :: "py_env \<Rightarrow> (u32 \<Rightarrow> bool) \<Rightarrow> (py_mod, 'd) world \<Rightarrow> u32 option \<times> (py_mod, 'd) world" where
  "py_walk yenv tail_call x = interp_entry (py_walk_segment yenv) tail_call x"

definition exec_prog ::
  "walk_env \<Rightarrow> 'd finish \<Rightarrow> 'm module_fn \<Rightarrow> (u32 \<Rightarrow> bool) \<Rightarrow> interp_prog \<Rightarrow> ('m, 'd) world
    \<Rightarrow> u32 option \<times> ('m, 'd) world" where
  "exec_prog env fin seg tail_call prog x =
     (case prog of
        Interp_resume_step \<Rightarrow> interp_resume_step env tail_call x
      | Interp_resume_walk \<Rightarrow> interp_resume_walk env fin tail_call x
      | Interp_unwinder \<Rightarrow> interp_entry seg tail_call x)"

text \<open>A tail call happens when the slot exists and holds a program and the kernel still allows one.\<close>

definition callable :: "(u32 \<Rightarrow> interp_prog option) \<Rightarrow> nat \<Rightarrow> u32 \<Rightarrow> bool" where
  "callable progs rem s \<longleftrightarrow> 0 < rem \<and> s < INTERP_MAX_UNWINDERS \<and> progs s \<noteq> None"

fun run_tail ::
  "walk_env \<Rightarrow> 'd finish \<Rightarrow> 'm module_fn \<Rightarrow> (u32 \<Rightarrow> interp_prog option) \<Rightarrow> nat
    \<Rightarrow> u32 option \<times> ('m, 'd) world \<Rightarrow> ('m, 'd) world" where
  "run_tail env fin seg progs rem (None, x) = x"
| "run_tail env fin seg progs 0 (Some s, x) = x"
| "run_tail env fin seg progs (Suc rem) (Some s, x) =
     (case progs s of None \<Rightarrow> x
      | Some p \<Rightarrow> run_tail env fin seg progs rem (exec_prog env fin seg (callable progs rem) p x))"

text \<open>One sample: the entry program has begun the walk; \<open>rem\<close> is the kernel's allowance.\<close>

definition run_sample ::
  "walk_env \<Rightarrow> 'd finish \<Rightarrow> 'm module_fn \<Rightarrow> (u32 \<Rightarrow> interp_prog option) \<Rightarrow> nat \<Rightarrow> ('m, 'd) world
    \<Rightarrow> ('m, 'd) world" where
  "run_sample env fin seg progs rem x =
     run_tail env fin seg progs rem (driver_walk env fin (callable progs rem) False x)"

section \<open>The walk loop\<close>

definition stat :: "kernel_state \<Rightarrow> nat \<Rightarrow> u64" where
  "stat k j = k_stats k ! j"

definition stats_wf :: "kernel_state \<Rightarrow> bool" where
  "stats_wf k \<longleftrightarrow> length (k_stats k) = unat INTERP_STAT_MAX"

lemma stats_k_count [simp]: "stats_wf (k_count slot k) = stats_wf k"
  by (simp add: stats_wf_def k_count_def)

lemma stat_k_count:
  "stats_wf k \<Longrightarrow> slot < INTERP_STAT_MAX \<Longrightarrow> j < 7 \<Longrightarrow>
     stat (k_count slot k) j = stat k j + (if j = unat slot then 1 else 0)"
  by (simp add: stats_wf_def stat_def k_count_def nth_interp_count)

lemma stats_emit_cfi_miss: "k_stats (emit_cfi_miss env pid t rel k) = k_stats k"
  by (simp add: emit_cfi_miss_def Let_def split: option.split)

lemma next_unwinder_stats:
  assumes "next_unwinder env t pc d k = (u, k')" and "stats_wf k"
  shows "stats_wf k'" and "2 \<le> j \<Longrightarrow> j < 7 \<Longrightarrow> stat k' j = stat k j"
  using assms by (auto simp: next_unwinder_def Let_def stat_k_count split: option.splits if_splits)

lemma unwind_frame_stats:
  assumes fr: "unwind_frame env lead (w, k) = (stop, w', k')" and wf: "stats_wf k"
    and z: "w_pending_unwinder w = UNWINDER_NATIVE"
  shows "stats_wf k'"
    and "2 \<le> j \<Longrightarrow> j < 7 \<Longrightarrow>
      stat k' j = stat k j + (if j = 2 \<and> w_pending_unwinder w' \<noteq> UNWINDER_NATIVE then 1 else 0)"
proof -
  let ?m = "\<lambda>w1. mapping_for_pc (e_pid_mappings env) (e_pid_mapping_lengths env) (w_pid w1) (w_pc w1)"
  obtain c w1 where p: "(if lead then frame_push_native w (w_pc w) else (False, w)) = (c, w1)"
    by (cases "if lead then frame_push_native w (w_pc w) else (False, w)")
  have z1: "w_pending_unwinder w1 = UNWINDER_NATIVE"
    using p z frame_push_frame [of w "w_pc w" c w1] by (auto split: if_splits)
  obtain u k1 where nu: "(if m_found (?m w1) \<and> e_interp_enabled env \<and> lead
      then next_unwinder env (m_table_id (?m w1)) (m_rel_pc (?m w1)) (w_interp_done w1) k
      else (UNWINDER_NATIVE, k)) = (u, k1)"
    by (cases "if m_found (?m w1) \<and> e_interp_enabled env \<and> lead
      then next_unwinder env (m_table_id (?m w1)) (m_rel_pc (?m w1)) (w_interp_done w1) k
      else (UNWINDER_NATIVE, k)")
  then have k1: "stats_wf k1" "2 \<le> j \<Longrightarrow> j < 7 \<Longrightarrow> stat k1 j = stat k j"
    using wf next_unwinder_stats by (auto split: if_splits)
  define ht where "ht = (m_found (?m w1) \<and> e_cfi_lengths env (m_table_id (?m w1)) \<noteq> None)"
  define ep where "ep = (if m_found (?m w1)
      then cfi_lookup (e_cfi_rules env) (e_cfi_lengths env) (m_table_id (?m w1)) (m_rel_pc (?m w1)) else None)"
  define w2 where "w2 = (if ep = None \<and> ht then set_flag WALKER_FLAG_CFI_MISS w1 else w1)"
  define k2 where "k2 = (if m_found (?m w1) \<and> \<not> ht
      then emit_cfi_miss env (w_pid w1) (m_table_id (?m w1)) (m_rel_pc (?m w1)) k1 else k1)"
  have e: "unwind_frame env lead (w, k) = (if c then (True, w1, k)
      else if u \<noteq> UNWINDER_NATIVE then (True, w1\<lparr>w_pending_unwinder := u\<rparr>, k_count INTERP_STAT_CLAIMED k1)
      else (case (case ep of Some e \<Rightarrow> dwarf_step env e w2 | None \<Rightarrow> fp_step env w2) of (stop, w) \<Rightarrow> (stop, w, k2)))"
    by (simp only: unwind_frame_def Let_def prod.case p nu ht_def ep_def w2_def k2_def)
  have w2: "w_pending_unwinder w2 = UNWINDER_NATIVE" "k_stats k2 = k_stats k1"
    using z1 by (simp_all add: w2_def k2_def stats_emit_cfi_miss)
  consider "c" "w' = w1" "k' = k"
    | "\<not> c" "u \<noteq> UNWINDER_NATIVE" "w_pending_unwinder w' = u" "k' = k_count INTERP_STAT_CLAIMED k1"
    | "(\<exists>e. dwarf_step env e w2 = (stop, w')) \<or> fp_step env w2 = (stop, w')" "k' = k2"
    using fr e by (cases c; cases "u = UNWINDER_NATIVE"; cases ep) (auto split: prod.splits)
  then have "stats_wf k' \<and> (2 \<le> j \<longrightarrow> j < 7 \<longrightarrow>
      stat k' j = stat k j + (if j = 2 \<and> w_pending_unwinder w' \<noteq> UNWINDER_NATIVE then 1 else 0))"
  proof cases
    case 1
    with wf z1 show ?thesis by simp
  next
    case 2
    with k1 show ?thesis by (simp add: stat_k_count)
  next
    case 3
    with k1 w2 arm_frame(3) [OF 3(1)] show ?thesis by (simp add: stats_wf_def stat_def)
  qed
  then show "stats_wf k'"
    and "2 \<le> j \<Longrightarrow> j < 7 \<Longrightarrow>
      stat k' j = stat k j + (if j = 2 \<and> w_pending_unwinder w' \<noteq> UNWINDER_NATIVE then 1 else 0)"
    by simp_all
qed

text \<open>
  How the loop leaves the walk: over, with no claim, or standing live on a claimed frame that
  is the last frame of the record.
\<close>

definition loop_result :: "walk_env \<Rightarrow> walk_ctx \<Rightarrow> kernel_state \<Rightarrow> walk_ctx \<Rightarrow> kernel_state \<Rightarrow> bool" where
  "loop_result env w k w' k' \<longleftrightarrow> walk_over w' \<and> stats_wf k' \<and> w_pid w' = w_pid w \<and> w_interp_done w' = w_interp_done w \<and>
     (\<exists>xs. w_frames w' = w_frames w @ xs) \<and>
     (\<forall>j. 2 \<le> j \<and> j < 7 \<longrightarrow>
        stat k' j = stat k j + (if j = 2 \<and> w_pending_unwinder w' \<noteq> UNWINDER_NATIVE then 1 else 0)) \<and>
     (w_pending_unwinder w' \<noteq> UNWINDER_NATIVE \<longrightarrow>
        walk_live w' \<and> e_interp_enabled env \<and> (\<exists>fs. w_frames w' = fs @ [Native (w_pc w')]))"

lemma walk_loop_result:
  "\<lbrakk>walk_live w; stats_wf k; w_pending_unwinder w = UNWINDER_NATIVE;
     bpf_loop m (walk_step env) (w, k) = (w', k')\<rbrakk> \<Longrightarrow> loop_result env w k w' k'"
proof (induction m arbitrary: w k)
  case 0
  then show ?case by (auto simp: loop_result_def live_over)
next
  case (Suc m)
  obtain stop w1 k1 where fr: "unwind_frame env True (w, k) = (stop, w1, k1)"
    by (cases "unwind_frame env True (w, k)")
  note st = unwind_frame_stats [OF fr Suc.prems(2,3)]
  show ?case
  proof (cases stop)
    case True
    with fr Suc.prems(4) have e: "w1 = w'" "k1 = k'" by (simp_all add: walk_loop_Suc)
    from fr True e have "unwind_frame env True (w, k) = (True, w', k')" by simp
    note us = unwind_frame_stops [OF Suc.prems(1) this]
    have cl: "w_pending_unwinder w' \<noteq> UNWINDER_NATIVE \<Longrightarrow>
        walk_live w' \<and> e_interp_enabled env \<and> w_frames w' = w_frames w @ [Native (w_pc w')]"
      using us(3) Suc.prems(3) by simp
    have "\<exists>xs. w_frames w' = w_frames w @ xs" using us(2) by blast
    with us(1,4,5) st e cl show ?thesis unfolding loop_result_def by blast
  next
    case False
    from fr False have "unwind_frame env True (w, k) = (False, w1, k1)" by simp
    note uc = unwind_frame_continues [OF Suc.prems(1) this]
    have "bpf_loop m (walk_step env) (w1, k1) = (w', k')"
      using fr False Suc.prems(4) by (simp add: walk_loop_Suc)
    with Suc.IH [of w1 k1] uc st(1) Suc.prems(3) have r: "loop_result env w1 k1 w' k'" by simp
    have s1: "stat k1 j = stat k j" if "2 \<le> j" "j < 7" for j using st(2) [OF that] uc(4) Suc.prems(3) by simp
    have "\<exists>xs. w_frames w' = w_frames w @ xs" using r uc(2) by (auto simp: loop_result_def)
    with r s1 uc(5,6) show ?thesis by (auto simp: loop_result_def)
  qed
qed

section \<open>The ledger of the dispatch counters\<close>

text \<open>
  Since \<open>k0\<close>: every claim was either dispatched or refused for want of budget, and every
  dispatch was either resumed or failed, but for the \<open>e\<close> that are under way.
\<close>

definition ledger :: "kernel_state \<Rightarrow> kernel_state \<Rightarrow> u64 \<Rightarrow> bool" where
  "ledger k0 k e \<longleftrightarrow> stats_wf k \<and>
     stat k 2 - stat k0 2 = (stat k 3 - stat k0 3) + (stat k 5 - stat k0 5) \<and>
     stat k 3 - stat k0 3 = (stat k 6 - stat k0 6) + (stat k 4 - stat k0 4) + e"

lemma ledger_start: "stats_wf k \<Longrightarrow> ledger k k 0"
  by (simp add: ledger_def)

lemma ledger_step:
  assumes "ledger k0 k e" and "stats_wf k'"
    and "\<And>j. 2 \<le> j \<Longrightarrow> j < 7 \<Longrightarrow> stat k' j = stat k j + d j"
    and "d 2 = d 3 + d 5" and "e' + d 4 + d 6 = e + d 3"
  shows "ledger k0 k' e'"
proof -
  have e': "e' = e + d 3 - d 4 - d 6" using assms(5) by (simp add: algebra_simps)
  have "stat k 2 = stat k0 2 + (stat k 3 - stat k0 3) + (stat k 5 - stat k0 5)"
    and "stat k 3 = stat k0 3 + (stat k 6 - stat k0 6) + (stat k 4 - stat k0 4) + e"
    using assms(1) by (simp_all add: ledger_def algebra_simps)
  then show ?thesis
    using assms(2) assms(3) [of 2] assms(3) [of 3] assms(3) [of 4] assms(3) [of 5] assms(3) [of 6]
    by (simp add: ledger_def assms(4) e')
qed

section \<open>The walk inside a program\<close>

lemma walk_load_save [simp]:
  "walk_load (walk_save w st) (w_rec w) = w"
  "walk_load (walk_save w st\<lparr>p_tail_calls := n\<rparr>) (w_rec w) = w"
  "walk_load (walk_save w (st\<lparr>p_stopped := b\<rparr>)) (w_rec w) = w"
  by (simp_all add: walk_load_def walk_save_def)

lemma walk_save_load [simp]: "walk_save (walk_load st r) st = st"
  by (simp add: walk_load_def walk_save_def)

lemma walk_save_frame [simp]:
  "p_interp_scratch (walk_save w st) = p_interp_scratch st" "p_interp_done (walk_save w st) = w_interp_done w"
  "p_pid (walk_save w st) = w_pid w" "p_tail_calls (walk_save w st) = p_tail_calls st"
  "p_stopped (walk_save w st) = p_stopped st" "p_n_pcs (walk_save w st) = w_n_pcs w" "p_pc (walk_save w st) = w_pc w"
  "p_pending_unwinder (walk_save w st) = w_pending_unwinder w" "p_tid (walk_save w st) = p_tid st"
  by (simp_all add: walk_save_def)

lemma walk_load_frame [simp]:
  "w_pid (walk_load st r) = p_pid st" "w_interp_done (walk_load st r) = p_interp_done st"
  "w_pending_unwinder (walk_load st r) = p_pending_unwinder st" "w_n_pcs (walk_load st r) = p_n_pcs st"
  "w_rec (walk_load st r) = r" "w_pc (walk_load st r) = p_pc st"
  by (simp_all add: walk_load_def)

definition resumable :: "walk_persist \<Rightarrow> sample_record \<Rightarrow> bool" where
  "resumable st r \<longleftrightarrow> p_pending_unwinder st = UNWINDER_NATIVE \<and>
     (if p_stopped st = 0 then walk_live (walk_load st r) else walk_over (walk_load st r))"

definition walking :: "walk_persist \<Rightarrow> sample_record \<Rightarrow> bool" where
  "walking st r \<longleftrightarrow> p_pending_unwinder st = UNWINDER_NATIVE \<and> p_stopped st = 0 \<and> walk_live (walk_load st r)"

definition same_module :: "walk_persist \<Rightarrow> walk_persist \<Rightarrow> bool" where
  "same_module st st' \<longleftrightarrow> p_interp_scratch st' = p_interp_scratch st \<and> p_interp_done st' = p_interp_done st \<and>
     p_pid st' = p_pid st \<and> p_tid st' = p_tid st"

definition dispatched :: "kernel_state \<Rightarrow> walk_persist \<Rightarrow> walk_persist \<Rightarrow> sample_record \<Rightarrow> kernel_state \<Rightarrow> bool" where
  "dispatched k st st' r' k' \<longleftrightarrow> walking st' r' \<and> p_tail_calls st < INTERP_TAIL_CALL_BUDGET \<and>
     p_tail_calls st' = p_tail_calls st + 1 \<and> same_module st st' \<and>
     (\<exists>fs. rec_frames r' (p_n_pcs st') = fs @ [Native (p_pc st')]) \<and>
     (\<forall>k0 e. ledger k0 k e \<longrightarrow> ledger k0 k' (e + 1))"

definition returned :: "kernel_state \<Rightarrow> walk_persist \<Rightarrow> walk_persist \<Rightarrow> sample_record \<Rightarrow> kernel_state \<Rightarrow> bool" where
  "returned k st st' r' k' \<longleftrightarrow> walk_over (walk_load st' r') \<and> same_module st st' \<and>
     (\<forall>k0 e. ledger k0 k e \<longrightarrow> ledger k0 k' e)"

lemma walk_return_n:
  assumes "walk_over w"
  shows "walk_return w st k = (Inr (w_n_pcs w), walk_save w st, w_rec w, k)"
proof -
  have "unat (w_n_pcs w) \<le> MAX_FRAMES" using assms by (simp add: walk_over_def w_wf_def rec_wf_def)
  then show ?thesis by (simp add: walk_return_def word_less_nat_alt)
qed

lemma walk_over_pending [simp]: "walk_over (w\<lparr>w_pending_unwinder := u\<rparr>) = walk_over w"
  by (simp add: walk_over_def)

lemma unwind_walk_handoff:
  assumes "p_stopped st = 0" and lp: "bpf_loop MAX_FRAMES (walk_step env) (walk_load st r, k) = (w, k1)"
    and lr: "loop_result env (walk_load st r) k w k1"
    and handoff: "w_pending_unwinder w \<noteq> UNWINDER_NATIVE" "p_tail_calls st < INTERP_TAIL_CALL_BUDGET"
    and uw: "unwind_walk env tc resumed st r k = (out, st', r', k')"
  shows "(\<exists>s. out = Inl s \<and> tc s \<and> s \<noteq> INTERP_SLOT_RESUME_WALK \<and> dispatched k st st' r' k') \<or> (out = Inr (p_n_pcs st') \<and> returned k st st' r' k')"
proof -
  let ?w = "w\<lparr>w_pending_unwinder := UNWINDER_NATIVE\<rparr>" and ?k = "k_count INTERP_STAT_DISPATCHED k1"
  have wfk: "stats_wf k1" and over: "walk_over w" and fr: "w_interp_done w = p_interp_done st" "w_pid w = p_pid st"
    and en: "e_interp_enabled env" and live: "walk_live w" and last: "\<exists>fs. w_frames w = fs @ [Native (w_pc w)]"
    and stt: "\<And>j. 2 \<le> j \<Longrightarrow> j < 7 \<Longrightarrow> stat k1 j = stat k j + (if j = 2 then 1 else 0)"
    using lr handoff by (auto simp: loop_result_def)
  have nb: "\<not> INTERP_TAIL_CALL_BUDGET \<le> p_tail_calls st" using handoff(2) by (simp only: not_le)
  show ?thesis
  proof (cases "tc (INTERP_SLOT_UNWINDER (w_pending_unwinder w))")
    case True
    with uw lp assms(1) handoff en
    have e: "out = Inl (INTERP_SLOT_UNWINDER (w_pending_unwinder w))" "r' = w_rec w" "k' = ?k"
      "st' = walk_save ?w st\<lparr>p_tail_calls := p_tail_calls st + 1\<rparr>"
      using nb by (auto simp: unwind_walk_def Let_def)
    have "\<forall>k0 e. ledger k0 k e \<longrightarrow> ledger k0 ?k (e + 1)"
      using stt wfk by - (intro allI impI, erule ledger_step [where d = "\<lambda>j. if j = 2 \<or> j = 3 then 1 else 0"], auto simp: stat_k_count)
    moreover have "walk_load st' r' = ?w" using walk_load_save(2) [where w = ?w and st = st] by (simp add: e)
    with live have "walking st' r'" using assms(1) by (simp add: walking_def live_pending e)
    ultimately show ?thesis
      using e fr last handoff True by (auto simp: dispatched_def same_module_def w_frames_def INTERP_SLOT_UNWINDER_def)
  next
    case False
    have "walk_over ?w" using over by simp
    then have wr: "walk_return ?w s q = (Inr (w_n_pcs ?w), walk_save ?w s, w_rec ?w, q)" for s q by (rule walk_return_n)
    with False uw lp assms(1) handoff en
    have e: "out = Inr (w_n_pcs w)" "r' = w_rec w" "k' = k_count INTERP_STAT_TAILCALL_FAILED ?k"
      "st' = walk_save ?w (walk_save ?w st\<lparr>p_tail_calls := p_tail_calls st + 1\<rparr>)"
      using nb by (auto simp: unwind_walk_def Let_def)
    have "\<forall>k0 e. ledger k0 k e \<longrightarrow> ledger k0 (k_count INTERP_STAT_TAILCALL_FAILED ?k) e"
      using stt wfk by - (intro allI impI, erule ledger_step [where d = "\<lambda>j. if j = 2 \<or> j = 3 \<or> j = 4 then 1 else 0"], auto simp: stat_k_count)
    moreover have "walk_load st' r' = ?w"
      using walk_load_save(1) [where w = ?w and st = "walk_save ?w st\<lparr>p_tail_calls := p_tail_calls st + 1\<rparr>"] by (simp add: e)
    ultimately show ?thesis using e over fr by (auto simp: returned_def same_module_def)
  qed
qed

lemma unwind_walk_result:
  assumes ok: "resumable st r" and wf: "stats_wf k" and res: "resumed \<or> p_stopped st = 0"
    and uw: "unwind_walk env tc resumed st r k = (out, st', r', k')"
  shows "(\<exists>s. out = Inl s \<and> tc s \<and> s \<noteq> INTERP_SLOT_RESUME_WALK \<and> dispatched k st st' r' k') \<or> (out = Inr (p_n_pcs st') \<and> returned k st st' r' k')"
proof (cases "p_stopped st = 0")
  case False
  with ok have over: "walk_over (walk_load st r)" by (simp add: resumable_def)
  with False res uw show ?thesis
    by (auto simp: unwind_walk_def walk_return_n returned_def same_module_def)
next
  case True
  obtain w k1 where lp: "bpf_loop MAX_FRAMES (walk_step env) (walk_load st r, k) = (w, k1)"
    by (cases "bpf_loop MAX_FRAMES (walk_step env) (walk_load st r, k)")
  have lr: "loop_result env (walk_load st r) k w k1"
    using ok True wf lp by (intro walk_loop_result [where m = MAX_FRAMES]) (auto simp: resumable_def)
  then have wfk: "stats_wf k1" and over: "walk_over w" and fr: "w_interp_done w = p_interp_done st" "w_pid w = p_pid st"
    and stt: "\<And>j. 2 \<le> j \<Longrightarrow> j < 7 \<Longrightarrow>
      stat k1 j = stat k j + (if j = 2 \<and> w_pending_unwinder w \<noteq> UNWINDER_NATIVE then 1 else 0)"
    by (auto simp: loop_result_def)
  consider (plain) "w_pending_unwinder w = UNWINDER_NATIVE"
    | (budget) "w_pending_unwinder w \<noteq> UNWINDER_NATIVE" "\<not> p_tail_calls st < INTERP_TAIL_CALL_BUDGET"
    | (handoff) "w_pending_unwinder w \<noteq> UNWINDER_NATIVE" "p_tail_calls st < INTERP_TAIL_CALL_BUDGET" by blast
  then show ?thesis
  proof cases
    case plain
    have "\<forall>k0 e. ledger k0 k e \<longrightarrow> ledger k0 k1 e"
      using plain stt wfk by - (intro allI impI, erule ledger_step [where d = "\<lambda>j. 0"], auto)
    with plain uw lp True over fr show ?thesis
      by (auto simp: unwind_walk_def Let_def walk_return_n returned_def same_module_def)
  next
    case budget
    have en: "e_interp_enabled env" using lr budget by (simp add: loop_result_def)
    have "\<forall>k0 e. ledger k0 k e \<longrightarrow> ledger k0 (k_count INTERP_STAT_BUDGET k1) e"
      using budget stt wfk
      by - (intro allI impI, erule ledger_step [where d = "\<lambda>j. if j = 2 \<or> j = 5 then 1 else 0"], auto simp: stat_k_count)
    moreover have "INTERP_TAIL_CALL_BUDGET \<le> p_tail_calls st" using budget(2) by (simp only: not_less)
    then have "unwind_walk env tc resumed st r k = walk_return w st (k_count INTERP_STAT_BUDGET k1)"
      using budget en lp True by (simp add: unwind_walk_def)
    ultimately show ?thesis
      using uw over fr by (auto simp: walk_return_n returned_def same_module_def)
  next
    case handoff
    show ?thesis by (rule unwind_walk_handoff [OF True lp lr handoff uw])
  qed
qed

section \<open>The machine\<close>

definition holds_walk :: "('m, 'd) world \<Rightarrow> walk_persist \<Rightarrow> sample_record \<Rightarrow> bool" where
  "holds_walk x st r \<longleftrightarrow> x_states x = [st] \<and> x_records x = [r]"

lemma holds_walk_get [simp]:
  "holds_walk x st r \<Longrightarrow> walk_state_get x = Some st" "holds_walk x st r \<Longrightarrow> walk_record_get x = Some r"
  by (simp_all add: holds_walk_def walk_state_get_def walk_record_get_def)

lemma holds_walk_put [simp]:
  "holds_walk x st r \<Longrightarrow> holds_walk (put_walk st' r' x) st'' r'' \<longleftrightarrow> st'' = st' \<and> r'' = r'"
  "holds_walk (x\<lparr>x_kernel := k\<rparr>) st r = holds_walk x st r" "holds_walk (x\<lparr>x_drv := d\<rparr>) st r = holds_walk x st r"
  "holds_walk (x\<lparr>x_mod := m\<rparr>) st r = holds_walk x st r"
  by (auto simp: holds_walk_def put_walk_def)

lemma put_walk_fields [simp]:
  "x_kernel (put_walk st r x) = x_kernel x" "x_mod (put_walk st r x) = x_mod x" "x_drv (put_walk st r x) = x_drv x"
  by (simp_all add: put_walk_def)

text \<open>The programs userspace installs: the two resume programs, and unwinders anywhere else.\<close>

definition progs_ok :: "(u32 \<Rightarrow> interp_prog option) \<Rightarrow> bool" where
  "progs_ok progs \<longleftrightarrow> progs INTERP_SLOT_RESUME_STEP = Some Interp_resume_step \<and>
     progs INTERP_SLOT_RESUME_WALK = Some Interp_resume_walk \<and>
     (\<forall>s. s \<noteq> INTERP_SLOT_RESUME_STEP \<and> s \<noteq> INTERP_SLOT_RESUME_WALK \<longrightarrow>
        progs s = None \<or> progs s = Some Interp_unwinder)"

text \<open>A walk with \<open>t\<close> round trips behind it, about to walk, or handed to the program of a slot.\<close>

definition at_walk :: "(walk_persist \<Rightarrow> 'm \<Rightarrow> bool) \<Rightarrow> kernel_state \<Rightarrow> 'd \<Rightarrow> nat \<Rightarrow> ('m, 'd) world \<Rightarrow> bool" where
  "at_walk J k0 d t x \<longleftrightarrow> (\<exists>st r. holds_walk x st r \<and> resumable st r \<and> unat (p_tail_calls st) = t \<and>
     J st (x_mod x) \<and> ledger k0 (x_kernel x) 0 \<and> x_drv x = d)"

definition at_handoff :: "(walk_persist \<Rightarrow> 'm \<Rightarrow> bool) \<Rightarrow> kernel_state \<Rightarrow> 'd \<Rightarrow> nat \<Rightarrow> ('m, 'd) world \<Rightarrow> bool" where
  "at_handoff J k0 d t x \<longleftrightarrow> (\<exists>st r. holds_walk x st r \<and> walking st r \<and> unat (p_tail_calls st) = t \<and>
     J st (x_mod x) \<and> ledger k0 (x_kernel x) 1 \<and> x_drv x = d)"

text \<open>
  The sample is finished: the driver's finish ran, once, on the record of a walk that is over
  and with the cursor the walk ended at, and nothing ran after it.
\<close>

definition finished ::
  "'d finish \<Rightarrow> (walk_persist \<Rightarrow> 'm \<Rightarrow> bool) \<Rightarrow> kernel_state \<Rightarrow> 'd \<Rightarrow> ('m, 'd) world \<Rightarrow> bool" where
  "finished fin J k0 d x \<longleftrightarrow> (\<exists>st r k. walk_over (walk_load st r) \<and> J st (x_mod x) \<and> ledger k0 k 0 \<and>
     (case fin (p_n_pcs st) st r k d of (r', k', d') \<Rightarrow> holds_walk x st r' \<and> x_kernel x = k' \<and> x_drv x = d'))"

lemma finishedE:
  assumes "finished fin J k0 d x"
  obtains st r k r' where "walk_over (walk_load st r)" "J st (x_mod x)" "ledger k0 k 0" "holds_walk x st r'"
    "fin (p_n_pcs st) st r k d = (r', x_kernel x, x_drv x)"
proof -
  from assms obtain st r k where f: "walk_over (walk_load st r)" "J st (x_mod x)" "ledger k0 k 0"
    "case fin (p_n_pcs st) st r k d of (r', k', d') \<Rightarrow> holds_walk x st r' \<and> x_kernel x = k' \<and> x_drv x = d'"
    unfolding finished_def by (elim exE conjE)
  show thesis
    by (rule that [OF f(1-3), of "fst (fin (p_n_pcs st) st r k d)"])
      (use f(4) in \<open>cases "fin (p_n_pcs st) st r k d"; simp\<close>)+
qed

lemma walking_resumable: "walking st r \<Longrightarrow> resumable st r"
  by (simp add: walking_def resumable_def)

lemma live_refused: "walk_live (walk_load st r) \<Longrightarrow> same_walk st st' \<Longrightarrow> hdr_ok r r' \<Longrightarrow>
    rec_wf r' (p_n_pcs st') \<Longrightarrow> walk_live (walk_load st' r')"
  by (auto simp: walk_live_def w_wf_def w_flags_def rec_flags_def fp_chain_ended_def hdr_ok_def or_flags_def
      same_walk_def flag_simps) (simp_all add: walk_load_def)

context unwinder_module
begin

lemma driver_walk_step:
  assumes aw: "at_walk J k0 d t x" and res: "resumed \<or> (\<forall>st \<in> set (x_states x). p_stopped st = 0)"
    and dw: "driver_walk env fin tc resumed x = (req, x')"
  shows "(\<exists>s. req = Some s \<and> tc s \<and> s \<noteq> INTERP_SLOT_RESUME_WALK \<and> t < 10 \<and> at_handoff J k0 d (Suc t) x') \<or> (req = None \<and> finished fin J k0 d x')"
proof -
  from aw obtain st r where hw: "holds_walk x st r" and ok: "resumable st r" and t: "unat (p_tail_calls st) = t"
    and J: "J st (x_mod x)" and led: "ledger k0 (x_kernel x) 0" and d: "x_drv x = d"
    by (auto simp: at_walk_def)
  have res': "resumed \<or> p_stopped st = 0" using res hw by (auto simp: holds_walk_def)
  obtain out st' r' k' where uw: "unwind_walk env tc resumed st r (x_kernel x) = (out, st', r', k')"
    by (cases "unwind_walk env tc resumed st r (x_kernel x)")
  have wf: "stats_wf (x_kernel x)" using led by (simp add: ledger_def)
  from unwind_walk_result [OF ok wf res' uw] consider
    (tail) s where "out = Inl s" "tc s \<and> s \<noteq> INTERP_SLOT_RESUME_WALK" "dispatched (x_kernel x) st st' r' k'"
    | (ret) "out = Inr (p_n_pcs st')" "returned (x_kernel x) st st' r' k'" by blast
  then show ?thesis
  proof cases
    case tail
    have "t < 10" using tail(3) t by (simp add: dispatched_def word_less_nat_alt)
    moreover from this have "unat (p_tail_calls st') = Suc t"
      using tail(3) t by (simp add: dispatched_def unat_plus_one_less [where n = 10])
    moreover have "J st' (x_mod x)" using J tail(3) J_native by (auto simp: dispatched_def same_module_def)
    moreover have "ledger k0 k' (0 + 1)" using tail(3) led unfolding dispatched_def by blast
    ultimately show ?thesis
      using dw hw uw tail led d by (auto simp: driver_walk_def at_handoff_def dispatched_def)
  next
    case ret
    have "J st' (x_mod x)" using J ret(2) J_native by (auto simp: returned_def same_module_def)
    then show ?thesis
      using dw hw uw ret led d
      by (auto simp: driver_walk_def finished_def returned_def split: prod.splits
          intro!: exI [of _ st'] exI [of _ r'] exI [of _ k'])
  qed
qed

lemma interp_entry_step:
  assumes "at_handoff J k0 d t x" and "tc INTERP_SLOT_RESUME_STEP" and "interp_entry dispatch_fn tc x = (req, x')"
  shows "req = Some INTERP_SLOT_RESUME_STEP \<and> at_handoff J k0 d t x'"
proof -
  from assms(1) obtain st r where hw: "holds_walk x st r" and ok: "walking st r" and t: "unat (p_tail_calls st) = t"
    and J: "J st (x_mod x)" and led: "ledger k0 (x_kernel x) 1" and d: "x_drv x = d"
    by (auto simp: at_handoff_def)
  obtain st' r' m' where sg: "dispatch_fn st r (x_mod x) = (st', r', m')" by (cases "dispatch_fn st r (x_mod x)")
  have wf: "rec_wf r (p_n_pcs st)" using ok by (simp add: walking_def walk_live_def w_wf_def)
  note c = dispatch_walk [OF J wf sg] dispatch_wf [OF J wf sg] dispatch_J [OF J wf sg]
  let ?st = "st'\<lparr>p_pending_unwinder := UNWINDER_NATIVE\<rparr>"
  have "walk_live (walk_load st' r')" using live_refused [of st r st' r'] ok c by (simp add: walking_def)
  moreover have "walk_load ?st r' = (walk_load st' r')\<lparr>w_pending_unwinder := UNWINDER_NATIVE\<rparr>"
    by (simp add: walk_load_def)
  ultimately have "walking ?st r'" using ok c by (simp add: walking_def live_pending same_walk_def)
  moreover have "J ?st m'" using J_native [OF c(3)] by simp
  ultimately show ?thesis
    using assms(2,3) hw sg t led d c(1)
    by (auto simp: interp_entry_def interp_return_to_native_def at_handoff_def same_walk_def)
qed

lemma resume_step_step:
  assumes "at_handoff J k0 d t x" and "tc INTERP_SLOT_RESUME_WALK" and "interp_resume_step env tc x = (req, x')"
  shows "req = Some INTERP_SLOT_RESUME_WALK \<and> at_walk J k0 d t x'"
proof -
  from assms(1) obtain st r where hw: "holds_walk x st r" and ok: "walking st r" and t: "unat (p_tail_calls st) = t"
    and J: "J st (x_mod x)" and led: "ledger k0 (x_kernel x) 1" and d: "x_drv x = d"
    by (auto simp: at_handoff_def)
  let ?k = "k_count INTERP_STAT_RESUMED (x_kernel x)"
  have wf: "stats_wf ?k" using led by (simp add: ledger_def)
  have led': "ledger k0 ?k 0"
    by (rule ledger_step [OF led, where d = "\<lambda>j. if j = 6 then 1 else 0"]) (use wf in \<open>auto simp: stat_k_count\<close>)
  obtain stop w k' where fr: "unwind_frame env False (walk_load st r, ?k) = (stop, w, k')"
    by (cases "unwind_frame env False (walk_load st r, ?k)")
  have live: "walk_live (walk_load st r)" and z: "w_pending_unwinder (walk_load st r) = UNWINDER_NATIVE"
    using ok by (simp_all add: walking_def)
  have w: "w_pending_unwinder w = UNWINDER_NATIVE" "w_pid w = p_pid st" "w_interp_done w = p_interp_done st"
    "if stop then walk_over w else walk_live w"
    using unwind_frame_stops(1,3-5) [OF live, of env False ?k w k']
      unwind_frame_continues(1,4-6) [OF live, of env False ?k w k'] fr z
    by (cases stop; simp; blast)+
  have led2: "ledger k0 k' 0"
    by (rule ledger_step [OF led', where d = "\<lambda>j. 0"])
      (use unwind_frame_stats [OF fr wf z] w(1) in auto)
  let ?st = "walk_save w (if stop then st\<lparr>p_stopped := 1\<rparr> else st)"
  have "resumable ?st (w_rec w)"
    using w ok by (auto simp: resumable_def walking_def)
  moreover have "J ?st (x_mod x)" using J_native [OF J, of ?st] w by (auto split: if_splits)
  moreover have "unat (p_tail_calls ?st) = t" using t by simp
  ultimately show ?thesis
    using assms(2,3) hw fr led2 d by (auto simp: interp_resume_step_def Let_def at_walk_def)
qed

end

section \<open>Every sample is finished within the kernel's allowance\<close>

lemma callable_pos: "0 < m \<Longrightarrow> 0 < n \<Longrightarrow> callable progs m = callable progs n"
  by (rule ext) (simp add: callable_def)

lemma callable_resume: "progs_ok progs \<Longrightarrow> 0 < n \<Longrightarrow> callable progs n INTERP_SLOT_RESUME_STEP \<and>
    callable progs n INTERP_SLOT_RESUME_WALK"
  by (simp add: progs_ok_def callable_def)

text \<open>With the budget spent the walk makes no tail call, so it does not depend on whether one could happen.\<close>

lemma unwind_walk_spent:
  "\<not> p_tail_calls st < INTERP_TAIL_CALL_BUDGET \<Longrightarrow>
     unwind_walk env tc resumed st r k = unwind_walk env tc' resumed st r k"
  by (simp add: unwind_walk_def Let_def split: prod.split)

lemma driver_walk_spent:
  "at_walk J k0 d t x \<Longrightarrow> 10 \<le> t \<Longrightarrow> driver_walk env fin tc resumed x = driver_walk env fin tc' resumed x"
proof -
  assume "at_walk J k0 d t x" "10 \<le> t"
  then obtain st r where hw: "holds_walk x st r" and "\<not> p_tail_calls st < INTERP_TAIL_CALL_BUDGET"
    by (auto simp: at_walk_def word_less_nat_alt)
  from unwind_walk_spent [OF this(2), of env tc resumed r "x_kernel x" tc'] show ?thesis
    by (simp only: driver_walk_def holds_walk_get [OF hw] prod.case option.case)
qed

lemma run_tail_Suc:
  "progs s = Some p \<Longrightarrow> run_tail env fin seg progs (Suc rem) (Some s, x) =
     run_tail env fin seg progs rem (exec_prog env fin seg (callable progs rem) p x)"
  by simp

lemmas exec_prog_simps = exec_prog_def interp_prog.case interp_resume_walk_def

context unwinder_module
begin

text \<open>One round trip: out to the unwinder, to the resume step and to the resume walk.\<close>

text \<open>The hops of a round trip: from the resume program to the walk, and from an interpreter to the resume program.\<close>

lemma resume_hop:
  assumes "at_handoff J k0 d t x" and ok: "progs_ok progs"
  obtains x2 where "at_walk J k0 d t x2"
    "\<And>n. 2 \<le> n \<Longrightarrow> run_tail env fin dispatch_fn progs n (Some INTERP_SLOT_RESUME_STEP, x) =
       run_tail env fin dispatch_fn progs (n - 2) (driver_walk env fin (callable progs (n - 2)) True x2)"
proof -
  have p: "progs INTERP_SLOT_RESUME_STEP = Some Interp_resume_step" "progs INTERP_SLOT_RESUME_WALK = Some Interp_resume_walk"
    using ok by (simp_all add: progs_ok_def)
  obtain x2 where x2: "interp_resume_step env (callable progs 1) x = (Some INTERP_SLOT_RESUME_WALK, x2)" "at_walk J k0 d t x2"
    using resume_step_step [OF assms(1), of "callable progs 1" env] callable_resume [OF ok, of 1]
    by (cases "interp_resume_step env (callable progs 1) x") auto
  have "run_tail env fin dispatch_fn progs n (Some INTERP_SLOT_RESUME_STEP, x) =
      run_tail env fin dispatch_fn progs (n - 2) (driver_walk env fin (callable progs (n - 2)) True x2)" if n2: "2 \<le> n" for n
  proof -
    from le_Suc_ex [OF n2] obtain m where "n = 2 + m" ..
    then have n: "n = Suc (Suc m)" and m: "n - 2 = m" by simp_all
    have c: "callable progs (Suc m) = callable progs 1" by (rule callable_pos) simp_all
    show ?thesis by (simp only: n [symmetric] m) (simp only: n run_tail_Suc [of progs, OF p(1)] run_tail_Suc [of progs, OF p(2)] exec_prog_simps c x2(1))
  qed
  with x2(2) show thesis by (intro that) auto
qed

lemma round_trip:
  assumes ah: "at_handoff J k0 d t x" and ok: "progs_ok progs" and s: "progs s \<noteq> None" "s \<noteq> INTERP_SLOT_RESUME_WALK"
    and rem: "3 \<le> rem"
  obtains x' rem' where "rem \<le> rem' + 3" "rem' + 2 \<le> rem" "at_walk J k0 d t x'"
    "\<And>n. 3 \<le> n \<Longrightarrow> run_tail env fin dispatch_fn progs n (Some s, x) =
       run_tail env fin dispatch_fn progs (n - (rem - rem'))
         (driver_walk env fin (callable progs (n - (rem - rem'))) True x')"
proof (cases "s = INTERP_SLOT_RESUME_STEP")
  case True
  obtain x2 where x2: "at_walk J k0 d t x2"
      "\<And>n. 2 \<le> n \<Longrightarrow> run_tail env fin dispatch_fn progs n (Some INTERP_SLOT_RESUME_STEP, x) =
         run_tail env fin dispatch_fn progs (n - 2) (driver_walk env fin (callable progs (n - 2)) True x2)"
    using resume_hop [OF ah ok, of env fin] by metis
  then show thesis using rem True by (intro that [of "rem - 2" x2]) auto
next
  case False
  then have pu: "progs s = Some Interp_unwinder" using ok s by (auto simp: progs_ok_def)
  obtain req x1 where e1: "interp_entry dispatch_fn (callable progs 2) x = (req, x1)"
    by (cases "interp_entry dispatch_fn (callable progs 2) x")
  have x1: "req = Some INTERP_SLOT_RESUME_STEP" "at_handoff J k0 d t x1"
    using interp_entry_step [OF ah _ e1] callable_resume [OF ok, of 2] by auto
  obtain x2 where x2: "at_walk J k0 d t x2"
      "\<And>n. 2 \<le> n \<Longrightarrow> run_tail env fin dispatch_fn progs n (Some INTERP_SLOT_RESUME_STEP, x1) =
         run_tail env fin dispatch_fn progs (n - 2) (driver_walk env fin (callable progs (n - 2)) True x2)"
    using resume_hop [OF x1(2) ok, of env fin] by metis
  have "run_tail env fin dispatch_fn progs n (Some s, x) =
      run_tail env fin dispatch_fn progs (n - 3) (driver_walk env fin (callable progs (n - 3)) True x2)" if "3 \<le> n" for n
  proof -
    from le_Suc_ex [OF that] obtain m where "n = 3 + m" ..
    then have n: "n = Suc (Suc (Suc m))" by simp
    have c: "callable progs (Suc (Suc m)) = callable progs 2" by (rule callable_pos) simp_all
    have "run_tail env fin dispatch_fn progs n (Some s, x) = run_tail env fin dispatch_fn progs (Suc (Suc m)) (Some INTERP_SLOT_RESUME_STEP, x1)"
      by (simp only: n run_tail_Suc [of progs, OF pu] exec_prog_simps c e1 x1(1))
    then show ?thesis using x2(2) [of "Suc (Suc m)"] by (simp add: n numeral_3_eq_3)
  qed
  then show thesis using rem x2(1) by (intro that [of "rem - 3" x2]) auto
qed

lemma run_from_walk:
  assumes ok: "progs_ok progs"
  shows "\<lbrakk>at_walk J k0 d t x; t + b = 10; 3 * b \<le> rem; resumed \<or> (\<forall>st \<in> set (x_states x). p_stopped st = 0)\<rbrakk> \<Longrightarrow>
    finished fin J k0 d (run_tail env fin dispatch_fn progs rem (driver_walk env fin (callable progs rem) resumed x)) \<and>
    run_tail env fin dispatch_fn progs rem (driver_walk env fin (callable progs rem) resumed x) =
    run_tail env fin dispatch_fn progs (3 * b) (driver_walk env fin (callable progs (3 * b)) resumed x)"
proof (induction b arbitrary: t x rem resumed)
  case 0
  have sp: "driver_walk env fin (callable progs rem) resumed x = driver_walk env fin (callable progs (3 * 0)) resumed x"
    using 0 by (intro driver_walk_spent [where t = t]) auto
  obtain req x' where dw: "driver_walk env fin (callable progs rem) resumed x = (req, x')"
    by (cases "driver_walk env fin (callable progs rem) resumed x")
  from driver_walk_step [OF "0.prems"(1,4) dw] "0.prems"(2) have "req = None" "finished fin J k0 d x'" by auto
  with dw sp show ?case by simp
next
  case (Suc b)
  let ?n = "3 * Suc b"
  have cp: "callable progs rem = callable progs ?n" using Suc.prems(3) by (intro callable_pos) auto
  obtain req x' where dw: "driver_walk env fin (callable progs rem) resumed x = (req, x')"
    by (cases "driver_walk env fin (callable progs rem) resumed x")
  note dn = dw [unfolded cp]
  from driver_walk_step [OF Suc.prems(1,4) dw] consider
    (tail) s where "req = Some s" "callable progs rem s" "s \<noteq> INTERP_SLOT_RESUME_WALK" "at_handoff J k0 d (Suc t) x'"
    | (over) "req = None" "finished fin J k0 d x'" by blast
  then show ?case
  proof cases
    case over
    then show ?thesis by (simp only: dw dn) simp
  next
    case tail
    have r3: "3 \<le> rem" and n3: "3 \<le> ?n" and ps: "progs s \<noteq> None"
      using Suc.prems(3) tail(2) by (auto simp: callable_def)
    obtain y rem' where y: "rem \<le> rem' + 3" "rem' + 2 \<le> rem" "at_walk J k0 d (Suc t) y"
      "\<And>n. 3 \<le> n \<Longrightarrow> run_tail env fin dispatch_fn progs n (Some s, x') =
         run_tail env fin dispatch_fn progs (n - (rem - rem'))
           (driver_walk env fin (callable progs (n - (rem - rem'))) True y)"
      using round_trip [OF tail(4) ok ps tail(3) r3, of env fin] by metis
    have n: "?n = 3 * b + 3" by simp
    have b: "Suc t + b = 10" "3 * b \<le> rem'" "3 * b \<le> ?n - (rem - rem')"
      using Suc.prems(2,3) y(1,2) unfolding n by linarith+
    have e: "rem - (rem - rem') = rem'" using y(2) by simp
    note run_rem = y(4) [OF r3, unfolded e] and run_n = y(4) [OF n3]
    have ih: "finished fin J k0 d (run_tail env fin dispatch_fn progs rem' (driver_walk env fin (callable progs rem') True y))"
      "run_tail env fin dispatch_fn progs rem' (driver_walk env fin (callable progs rem') True y) =
        run_tail env fin dispatch_fn progs (3 * b) (driver_walk env fin (callable progs (3 * b)) True y)"
      using Suc.IH [OF y(3) b(1,2), of True] by auto
    have ih': "run_tail env fin dispatch_fn progs (?n - (rem - rem'))
        (driver_walk env fin (callable progs (?n - (rem - rem'))) True y) =
        run_tail env fin dispatch_fn progs (3 * b) (driver_walk env fin (callable progs (3 * b)) True y)"
      using Suc.IH [OF y(3) b(1,3), of True] by blast
    show ?thesis unfolding dw dn tail(1) run_rem run_n by (intro conjI ih(1) trans [OF ih(2) ih' [symmetric]])
  qed
qed

end

section \<open>Samples\<close>

definition begin_sample ::
  "u32 \<Rightarrow> u32 \<Rightarrow> u64 \<Rightarrow> u64 \<Rightarrow> u64 \<Rightarrow> ('m, 'd) world \<Rightarrow> ('m, 'd) world" where
  "begin_sample pid tid pc fp sp x =
     (case (walk_state_get x, walk_record_get x) of
        (Some st, Some r) \<Rightarrow> let (st, r) = unwind_walk_begin pid tid pc fp sp st r in put_walk st r x
      | _ \<Rightarrow> x)"

definition world_ok :: "('m, 'd) world \<Rightarrow> bool" where
  "world_ok x \<longleftrightarrow> (\<exists>st r. holds_walk x st r \<and> length (pcs r) = MAX_FRAMES \<and> length (tags r) = MAX_FRAMES) \<and>
     stats_wf (x_kernel x)"

text \<open>The law of the Python module together with the thread the sample belongs to.\<close>

definition py_law :: "py_env \<Rightarrow> py_mod \<Rightarrow> u32 \<Rightarrow> u32 \<Rightarrow> walk_persist \<Rightarrow> py_mod \<Rightarrow> bool" where
  "py_law yenv m0 pid tid st m \<longleftrightarrow> cnt m0 9 < - 1 \<and> py_sample_inv yenv m0 st m \<and> p_pid st = pid \<and> p_tid st = tid"

interpretation pylaw: unwinder_module "py_walk_segment yenv" "py_law yenv m0 pid tid" for yenv m0 pid tid
proof
  fix st r m st' r' m'
  assume law: "py_law yenv m0 pid tid st m" and wf: "rec_wf r (p_n_pcs st)"
    and w: "py_walk_segment yenv st r m = (st', r', m')"
  then have J: "cnt m0 9 < - 1 \<and> py_sample_inv yenv m0 st m" by (simp add: py_law_def)
  show sw: "same_walk st st' \<and> hdr_ok r r'" by (rule pymod.dispatch_walk [OF J wf w])
  show "rec_wf r' (p_n_pcs st')" by (rule pymod.dispatch_wf [OF J wf w])
  show "\<exists>xs. rec_frames r' (p_n_pcs st') = rec_frames r (p_n_pcs st) @ xs" by (rule pymod.dispatch_appends [OF J wf w])
  show "py_law yenv m0 pid tid st' m'"
    using pymod.dispatch_J [OF J wf w] pymod.dispatch_owner [OF J wf w] law by (simp add: py_law_def)
next
  fix st st' :: walk_persist and m
  assume "py_law yenv m0 pid tid st m" "p_interp_scratch st' = p_interp_scratch st"
    "p_interp_done st' = p_interp_done st" "p_pid st' = p_pid st" "p_tid st' = p_tid st"
  then show "py_law yenv m0 pid tid st' m" using py_sample_inv_native by (auto simp: py_law_def)
qed

lemma begin_at_walk:
  assumes "world_ok x"
    and "\<And>st. p_interp_scratch st = [0, 0, 0, 0] \<Longrightarrow> p_interp_done st = 0 \<Longrightarrow>
      p_pid st = pid \<Longrightarrow> p_tid st = tid \<Longrightarrow> J st (x_mod x)"
  shows "at_walk J (x_kernel x) (x_drv x) 0 (begin_sample pid tid pc fp sp x)"
    and "\<forall>st \<in> set (x_states (begin_sample pid tid pc fp sp x)). p_stopped st = 0"
proof -
  from assms(1) obtain st r where hw: "holds_walk x st r" and len: "length (pcs r) = MAX_FRAMES" "length (tags r) = MAX_FRAMES"
    and wf: "stats_wf (x_kernel x)" by (auto simp: world_ok_def)
  obtain st' r' where b: "unwind_walk_begin pid tid pc fp sp st r = (st', r')"
    by (cases "unwind_walk_begin pid tid pc fp sp st r")
  then have e: "begin_sample pid tid pc fp sp x = put_walk st' r' x" using hw by (simp add: begin_sample_def)
  have "resumable st' r'" "p_tail_calls st' = 0" "p_interp_scratch st' = [0, 0, 0, 0]" "p_interp_done st' = 0" "p_stopped st' = 0"
    "p_pid st' = pid" "p_tid st' = tid"
    using b len by (auto simp: unwind_walk_begin_def resumable_def walk_live_def w_wf_def w_flags_def rec_flags_def
        fp_chain_ended_def rec_wf_zero)
  with hw wf assms(2) [of st'] show "at_walk J (x_kernel x) (x_drv x) 0 (begin_sample pid tid pc fp sp x)"
    by (auto simp: e at_walk_def ledger_start)
  show "\<forall>st \<in> set (x_states (begin_sample pid tid pc fp sp x)). p_stopped st = 0"
    using hw \<open>p_stopped st' = 0\<close> by (auto simp: e put_walk_def holds_walk_def)
qed

lemma py_sample_finished:
  assumes "world_ok x" "py_mod_wf (x_mod x)" "cnt (x_mod x) 9 < - 1" "progs_ok progs" "30 \<le> rem"
  shows "finished fin (py_law yenv (x_mod x) pid tid) (x_kernel x) (x_drv x)
      (run_sample env fin (py_walk_segment yenv) progs rem (begin_sample pid tid pc fp sp x))"
    and "run_sample env fin (py_walk_segment yenv) progs rem (begin_sample pid tid pc fp sp x) =
      run_sample env fin (py_walk_segment yenv) progs 30 (begin_sample pid tid pc fp sp x)"
proof -
  let ?x = "begin_sample pid tid pc fp sp x"
  have J: "py_law yenv (x_mod x) pid tid st (x_mod x)"
    if "p_interp_scratch st = [0, 0, 0, 0]" "p_interp_done st = 0" "p_pid st = pid" "p_tid st = tid" for st
    unfolding py_law_def by (intro conjI assms(3) py_sample_inv_start that assms(2))
  have b: "at_walk (py_law yenv (x_mod x) pid tid) (x_kernel x) (x_drv x) 0 ?x"
    by (rule begin_at_walk(1) [OF assms(1)]) (rule J)
  have s: "False \<or> (\<forall>st \<in> set (x_states ?x). p_stopped st = 0)"
    by (rule disjI2, rule begin_at_walk(2) [where J = "py_law yenv (x_mod x) pid tid", OF assms(1)]) (rule J)
  have n: "0 + 10 = (10 :: nat)" "3 * 10 \<le> rem" using assms(5) by simp_all
  note r = pylaw.run_from_walk [OF assms(4) b n s, of fin env]
  show "finished fin (py_law yenv (x_mod x) pid tid) (x_kernel x) (x_drv x)
      (run_sample env fin (py_walk_segment yenv) progs rem ?x)"
    using conjunct1 [OF r] by (simp only: run_sample_def)
  have "(3 * 10 :: nat) = 30" by simp
  then show "run_sample env fin (py_walk_segment yenv) progs rem ?x = run_sample env fin (py_walk_segment yenv) progs 30 ?x"
    using conjunct2 [OF r] by (simp only: run_sample_def)
qed

section \<open>Properties of the machine\<close>

text \<open>
  C1: every sample is finished by its driver exactly once. Whatever the process memory, the
  tables and the claims are, and for any kernel allowance of at least 30 tail calls (the
  kernel's is 33), the walk ends within the round-trip budget and the driver's finish runs on a
  well-formed record whose cursor fits the header's eight-bit count.
\<close>

theorem sample_finished_once:
  assumes "world_ok x" and "py_mod_wf (x_mod x)" and "cnt (x_mod x) 9 < - 1" and "progs_ok progs" and "30 \<le> rem"
    and "y = run_sample env fin (py_walk_segment yenv) progs rem (begin_sample pid tid pc fp sp x)"
  shows "\<exists>st r k r'. rec_wf r (p_n_pcs st) \<and> unat (ucast (p_n_pcs st) :: u8) = unat (p_n_pcs st) \<and>
    fin (p_n_pcs st) st r k (x_drv x) = (r', x_kernel y, x_drv y) \<and> holds_walk y st r'"
proof -
  obtain st r k r' where o: "walk_over (walk_load st r)" and hw: "holds_walk y st r'"
    and f: "fin (p_n_pcs st) st r k (x_drv x) = (r', x_kernel y, x_drv y)"
    by (rule finishedE [OF py_sample_finished(1) [OF assms(1-5), of fin yenv pid tid env pc fp sp]]) (use assms(6) in blast)
  have wf: "rec_wf r (p_n_pcs st)" using o by (simp add: walk_over_def w_wf_def)
  then have "unat (p_n_pcs st) \<le> MAX_FRAMES" by (simp add: rec_wf_def)
  then have "unat (ucast (p_n_pcs st) :: u8) = unat (p_n_pcs st)"
    by (simp add: unsigned_ucast_eq take_bit_nat_eq_self)
  with wf f hw show ?thesis by blast
qed

text \<open>
  C23: the kernel's silent tail-call limit never shapes a sample. The run with any allowance of at
  least 30 is the run with 30, so the three calls of headroom under the limit are real and no
  sample is truncated by it.
\<close>

theorem kernel_limit_never_reached:
  assumes "world_ok x" and "py_mod_wf (x_mod x)" and "cnt (x_mod x) 9 < - 1" and "progs_ok progs" and "30 \<le> rem"
  shows "run_sample env fin (py_walk_segment yenv) progs rem (begin_sample pid tid pc fp sp x) =
    run_sample env fin (py_walk_segment yenv) progs 30 (begin_sample pid tid pc fp sp x)"
  by (rule py_sample_finished(2) [OF assms])

text \<open>
  The flags a finished sample carries say at most one way the walk ended, a disagreement
  about the root only after the frame-pointer chain ended, and no failure bit after it did.
\<close>

theorem sample_ending_flags:
  assumes "world_ok x" and "py_mod_wf (x_mod x)" and "cnt (x_mod x) 9 < - 1" and "progs_ok progs" and "30 \<le> rem"
    and "\<And>n st r k d. rec_flags (fst (fin n st r k d)) = rec_flags r"
  shows "\<exists>st r. holds_walk (run_sample env fin (py_walk_segment yenv) progs rem (begin_sample pid tid pc fp sp x)) st r \<and>
    ending_ok (rec_flags r)"
proof (rule finishedE [OF py_sample_finished(1) [OF assms(1-5), of fin yenv pid tid env pc fp sp]])
  let ?y = "run_sample env fin (py_walk_segment yenv) progs rem (begin_sample pid tid pc fp sp x)"
  fix st r k r'
  assume "walk_over (walk_load st r)" and hw: "holds_walk ?y st r'"
    and f: "fin (p_n_pcs st) st r k (x_drv x) = (r', x_kernel ?y, x_drv ?y)"
  then have "ending_ok (rec_flags r)" by (simp add: walk_over_def w_flags_def)
  moreover have "rec_flags r' = rec_flags r" using assms(6) [of "p_n_pcs st" st r k "x_drv x"] f by simp
  ultimately show ?thesis using hw by metis
qed

text \<open>
  C24: the dispatch counters of a sample add up. Every frame an unwinder claimed was either
  dispatched or counted against the budget, and every dispatch was either handed back or
  counted as a failed tail call; none is unaccounted for.
\<close>

theorem dispatch_counters_balance:
  assumes "world_ok x" and "py_mod_wf (x_mod x)" and "cnt (x_mod x) 9 < - 1" and "progs_ok progs" and "30 \<le> rem"
    and "\<And>n st r k d. k_stats (fst (snd (fin n st r k d))) = k_stats k"
    and "k = x_kernel (run_sample env fin (py_walk_segment yenv) progs rem (begin_sample pid tid pc fp sp x))"
    and "k0 = x_kernel x"
  shows "stat k 2 - stat k0 2 = (stat k 3 - stat k0 3) + (stat k 5 - stat k0 5) \<and>
    stat k 3 - stat k0 3 = (stat k 6 - stat k0 6) + (stat k 4 - stat k0 4)"
proof (rule finishedE [OF py_sample_finished(1) [OF assms(1-5), of fin yenv pid tid env pc fp sp]])
  let ?y = "run_sample env fin (py_walk_segment yenv) progs rem (begin_sample pid tid pc fp sp x)"
  fix st r k1 r'
  assume l: "ledger (x_kernel x) k1 0" and f: "fin (p_n_pcs st) st r k1 (x_drv x) = (r', x_kernel ?y, x_drv ?y)"
  have "stat k j = stat k1 j" for j
    using f assms(6) [of "p_n_pcs st" st r k1 "x_drv x"] by (simp add: stat_def assms(7))
  with l show ?thesis by (simp add: ledger_def assms(8))
qed

text \<open>
  The unit rule of the Python counters holds for the samples the machine really runs, with
  the driver, the budget and the resume programs in between: each failure counter moves by at
  most one per sample, and the abandoned-chain counter by exactly zero or one.
\<close>

theorem python_counters_per_machine_sample:
  assumes "world_ok x" and "py_mod_wf (x_mod x)" and "cnt (x_mod x) 9 < - 1" and "progs_ok progs" and "30 \<le> rem"
    and "m = x_mod (run_sample env fin (py_walk_segment yenv) progs rem (begin_sample pid tid pc fp sp x))"
  shows "(\<lambda>j. cnt m j - cnt (x_mod x) j) ` {1..8} \<subseteq> {0, 1} \<and> cnt m 9 - cnt (x_mod x) 9 \<in> {0, 1}"
proof (rule finishedE [OF py_sample_finished(1) [OF assms(1-5), of fin yenv pid tid env pc fp sp]])
  fix st
  assume "py_law yenv (x_mod x) pid tid st (x_mod (run_sample env fin (py_walk_segment yenv) progs rem (begin_sample pid tid pc fp sp x)))"
  then have i: "py_sample_inv yenv (x_mod x) st m" by (simp add: py_law_def assms(6))
  have "cnt m j - cnt (x_mod x) j \<in> {0, 1}" if "1 \<le> j" "j \<le> 8" for j
  proof -
    have "j < 9" "j \<noteq> 0" using that by auto
    with i have "cnt m j = cnt (x_mod x) j \<or> cnt m j = cnt (x_mod x) j + 1" by (simp add: py_sample_inv_def) blast
    then show ?thesis by auto
  qed
  moreover have "cnt m 9 - cnt (x_mod x) 9 \<in> {0, 1}" using i by (simp add: py_sample_inv_def)
  ultimately show ?thesis by force
qed

text \<open>
  A handoff happens exactly at the claimed frame. When the walk tail-calls an unwinder, the
  last frame of the record is the native frame that unwinder claimed, the registers still stand
  on it, no handoff is pending in the saved state, and everything recorded before is in place,
  so the frames the unwinder appends land immediately after it.
\<close>

theorem handoff_at_claimed_frame:
  assumes "resumable st r" and "stats_wf k" and "resumed \<or> p_stopped st = 0"
    and "unwind_walk env tc resumed st r k = (Inl s, st', r', k')"
  shows "(\<exists>fs. rec_frames r' (p_n_pcs st') = fs @ [Native (p_pc st')]) \<and> rec_wf r' (p_n_pcs st') \<and>
    p_pending_unwinder st' = UNWINDER_NATIVE \<and> p_tail_calls st' = p_tail_calls st + 1 \<and>
    p_tail_calls st' \<le> INTERP_TAIL_CALL_BUDGET"
proof -
  have d: "dispatched k st st' r' k'" using unwind_walk_result [OF assms] by simp
  then have "unat (p_tail_calls st) < 10" and e: "p_tail_calls st' = p_tail_calls st + 1"
    by (simp_all add: dispatched_def word_less_nat_alt)
  then have "unat (p_tail_calls st') \<le> 10" by (simp add: unat_plus_one_less [where n = 10])
  with d e show ?thesis by (auto simp: dispatched_def walking_def walk_live_def w_wf_def word_le_nat_alt)
qed

text \<open>
  With the resume-step slot empty, a sample that is handed to an unwinder is never finished:
  the driver's state is untouched, nothing is emitted and nothing is counted, so the sample is
  not one that stopped early but one that is lost.
\<close>

theorem handoff_without_resume_slot_loses_sample:
  assumes "progs INTERP_SLOT_RESUME_STEP = None" and "progs s = Some Interp_unwinder" and "holds_walk x st r"
  shows "x_drv (run_tail env fin seg progs rem (Some s, x)) = x_drv x \<and>
    x_kernel (run_tail env fin seg progs rem (Some s, x)) = x_kernel x"
proof (cases rem)
  case (Suc n)
  have "\<not> callable progs n INTERP_SLOT_RESUME_STEP" using assms(1) by (simp add: callable_def)
  then show ?thesis
    using assms(2,3) Suc
    by (simp add: exec_prog_def interp_entry_def interp_return_to_native_def split: prod.split)
qed simp

section \<open>A concrete machine\<close>

definition demo_progs :: "u32 \<Rightarrow> interp_prog option" where
  "demo_progs = [0 \<mapsto> Interp_resume_step, 1 \<mapsto> Interp_resume_walk, 2 \<mapsto> Interp_unwinder]"

definition demo_world :: "(py_mod, nat) world" where
  "demo_world = \<lparr>x_states = [py_demo_st], x_records = [empty_record], x_kernel = demo_kernel, x_mod = py_demo_mod, x_drv = 0\<rparr>"

definition demo_fin :: "nat finish" where
  "demo_fin n st r k d = (r, k, Suc d)"

lemma demo_world_ok: "world_ok demo_world" "py_mod_wf (x_mod demo_world)" "cnt (x_mod demo_world) 9 < - 1" "progs_ok demo_progs"
  using demo_mod_wf
  by (simp_all add: world_ok_def holds_walk_def demo_world_def empty_record_def stats_wf_def demo_kernel_def
      progs_ok_def demo_progs_def)

lemma le_30_33: "(30 :: nat) \<le> MAX_TAIL_CALL_CNT"
  by simp

text \<open>A walk that stands on a claimed frame: binary 3 is mapped at 0, and its span 16 to 32 is claimed.\<close>

definition handoff_env :: walk_env where
  "handoff_env = claim_env\<lparr>e_interp_enabled := True, e_pid_mappings := [9 \<mapsto> [\<lparr>vma_start = 0, vma_end = 64, load_bias = 0,
     pm_table_id = 3\<rparr>]], e_pid_mapping_lengths := [9 \<mapsto> 1]\<rparr>"

definition handoff_st :: walk_persist where
  "handoff_st = py_demo_st\<lparr>p_pc := 20, p_fp := 0x1000\<rparr>"

theorem sample_finished_once_witness:
  "\<exists>st r k r'. rec_wf r (p_n_pcs st) \<and> unat (ucast (p_n_pcs st) :: u8) = unat (p_n_pcs st) \<and>
    demo_fin (p_n_pcs st) st r k (x_drv demo_world) =
      (r', x_kernel (run_sample handoff_env demo_fin (py_walk_segment py_demo_env) demo_progs MAX_TAIL_CALL_CNT
             (begin_sample 9 9 20 0x1000 0xFF0 demo_world)),
       x_drv (run_sample handoff_env demo_fin (py_walk_segment py_demo_env) demo_progs MAX_TAIL_CALL_CNT
             (begin_sample 9 9 20 0x1000 0xFF0 demo_world))) \<and>
    holds_walk (run_sample handoff_env demo_fin (py_walk_segment py_demo_env) demo_progs MAX_TAIL_CALL_CNT
             (begin_sample 9 9 20 0x1000 0xFF0 demo_world)) st r'"
  by (rule sample_finished_once [OF demo_world_ok le_30_33 refl])

theorem kernel_limit_never_reached_witness:
  "run_sample handoff_env demo_fin (py_walk_segment py_demo_env) demo_progs MAX_TAIL_CALL_CNT (begin_sample 9 9 20 0x1000 0xFF0 demo_world) =
   run_sample handoff_env demo_fin (py_walk_segment py_demo_env) demo_progs 30 (begin_sample 9 9 20 0x1000 0xFF0 demo_world)"
  by (rule kernel_limit_never_reached [OF demo_world_ok le_30_33])

theorem dispatch_counters_balance_witness:
  "case x_kernel (run_sample handoff_env demo_fin (py_walk_segment py_demo_env) demo_progs MAX_TAIL_CALL_CNT
      (begin_sample 9 9 20 0x1000 0xFF0 demo_world)) of k \<Rightarrow>
    stat k 2 - stat (x_kernel demo_world) 2 = (stat k 3 - stat (x_kernel demo_world) 3) + (stat k 5 - stat (x_kernel demo_world) 5) \<and>
    stat k 3 - stat (x_kernel demo_world) 3 = (stat k 6 - stat (x_kernel demo_world) 6) + (stat k 4 - stat (x_kernel demo_world) 4)"
  using dispatch_counters_balance [OF demo_world_ok le_30_33 _ refl refl, where fin = demo_fin and env = handoff_env and
      yenv = py_demo_env and pid = 9 and tid = 9 and pc = 20 and fp = "0x1000" and sp = "0xFF0"]
  by (simp add: demo_fin_def)

lemma handoff_walk:
  "unwind_walk handoff_env (\<lambda>s. True) False handoff_st empty_record demo_kernel =
     (Inl 2, handoff_st\<lparr>p_n_pcs := 1, p_tail_calls := 1\<rparr>,
      empty_record\<lparr>pcs := (pcs empty_record)[0 := 20], tags := (tags empty_record)[0 := 0]\<rparr>,
      k_count 3 (k_count 2 (k_count 1 (k_count 0 demo_kernel))))"
proof -
  let ?w = "walk_load handoff_st empty_record"
  let ?w' = "?w\<lparr>w_rec := empty_record\<lparr>pcs := (pcs empty_record)[0 := 20], tags := (tags empty_record)[0 := 0]\<rparr>, w_n_pcs := 1,
      w_pending_unwinder := 1\<rparr>"
  have m: "mapping_for_pc (e_pid_mappings handoff_env) (e_pid_mapping_lengths handoff_env) 9 20 =
      \<lparr>m_table_id = 3, m_rel_pc = 20, m_found = True\<rparr>"
    by (simp add: mapping_for_pc_find handoff_env_def mapping_result_def mapping_hit_def)
  have nu: "next_unwinder handoff_env 3 20 0 demo_kernel = (1, k_count 1 (k_count 0 demo_kernel))"
    by (simp add: next_unwinder_def handoff_env_def claim_env_def in_span_def)
  have "unwind_frame handoff_env True (?w, demo_kernel) = (True, ?w', k_count 2 (k_count 1 (k_count 0 demo_kernel)))"
    using m nu
    by (simp add: unwind_frame_def frame_push_native_def record_push_native_def walk_load_def handoff_st_def py_demo_st_def Let_def)
      (simp add: handoff_env_def)
  then have "bpf_loop (Suc 126) (walk_step handoff_env) (?w, demo_kernel) = (?w', k_count 2 (k_count 1 (k_count 0 demo_kernel)))"
    unfolding walk_loop_Suc by simp
  then have lp: "bpf_loop MAX_FRAMES (walk_step handoff_env) (?w, demo_kernel) = (?w', k_count 2 (k_count 1 (k_count 0 demo_kernel)))"
    by simp
  have "e_interp_enabled handoff_env" "p_tail_calls handoff_st = 0" by (simp_all add: handoff_env_def handoff_st_def py_demo_st_def)
  then have "unwind_walk handoff_env (\<lambda>s. True) False handoff_st empty_record demo_kernel =
      (Inl 2, (walk_save (?w'\<lparr>w_pending_unwinder := 0\<rparr>) handoff_st)\<lparr>p_tail_calls := 1\<rparr>, w_rec ?w',
       k_count 3 (k_count 2 (k_count 1 (k_count 0 demo_kernel))))"
    by (simp add: unwind_walk_def lp INTERP_SLOT_UNWINDER_def)
  then show ?thesis
    by (simp add: walk_save_def walk_load_def) (simp add: handoff_st_def py_demo_st_def)
qed

end
