(* ===== verification/Dwarf_Drivers.thy ===== *)
theory Dwarf_Drivers
  imports Tail_Calls
begin

text \<open>
  The two drivers that emit sample records: the CPU profiler of \<open>src/bpf/perf_dwarf.bpf.c\<close> and
  the off-CPU profiler of \<open>src/bpf/offcpu_dwarf.bpf.c\<close>. Each is an entry program with its
  filters, and a finish that fills the header after the walk and emits the record or, off-CPU,
  stashes it until the thread is scheduled again. Both run on the tail-call machine.

  The lemmas show that a sample that passes the filters is emitted exactly once, for its own
  thread and with a decodable stack, and that an off-CPU interval is reported with the time
  between its two context switches and then forgotten.
\<close>

section \<open>Tasks and configuration\<close>

record user_regs =
  r_ip :: u64
  r_fp :: u64
  r_sp :: u64

record user_task = task +
  t_regs :: "user_regs option"

text \<open>
  What userspace sets at load time, the process filter map, and what the helpers answer: the
  stack id of the n-th capture and whether the ring buffer has room for the n-th output.
\<close>

record driver_cfg =
  c_system_wide :: bool
  c_kernel_stacks_enabled :: bool
  c_pids :: "u32 \<Rightarrow> bool"
  c_stackid :: "nat \<Rightarrow> u64"
  c_rb_room :: "nat \<Rightarrow> bool"

record perf_drv =
  d_stack_events :: "sample_record list"
  d_outputs :: nat
  d_stackids :: nat

definition ktime_get_ns :: "walk_env \<Rightarrow> kernel_state \<Rightarrow> u64 \<times> kernel_state" where
  "ktime_get_ns env k = (e_ktime env (k_clock_reads k), k\<lparr>k_clock_reads := Suc (k_clock_reads k)\<rparr>)"

definition kern_stack_of :: "driver_cfg \<Rightarrow> nat \<Rightarrow> u64 \<times> nat" where
  "kern_stack_of cfg n = (if c_kernel_stacks_enabled cfg then (c_stackid cfg n, Suc n) else (- 1, n))"

definition ringbuf_output :: "driver_cfg \<Rightarrow> sample_record \<Rightarrow> ('a perf_drv_scheme) \<Rightarrow> ('a perf_drv_scheme)" where
  "ringbuf_output cfg r d =
     (let d' = d\<lparr>d_outputs := Suc (d_outputs d)\<rparr>
      in if c_rb_room cfg (d_outputs d) then d'\<lparr>d_stack_events := d_stack_events d @ [r]\<rparr> else d')"

definition fill_header :: "u32 \<Rightarrow> walk_persist \<Rightarrow> u64 \<Rightarrow> u64 \<Rightarrow> u64 \<Rightarrow> sample_record \<Rightarrow> sample_record" where
  "fill_header n st ks now val r = r\<lparr>hdr := (hdr r)\<lparr>h_kern_stack := ks, h_pid := p_pid st, h_tid := p_tid st,
     h_time_ns := now, h_value := val, h_n_pcs := ucast n,
     h_mode := (if has_flag (rec_flags r) WALKER_FLAG_DWARF_USED then MODE_FP_LESS else MODE_FP_SAFE)\<rparr>\<rparr>"

section \<open>The CPU profiler\<close>

definition perf_dwarf_finish :: "driver_cfg \<Rightarrow> walk_env \<Rightarrow> perf_drv finish" where
  "perf_dwarf_finish cfg env n st r k d =
     (let (ks, i) = kern_stack_of cfg (d_stackids d);
          d = d\<lparr>d_stackids := i\<rparr>;
          (now, k) = ktime_get_ns env k;
          r = fill_header n st ks now 1 r
      in (r, k, ringbuf_output cfg r d))"

definition perf_dwarf_walk ::
  "driver_cfg \<Rightarrow> walk_env \<Rightarrow> (u32 \<Rightarrow> bool) \<Rightarrow> bool \<Rightarrow> ('m, perf_drv) world \<Rightarrow> u32 option \<times> ('m, perf_drv) world" where
  "perf_dwarf_walk cfg env tail_call resumed x = driver_walk env (perf_dwarf_finish cfg env) tail_call resumed x"

definition perf_dwarf ::
  "driver_cfg \<Rightarrow> walk_env \<Rightarrow> 'm module_fn \<Rightarrow> (u32 \<Rightarrow> interp_prog option) \<Rightarrow> u64 \<Rightarrow> user_task option
    \<Rightarrow> ('m, perf_drv) world \<Rightarrow> ('m, perf_drv) world" where
  "perf_dwarf cfg env seg progs tgid_tid tsk x =
     (let tgid = ucast (drop_bit 32 tgid_tid) :: u32; tid = ucast tgid_tid :: u32
      in case tsk of None \<Rightarrow> x
         | Some task \<Rightarrow>
             if tgid = 0 then x
             else if has_flag (t_flags task) PF_KTHREAD then x
             else if \<not> c_system_wide cfg \<and> \<not> c_pids cfg tgid then x
             else if walk_record_get x = None \<or> walk_state_get x = None then x
             else case t_regs task of None \<Rightarrow> x
               | Some uregs \<Rightarrow>
                   let x = begin_sample tgid tid (r_ip uregs) (r_fp uregs) (r_sp uregs) x
                   in run_tail env (perf_dwarf_finish cfg env) seg progs MAX_TAIL_CALL_CNT
                        (perf_dwarf_walk cfg env (callable progs MAX_TAIL_CALL_CNT) False x))"

section \<open>The off-CPU profiler\<close>

type_synonym offcpu_start_key = "u32 \<times> u32"

record offcpu_drv = perf_drv +
  d_offcpu_start :: "(offcpu_start_key, sample_record) bpf_hash"

definition offcpu_dwarf_finish :: "driver_cfg \<Rightarrow> walk_env \<Rightarrow> offcpu_drv finish" where
  "offcpu_dwarf_finish cfg env n st r k d =
     (let (ks, i) = kern_stack_of cfg (d_stackids d);
          d = d\<lparr>d_stackids := i\<rparr>;
          (now, k) = ktime_get_ns env k;
          r = fill_header n st ks now now r
      in (r, k, d\<lparr>d_offcpu_start := snd (hash_update (d_offcpu_start d) (p_tid st, p_pid st) r BPF_ANY)\<rparr>))"

definition offcpu_dwarf_walk ::
  "driver_cfg \<Rightarrow> walk_env \<Rightarrow> (u32 \<Rightarrow> bool) \<Rightarrow> bool \<Rightarrow> ('m, offcpu_drv) world \<Rightarrow> u32 option \<times> ('m, offcpu_drv) world" where
  "offcpu_dwarf_walk cfg env tail_call resumed x = driver_walk env (offcpu_dwarf_finish cfg env) tail_call resumed x"

definition handle_switch_out ::
  "driver_cfg \<Rightarrow> walk_env \<Rightarrow> 'm module_fn \<Rightarrow> (u32 \<Rightarrow> interp_prog option) \<Rightarrow> user_task
    \<Rightarrow> ('m, offcpu_drv) world \<Rightarrow> ('m, offcpu_drv) world" where
  "handle_switch_out cfg env seg progs prev x =
     (if t_pid prev = 0 \<or> t_tgid prev = 0 then x
      else if has_flag (t_flags prev) PF_KTHREAD then x
      else if \<not> c_system_wide cfg \<and> \<not> c_pids cfg (t_tgid prev) then x
      else if walk_record_get x = None \<or> walk_state_get x = None then x
      else case t_regs prev of None \<Rightarrow> x
        | Some regs \<Rightarrow>
            let x = begin_sample (t_tgid prev) (t_pid prev) (r_ip regs) (r_fp regs) (r_sp regs) x
            in run_tail env (offcpu_dwarf_finish cfg env) seg progs MAX_TAIL_CALL_CNT
                 (offcpu_dwarf_walk cfg env (callable progs MAX_TAIL_CALL_CNT) False x))"

definition set_value :: "u64 \<Rightarrow> sample_record \<Rightarrow> sample_record" where
  "set_value v r = r\<lparr>hdr := (hdr r)\<lparr>h_value := v\<rparr>\<rparr>"

definition handle_switch_in ::
  "driver_cfg \<Rightarrow> walk_env \<Rightarrow> user_task \<Rightarrow> ('m, offcpu_drv) world \<Rightarrow> ('m, offcpu_drv) world" where
  "handle_switch_in cfg env nxt x =
     (let key = (t_pid nxt, t_tgid nxt); d = x_drv x
      in if t_pid nxt = 0 then x
         else case hash_lookup (d_offcpu_start d) key of
           None \<Rightarrow> x
         | Some saved \<Rightarrow>
             if h_value (hdr saved) = 0 then x
             else let (now, k) = ktime_get_ns env (x_kernel x);
                      saved = set_value (now - h_value (hdr saved)) saved;
                      d = d\<lparr>d_offcpu_start := hash_store (d_offcpu_start d) key saved\<rparr>;
                      d = ringbuf_output cfg saved d;
                      d = d\<lparr>d_offcpu_start := hash_delete (d_offcpu_start d) key\<rparr>
                  in x\<lparr>x_kernel := k, x_drv := d\<rparr>)"

definition offcpu_dwarf_sched_switch ::
  "driver_cfg \<Rightarrow> walk_env \<Rightarrow> 'm module_fn \<Rightarrow> (u32 \<Rightarrow> interp_prog option) \<Rightarrow> user_task \<Rightarrow> user_task
    \<Rightarrow> ('m, offcpu_drv) world \<Rightarrow> ('m, offcpu_drv) world" where
  "offcpu_dwarf_sched_switch cfg env seg progs prev nxt x =
     handle_switch_out cfg env seg progs prev (handle_switch_in cfg env nxt x)"

section \<open>Lemmas\<close>

lemma fill_header_simps [simp]:
  "pcs (fill_header n st ks now v r) = pcs r" "tags (fill_header n st ks now v r) = tags r"
  "rec_flags (fill_header n st ks now v r) = rec_flags r"
  "h_pid (hdr (fill_header n st ks now v r)) = p_pid st" "h_tid (hdr (fill_header n st ks now v r)) = p_tid st"
  "h_time_ns (hdr (fill_header n st ks now v r)) = now" "h_value (hdr (fill_header n st ks now v r)) = v"
  "h_n_pcs (hdr (fill_header n st ks now v r)) = ucast n"
  "h_mode (hdr (fill_header n st ks now v r)) =
     (if has_flag (rec_flags r) WALKER_FLAG_DWARF_USED then MODE_FP_LESS else MODE_FP_SAFE)"
  by (simp_all add: fill_header_def rec_flags_def)

lemma rec_wf_fill_header [simp]: "rec_wf (fill_header n st ks now v r) m = rec_wf r m"
  by (simp add: rec_wf_def rec_slots_def)

lemma ucast_count:
  assumes "rec_wf r n"
  shows "ucast (ucast n :: u8) = (n :: u32)"
proof -
  have "unat n \<le> 127" using assms by (simp add: rec_wf_def)
  then have "unat (take_bit 8 n) = unat n"
    by (simp add: unsigned_take_bit_eq take_bit_nat_eq_self)
  then show ?thesis by (simp add: word_unat_eq_iff unsigned_ucast_eq unsigned_take_bit_eq)
qed

lemma ringbuf_output_simps:
  "c_rb_room cfg (d_outputs d) \<Longrightarrow> d_stack_events (ringbuf_output cfg r d) = d_stack_events d @ [r]"
  by (simp add: ringbuf_output_def Let_def)

text \<open>
  What a driver's finish promises: it may fill the header but keeps the stack and its flags, and
  leaves the dispatch counters alone. A sample of such a driver leaves the CPU ready for the next.
\<close>

locale sample_driver =
  fixes fin :: "'d finish"
  assumes fin_record: "fin n st r k d = (r', k', d') \<Longrightarrow> pcs r' = pcs r \<and> tags r' = tags r \<and> rec_flags r' = rec_flags r"
    and fin_stats: "fin n st r k d = (r', k', d') \<Longrightarrow> k_stats k' = k_stats k"
begin

lemma sample_finishes:
  assumes ok: "world_ok x" "py_mod_wf (x_mod x)" "cnt (x_mod x) 9 < - 1" "progs_ok progs"
    and y: "y = run_sample env fin (py_walk_segment yenv) progs MAX_TAIL_CALL_CNT (begin_sample pid tid pc fp sp x)"
  obtains st r k r' where "walk_over (walk_load st r)" "p_pid st = pid" "p_tid st = tid"
    "fin (p_n_pcs st) st r k (x_drv x) = (r', x_kernel y, x_drv y)"
    "world_ok y" "py_mod_wf (x_mod y)" "unat (cnt (x_mod y) 9) \<le> Suc (unat (cnt (x_mod x) 9))"
proof -
  have "30 \<le> MAX_TAIL_CALL_CNT" by simp
  note f = py_sample_finished(1) [OF ok this, of fin yenv pid tid env pc fp sp, folded y]
  show thesis
  proof (rule finishedE [OF f])
    fix st r k r'
    assume o: "walk_over (walk_load st r)" and J: "py_law yenv (x_mod x) pid tid st (x_mod y)"
      and l: "ledger (x_kernel x) k 0" and h: "holds_walk y st r'"
      and e: "fin (p_n_pcs st) st r k (x_drv x) = (r', x_kernel y, x_drv y)"
    have "rec_wf r (p_n_pcs st)" using o by (simp add: walk_over_def w_wf_def)
    then have "world_ok y"
      using l fin_record [OF e] fin_stats [OF e] unfolding world_ok_def
      by (intro conjI exI [of _ st] exI [of _ r'] h) (simp_all add: rec_wf_def stats_wf_def ledger_def)
    moreover have "cnt (x_mod x) 9 + 1 \<noteq> 0" using ok(3) by (auto simp: eq_neg_iff_add_eq_0 [symmetric])
    then have "unat (cnt (x_mod y) 9) \<le> Suc (unat (cnt (x_mod x) 9))"
      using J by (auto simp: py_law_def py_sample_inv_def unat_word_ariths(1))
    ultimately show thesis using o J e by (intro that [of st r k r']) (auto simp: py_law_def py_sample_inv_def)
  qed
qed

end

interpretation perf: sample_driver "perf_dwarf_finish cfg env" for cfg env
  by unfold_locales (auto simp: perf_dwarf_finish_def ktime_get_ns_def Let_def split: prod.splits)

interpretation offcpu: sample_driver "offcpu_dwarf_finish cfg env" for cfg env
  by unfold_locales (auto simp: offcpu_dwarf_finish_def ktime_get_ns_def Let_def split: prod.splits)

lemma world_ok_gets: "world_ok x \<Longrightarrow> walk_record_get x \<noteq> None \<and> walk_state_get x \<noteq> None"
  by (auto simp: world_ok_def)

lemma perf_dwarf_runs:
  assumes "world_ok x" "tgid = ucast (drop_bit 32 tt)" "tid = ucast tt" "tgid \<noteq> 0"
    "\<not> has_flag (t_flags tsk) PF_KTHREAD" "c_system_wide cfg \<or> c_pids cfg tgid" "t_regs tsk = Some u"
  shows "perf_dwarf cfg env seg progs tt (Some tsk) x =
    run_sample env (perf_dwarf_finish cfg env) seg progs MAX_TAIL_CALL_CNT
      (begin_sample tgid tid (r_ip u) (r_fp u) (r_sp u) x)"
  using assms world_ok_gets [OF assms(1)]
  by (auto simp: perf_dwarf_def run_sample_def perf_dwarf_walk_def Let_def)

lemma handle_switch_out_runs:
  assumes "world_ok x" "t_pid prev \<noteq> 0" "t_tgid prev \<noteq> 0"
    "\<not> has_flag (t_flags prev) PF_KTHREAD" "c_system_wide cfg \<or> c_pids cfg (t_tgid prev)" "t_regs prev = Some u"
  shows "handle_switch_out cfg env seg progs prev x =
    run_sample env (offcpu_dwarf_finish cfg env) seg progs MAX_TAIL_CALL_CNT
      (begin_sample (t_tgid prev) (t_pid prev) (r_ip u) (r_fp u) (r_sp u) x)"
  using assms world_ok_gets [OF assms(1)]
  by (auto simp: handle_switch_out_def run_sample_def offcpu_dwarf_walk_def Let_def)

text \<open>A switch-out stashes the record under its thread, stamped with the time of the stash.\<close>

lemma switch_out_stashes:
  assumes w: "world_ok x" "py_mod_wf (x_mod x)" "cnt (x_mod x) 9 < - 1" "progs_ok progs"
    and p: "t_pid prev \<noteq> 0" "t_tgid prev \<noteq> 0" "\<not> has_flag (t_flags prev) PF_KTHREAD"
      "c_system_wide cfg \<or> c_pids cfg (t_tgid prev)" "t_regs prev = Some u"
    and room: "length (entries (d_offcpu_start (x_drv x))) < max_entries (d_offcpu_start (x_drv x))"
    and y: "y = handle_switch_out cfg env (py_walk_segment yenv) progs prev x"
  obtains r where "hash_lookup (d_offcpu_start (x_drv y)) =
      (hash_lookup (d_offcpu_start (x_drv x)))((t_pid prev, t_tgid prev) \<mapsto> r)"
    "d_stack_events (x_drv y) = d_stack_events (x_drv x)" "d_outputs (x_drv y) = d_outputs (x_drv x)"
    "h_pid (hdr r) = t_tgid prev" "h_tid (hdr r) = t_pid prev" "h_value (hdr r) = h_time_ns (hdr r)"
    "rec_wf r (ucast (h_n_pcs (hdr r)))" "0 < k_clock_reads (x_kernel y)"
    "h_time_ns (hdr r) = e_ktime env (k_clock_reads (x_kernel y) - 1)"
proof -
  note run = handle_switch_out_runs [OF w(1) p, of env "py_walk_segment yenv" progs]
  obtain st r k r' where s: "walk_over (walk_load st r)" "p_pid st = t_tgid prev" "p_tid st = t_pid prev"
    and fin: "offcpu_dwarf_finish cfg env (p_n_pcs st) st r k (x_drv x) = (r', x_kernel y, x_drv y)"
    by (rule offcpu.sample_finishes [OF w, of y env cfg env yenv "t_tgid prev" "t_pid prev" "r_ip u" "r_fp u" "r_sp u"])
      (simp_all add: y run)
  have wf: "rec_wf r (p_n_pcs st)" using s(1) by (simp add: walk_over_def w_wf_def)
  define ks where "ks = fst (kern_stack_of cfg (d_stackids (x_drv x)))"
  define now where "now = e_ktime env (k_clock_reads k)"
  have r': "r' = fill_header (p_n_pcs st) st ks now now r" "x_kernel y = k\<lparr>k_clock_reads := Suc (k_clock_reads k)\<rparr>"
    "d_offcpu_start (x_drv y) = snd (hash_update (d_offcpu_start (x_drv x)) (t_pid prev, t_tgid prev) r' BPF_ANY)"
    "d_stack_events (x_drv y) = d_stack_events (x_drv x)" "d_outputs (x_drv y) = d_outputs (x_drv x)"
    using fin [symmetric] s
    by (simp_all add: offcpu_dwarf_finish_def Let_def ktime_get_ns_def ks_def now_def case_prod_unfold)
  have "fst (hash_update (d_offcpu_start (x_drv x)) (t_pid prev, t_tgid prev) r' BPF_ANY) = 0"
    using room by (auto simp: hash_update_def split: option.split)
  then have "hash_lookup (d_offcpu_start (x_drv y)) =
      (hash_lookup (d_offcpu_start (x_drv x)))((t_pid prev, t_tgid prev) \<mapsto> r')"
    using bhash.update_ok r'(3) by (metis prod.collapse)
  then show thesis
    by (rule that) (use r' s wf in \<open>auto simp: now_def ucast_count\<close>)
qed

text \<open>A switch-in takes the stash out of the map and emits it with the elapsed time.\<close>

lemma switch_in_emits:
  assumes "t_pid nxt \<noteq> 0" and "hash_lookup (d_offcpu_start (x_drv x)) (t_pid nxt, t_tgid nxt) = Some r"
    and "h_value (hdr r) \<noteq> 0" and "c_rb_room cfg (d_outputs (x_drv x))"
    and z: "z = handle_switch_in cfg env nxt x"
  shows "d_stack_events (x_drv z) = d_stack_events (x_drv x) @
      [set_value (e_ktime env (k_clock_reads (x_kernel x)) - h_value (hdr r)) r]"
    and "hash_lookup (d_offcpu_start (x_drv z)) = (hash_lookup (d_offcpu_start (x_drv x)))((t_pid nxt, t_tgid nxt) := None)"
    and "handle_switch_in cfg env nxt z = z"
proof -
  let ?r = "set_value (e_ktime env (k_clock_reads (x_kernel x)) - h_value (hdr r)) r"
  let ?h = "hash_store (d_offcpu_start (x_drv x)) (t_pid nxt, t_tgid nxt) ?r"
  have e: "d_stack_events (x_drv z) = d_stack_events (x_drv x) @ [?r]"
    "d_offcpu_start (x_drv z) = hash_delete ?h (t_pid nxt, t_tgid nxt)"
    using assms(1-4) by (simp_all add: z handle_switch_in_def ktime_get_ns_def ringbuf_output_def Let_def)
  show "d_stack_events (x_drv z) = d_stack_events (x_drv x) @ [?r]" by (rule e(1))
  show l: "hash_lookup (d_offcpu_start (x_drv z)) = (hash_lookup (d_offcpu_start (x_drv x)))((t_pid nxt, t_tgid nxt) := None)"
    using bhash.lookup_store [OF assms(2)] by (simp add: e(2))
  then show "handle_switch_in cfg env nxt z = z" by (simp add: handle_switch_in_def Let_def)
qed

section \<open>Properties of the drivers\<close>

text \<open>A run of the CPU profiler: one entry per perf event, each with what the helpers answer there.\<close>

definition perf_accepts :: "driver_cfg \<Rightarrow> u64 \<Rightarrow> user_task option \<Rightarrow> bool" where
  "perf_accepts cfg tt tsk = (case tsk of None \<Rightarrow> False
     | Some t \<Rightarrow> ucast (drop_bit 32 tt) \<noteq> (0 :: u32) \<and> \<not> has_flag (t_flags t) PF_KTHREAD \<and>
         (c_system_wide cfg \<or> c_pids cfg (ucast (drop_bit 32 tt))) \<and> t_regs t \<noteq> None)"

type_synonym perf_event = "walk_env \<times> py_env \<times> u64 \<times> user_task option"

fun perf_events :: "driver_cfg \<Rightarrow> (u32 \<Rightarrow> interp_prog option) \<Rightarrow> perf_event list \<Rightarrow> (py_mod, perf_drv) world
    \<Rightarrow> (py_mod, perf_drv) world" where
  "perf_events cfg progs [] x = x"
| "perf_events cfg progs ((env, yenv, tt, tsk) # es) x =
     perf_events cfg progs es (perf_dwarf cfg env (py_walk_segment yenv) progs tt tsk x)"

definition perf_threads :: "driver_cfg \<Rightarrow> perf_event list \<Rightarrow> (u32 \<times> u32) list" where
  "perf_threads cfg es = [(ucast (drop_bit 32 tt), ucast tt). (env, yenv, tt, tsk) \<leftarrow> es, perf_accepts cfg tt tsk]"

definition rec_thread :: "sample_record \<Rightarrow> u32 \<times> u32" where
  "rec_thread r = (h_pid (hdr r), h_tid (hdr r))"

lemma perf_dwarf_skips: "\<not> perf_accepts cfg tt tsk \<Longrightarrow> perf_dwarf cfg env seg progs tt tsk x = x"
  by (auto simp: perf_accepts_def perf_dwarf_def Let_def split: option.splits)

lemma perf_dwarf_sample:
  assumes ok: "world_ok x" "py_mod_wf (x_mod x)" "cnt (x_mod x) 9 < - 1" "progs_ok progs"
    and acc: "perf_accepts cfg tt tsk" and room: "c_rb_room cfg (d_outputs (x_drv x))"
    and y: "y = perf_dwarf cfg env (py_walk_segment yenv) progs tt tsk x"
  obtains st r r' where "d_stack_events (x_drv y) = d_stack_events (x_drv x) @ [r']"
    "walk_over (walk_load st r)" "p_pid st = ucast (drop_bit 32 tt)" "p_tid st = ucast tt"
    "\<exists>ks now. r' = fill_header (p_n_pcs st) st ks now 1 r"
    "world_ok y" "py_mod_wf (x_mod y)" "unat (cnt (x_mod y) 9) \<le> Suc (unat (cnt (x_mod x) 9))"
proof -
  let ?tgid = "ucast (drop_bit 32 tt) :: u32" and ?tid = "ucast tt :: u32"
  obtain t u where t: "tsk = Some t" "?tgid \<noteq> 0" "\<not> has_flag (t_flags t) PF_KTHREAD"
      "c_system_wide cfg \<or> c_pids cfg ?tgid" "t_regs t = Some u"
    using acc by (auto simp: perf_accepts_def split: option.splits)
  note run = perf_dwarf_runs [OF ok(1) refl refl t(2-5), of env "py_walk_segment yenv" progs]
  obtain st r k r' where s: "walk_over (walk_load st r)" "p_pid st = ?tgid" "p_tid st = ?tid"
      "perf_dwarf_finish cfg env (p_n_pcs st) st r k (x_drv x) = (r', x_kernel y, x_drv y)"
      "world_ok y" "py_mod_wf (x_mod y)" "unat (cnt (x_mod y) 9) \<le> Suc (unat (cnt (x_mod x) 9))"
    by (rule perf.sample_finishes [OF ok, of y env cfg env yenv ?tgid ?tid "r_ip u" "r_fp u" "r_sp u"])
      (simp_all add: y t(1) run)
  define ks where "ks = fst (kern_stack_of cfg (d_stackids (x_drv x)))"
  have "r' = fill_header (p_n_pcs st) st ks (e_ktime env (k_clock_reads k)) 1 r"
    "d_stack_events (x_drv y) = d_stack_events (x_drv x) @ [r']"
    using s(4) [symmetric] room
    by (simp_all add: perf_dwarf_finish_def Let_def ktime_get_ns_def ks_def ringbuf_output_def case_prod_unfold)
  with s show thesis by (intro that [of r' st r]) blast+
qed

text \<open>A record of the CPU profiler: weight one, decodable in full, one ending, the mode the walk used.\<close>

definition perf_record_ok :: "sample_record \<Rightarrow> bool" where
  "perf_record_ok r \<longleftrightarrow> h_value (hdr r) = 1 \<and> rec_wf r (ucast (h_n_pcs (hdr r))) \<and> ending_ok (rec_flags r) \<and>
     (h_mode (hdr r) = MODE_FP_LESS \<longleftrightarrow> has_flag (rec_flags r) WALKER_FLAG_DWARF_USED)"

lemma perf_record_ok_fill:
  assumes "walk_over (walk_load st r)"
  shows "perf_record_ok (fill_header (p_n_pcs st) st ks now 1 r)"
proof -
  have "rec_wf r (p_n_pcs st)" "ending_ok (rec_flags r)" using assms by (simp_all add: walk_over_def w_wf_def w_flags_def)
  then show ?thesis by (auto simp: perf_record_ok_def ucast_count split: if_splits)
qed

text \<open>
  C26: over any sequence of perf events, with room in the ring buffer, the CPU profiler emits
  exactly one record per event its filters accept, in the order of the events and for the thread
  each event interrupted, whatever the walks of the earlier samples left behind; and every one of
  them has weight one, a stack the consumer can decode in full within the header's count, flags
  that name at most one ending and the mode the walk used.
\<close>

theorem perf_events_one_record_each:
  assumes "world_ok x" and "py_mod_wf (x_mod x)" and "unat (cnt (x_mod x) 9) + length es < 2 ^ 64 - 1"
    and "progs_ok progs" and "\<And>n. c_rb_room cfg n"
  shows "\<exists>rs. d_stack_events (x_drv (perf_events cfg progs es x)) = d_stack_events (x_drv x) @ rs \<and>
    map rec_thread rs = perf_threads cfg es \<and> list_all perf_record_ok rs"
  using assms(1-3)
proof (induction es arbitrary: x)
  case (Cons e es)
  obtain env yenv tt tsk where e: "e = (env, yenv, tt, tsk)" by (metis prod_cases4)
  show ?case
  proof (cases "perf_accepts cfg tt tsk")
    case True
    let ?y = "perf_dwarf cfg env (py_walk_segment yenv) progs tt tsk x"
    have lt: "cnt (x_mod x) 9 < - 1"
      using Cons.prems(3) by (simp add: word_less_nat_alt unsigned_minus_1_eq_mask mask_eq_exp_minus_1)
    obtain st r r' where s: "d_stack_events (x_drv ?y) = d_stack_events (x_drv x) @ [r']"
      "p_pid st = ucast (drop_bit 32 tt)" "p_tid st = ucast tt" "\<exists>ks now. r' = fill_header (p_n_pcs st) st ks now 1 r"
      "walk_over (walk_load st r)"
      and y: "world_ok ?y" "py_mod_wf (x_mod ?y)" "unat (cnt (x_mod ?y) 9) \<le> Suc (unat (cnt (x_mod x) 9))"
      by (rule perf_dwarf_sample [OF Cons.prems(1,2) lt assms(4) True assms(5) refl, of env yenv])
    have "rec_thread r' = (ucast (drop_bit 32 tt), ucast tt)" "perf_record_ok r'"
      using s perf_record_ok_fill [OF s(5)] by (auto simp: rec_thread_def)
    moreover have "unat (cnt (x_mod ?y) 9) + length es < 2 ^ 64 - 1" using y(3) Cons.prems(3) by simp
    then obtain rs where "d_stack_events (x_drv (perf_events cfg progs es ?y)) = d_stack_events (x_drv ?y) @ rs"
        "map rec_thread rs = perf_threads cfg es" "list_all perf_record_ok rs"
      using Cons.IH [OF y(1,2)] by blast
    ultimately show ?thesis using True s(1) by (intro exI [of _ "r' # rs"]) (simp add: e perf_threads_def)
  next
    case False
    with Cons show ?thesis by (simp add: e perf_threads_def perf_dwarf_skips)
  qed
qed (simp add: perf_threads_def)

text \<open>
  C27: an off-CPU interval is reported once, with its length. With a monotonic clock and a free
  slot, the record stashed when a thread is switched out is the one emitted when that thread is
  next switched in, its value is the time between the two switches without wrap-around, the
  stash is gone afterwards (a second switch-in emits nothing) and no other thread's stash is
  touched.
\<close>

theorem offcpu_interval_reported:
  assumes "world_ok x" and "py_mod_wf (x_mod x)" and "cnt (x_mod x) 9 < - 1" and "progs_ok progs"
    and "t_pid tsk \<noteq> 0" and "t_tgid tsk \<noteq> 0" and "\<not> has_flag (t_flags tsk) PF_KTHREAD"
    and "c_system_wide cfg \<or> c_pids cfg (t_tgid tsk)" and "t_regs tsk = Some u"
    and "length (entries (d_offcpu_start (x_drv x))) < max_entries (d_offcpu_start (x_drv x))"
    and "c_rb_room cfg (d_outputs (x_drv x))"
    and "\<And>i j. i \<le> j \<Longrightarrow> e_ktime env i \<le> e_ktime env j" and "\<And>i. e_ktime env i \<noteq> 0"
    and "y = handle_switch_out cfg env (py_walk_segment yenv) progs tsk x"
    and "k_clock_reads (x_kernel y) \<le> k_clock_reads k"
    and "z = handle_switch_in cfg env tsk (y\<lparr>x_kernel := k\<rparr>)"
  shows "\<exists>r. d_stack_events (x_drv z) = d_stack_events (x_drv x) @ [r] \<and>
    h_pid (hdr r) = t_tgid tsk \<and> h_tid (hdr r) = t_pid tsk \<and> rec_wf r (ucast (h_n_pcs (hdr r))) \<and>
    unat (h_value (hdr r)) = unat (e_ktime env (k_clock_reads k)) - unat (h_time_ns (hdr r)) \<and>
    hash_lookup (d_offcpu_start (x_drv z)) = (hash_lookup (d_offcpu_start (x_drv x)))((t_pid tsk, t_tgid tsk) := None) \<and>
    handle_switch_in cfg env tsk z = z"
proof -
  obtain r where out: "hash_lookup (d_offcpu_start (x_drv y)) =
      (hash_lookup (d_offcpu_start (x_drv x)))((t_pid tsk, t_tgid tsk) \<mapsto> r)"
    "d_stack_events (x_drv y) = d_stack_events (x_drv x)" "d_outputs (x_drv y) = d_outputs (x_drv x)"
    "h_pid (hdr r) = t_tgid tsk" "h_tid (hdr r) = t_pid tsk" "h_value (hdr r) = h_time_ns (hdr r)"
    "rec_wf r (ucast (h_n_pcs (hdr r)))" "h_time_ns (hdr r) = e_ktime env (k_clock_reads (x_kernel y) - 1)"
    by (rule switch_out_stashes [OF assms(1-10,14)])
  let ?y = "y\<lparr>x_kernel := k\<rparr>"
  have pre: "hash_lookup (d_offcpu_start (x_drv ?y)) (t_pid tsk, t_tgid tsk) = Some r" "h_value (hdr r) \<noteq> 0"
    "c_rb_room cfg (d_outputs (x_drv ?y))" using out assms(11,13) by simp_all
  note ins = switch_in_emits [OF assms(5) pre assms(16)]
  have "h_time_ns (hdr r) \<le> e_ktime env (k_clock_reads k)"
    unfolding out(8) by (rule assms(12)) (use assms(15) in simp)
  then have "unat (e_ktime env (k_clock_reads k) - h_time_ns (hdr r)) =
      unat (e_ktime env (k_clock_reads k)) - unat (h_time_ns (hdr r))" by (rule unat_diff_no_wrap)
  moreover have "rec_wf (set_value v r) n = rec_wf r n" for v n by (simp add: rec_wf_def rec_slots_def set_value_def)
  ultimately show ?thesis
    using ins out by (intro exI [of _ "set_value (e_ktime env (k_clock_reads k) - h_value (hdr r)) r"]) (simp add: set_value_def)
qed

section \<open>Concrete runs\<close>

definition demo_task :: user_task where
  "demo_task = \<lparr>t_pid = 9, t_tgid = 9, t_flags = 0, t_regs = Some \<lparr>r_ip = 5, r_fp = 0x1000, r_sp = 0xFF0\<rparr>\<rparr>"

definition demo_cfg :: driver_cfg where
  "demo_cfg = \<lparr>c_system_wide = False, c_kernel_stacks_enabled = True, c_pids = (\<lambda>p. p = 9),
     c_stackid = (\<lambda>n. 3), c_rb_room = (\<lambda>n. True)\<rparr>"

definition with_drv :: "'d \<Rightarrow> (py_mod, 'd) world" where
  "with_drv d = \<lparr>x_states = x_states demo_world, x_records = x_records demo_world, x_kernel = x_kernel demo_world,
     x_mod = x_mod demo_world, x_drv = d\<rparr>"

definition clock_env :: walk_env where
  "clock_env = claim_env\<lparr>e_ktime := \<lambda>n. 7\<rparr>"

definition demo_perf :: perf_drv where
  "demo_perf = \<lparr>d_stack_events = [], d_outputs = 0, d_stackids = 0\<rparr>"

definition demo_offcpu :: offcpu_drv where
  "demo_offcpu = \<lparr>d_stack_events = [], d_outputs = 0, d_stackids = 0, d_offcpu_start = \<lparr>entries = [], max_entries = 4\<rparr>\<rparr>"

lemma with_drv_ok: "world_ok (with_drv d)" "py_mod_wf (x_mod (with_drv d))" "cnt (x_mod (with_drv d)) 9 < - 1"
  using demo_world_ok by (simp_all add: world_ok_def holds_walk_def with_drv_def)

lemma with_drv_drv [simp]: "x_drv (with_drv d) = d" by (simp add: with_drv_def)

theorem perf_events_one_record_each_witness:
  "case (\<lambda>t. (clock_env, py_demo_env, 0x900000009 :: u64, t)) of e \<Rightarrow>
    \<exists>rs. d_stack_events (x_drv (perf_events (demo_cfg\<lparr>c_pids := \<lambda>p. True\<rparr>) demo_progs
      [e (Some demo_task), e None, e (Some demo_task)] (with_drv demo_perf))) = [] @ rs \<and>
      map rec_thread rs = [(9, 9), (9, 9)] \<and> list_all perf_record_ok rs"
  using perf_events_one_record_each [OF with_drv_ok(1,2) _ demo_world_ok(4), of demo_perf
      "case (\<lambda>t. (clock_env, py_demo_env, 0x900000009 :: u64, t)) of e \<Rightarrow> [e (Some demo_task), e None, e (Some demo_task)]"
      "demo_cfg\<lparr>c_pids := \<lambda>p. True\<rparr>"]
  by (simp add: demo_task_def demo_cfg_def demo_perf_def has_flag_def perf_threads_def perf_accepts_def
      with_drv_def demo_world_def py_demo_mod_def cnt_def)

theorem offcpu_interval_reported_witness:
  "case handle_switch_out demo_cfg clock_env (py_walk_segment py_demo_env) demo_progs demo_task (with_drv demo_offcpu) of y \<Rightarrow>
   case handle_switch_in demo_cfg clock_env demo_task y of z \<Rightarrow>
    (\<exists>r. d_stack_events (x_drv z) = [] @ [r] \<and>
    h_pid (hdr r) = 9 \<and> h_tid (hdr r) = 9 \<and> rec_wf r (ucast (h_n_pcs (hdr r))) \<and>
    unat (h_value (hdr r)) = 7 - unat (h_time_ns (hdr r)) \<and>
    handle_switch_in demo_cfg clock_env demo_task z = z)"
proof -
  let ?y = "handle_switch_out demo_cfg clock_env (py_walk_segment py_demo_env) demo_progs demo_task (with_drv demo_offcpu)"
  have "?y\<lparr>x_kernel := x_kernel ?y\<rparr> = ?y" by simp
  then show ?thesis
    using offcpu_interval_reported [OF with_drv_ok demo_world_ok(4), of demo_task demo_cfg _ demo_offcpu clock_env ?y py_demo_env "x_kernel ?y"
        "handle_switch_in demo_cfg clock_env demo_task ?y"]
    by (auto simp: demo_task_def demo_cfg_def demo_offcpu_def has_flag_def clock_env_def)
qed

end
