(* ===== verification/Gpu_Usdt.thy ===== *)
theory Gpu_Usdt
  imports Dwarf_Drivers
begin

text \<open>
  The consumer of the GPU probes, \<open>src/bpf/gpu_usdt.bpf.c\<close>: one program serves every record kind.
  It sizes a batch, counts what does not fit, and either submits it at once or, for a sampled
  launch, walks the launching thread's stack first, on the tail-call machine, and publishes the
  stack under an id it mints.

  The lemmas show that the size table keeps every batch within one reservation, that every record
  a producer hands over is delivered or counted as dropped, that ids are non-negative and
  distinct, and that a failed capture is counted once and never replaces a stack still in use.
\<close>

section \<open>Kinds and sizes\<close>

abbreviation KIND_UNKNOWN :: u32 where "KIND_UNKNOWN \<equiv> 0"
abbreviation KIND_LAUNCH :: u32 where "KIND_LAUNCH \<equiv> 1"
abbreviation KIND_EXEC :: u32 where "KIND_EXEC \<equiv> 2"
abbreviation KIND_MODULE :: u32 where "KIND_MODULE \<equiv> 3"
abbreviation KIND_PC :: u32 where "KIND_PC \<equiv> 4"
abbreviation KIND_LAUNCH_SAMPLED :: u32 where "KIND_LAUNCH_SAMPLED \<equiv> 5"
abbreviation KIND_KERNEL_NAME :: u32 where "KIND_KERNEL_NAME \<equiv> 6"
abbreviation KIND_STALL_MAP :: u32 where "KIND_STALL_MAP \<equiv> 7"
abbreviation KIND_SAMPLING_WINDOW :: u32 where "KIND_SAMPLING_WINDOW \<equiv> 8"
abbreviation KIND_CONFIG :: u32 where "KIND_CONFIG \<equiv> 9"
abbreviation KIND_DROPPED :: u32 where "KIND_DROPPED \<equiv> 10"
abbreviation KIND_MAX :: u32 where "KIND_MAX \<equiv> 16"

abbreviation REC_LAUNCH :: u32 where "REC_LAUNCH \<equiv> 48"
abbreviation REC_EXEC :: u32 where "REC_EXEC \<equiv> 48"
abbreviation REC_MODULE :: u32 where "REC_MODULE \<equiv> 40"
abbreviation REC_PC :: u32 where "REC_PC \<equiv> 40"
abbreviation REC_LAUNCH_SAMPLED :: u32 where "REC_LAUNCH_SAMPLED \<equiv> 56"
abbreviation REC_KERNEL_NAME :: u32 where "REC_KERNEL_NAME \<equiv> 272"
abbreviation REC_STALL_MAP :: u32 where "REC_STALL_MAP \<equiv> 136"
abbreviation REC_SAMPLING_WINDOW :: u32 where "REC_SAMPLING_WINDOW \<equiv> 24"
abbreviation REC_CONFIG :: u32 where "REC_CONFIG \<equiv> 24"
abbreviation REC_DROPPED :: u32 where "REC_DROPPED \<equiv> 16"

abbreviation MAX_RECORDS_PER_BATCH :: u32 where "MAX_RECORDS_PER_BATCH \<equiv> 64"
abbreviation MAX_BATCHED_RECORD_BYTES :: u32 where "MAX_BATCHED_RECORD_BYTES \<equiv> 48"
abbreviation PAYLOAD_BYTES :: u32 where "PAYLOAD_BYTES \<equiv> MAX_RECORDS_PER_BATCH * MAX_BATCHED_RECORD_BYTES"

definition BATCH_CAP :: "u32 \<Rightarrow> u32" where
  "BATCH_CAP sz = (if PAYLOAD_BYTES div sz < MAX_RECORDS_PER_BATCH then PAYLOAD_BYTES div sz else MAX_RECORDS_PER_BATCH)"

definition record_size :: "u32 \<Rightarrow> u32" where
  "record_size kind =
     (if kind = KIND_LAUNCH then REC_LAUNCH
      else if kind = KIND_EXEC then REC_EXEC
      else if kind = KIND_MODULE then REC_MODULE
      else if kind = KIND_PC then REC_PC
      else if kind = KIND_LAUNCH_SAMPLED then REC_LAUNCH_SAMPLED
      else if kind = KIND_KERNEL_NAME then REC_KERNEL_NAME
      else if kind = KIND_STALL_MAP then REC_STALL_MAP
      else if kind = KIND_SAMPLING_WINDOW then REC_SAMPLING_WINDOW
      else if kind = KIND_CONFIG then REC_CONFIG
      else if kind = KIND_DROPPED then REC_DROPPED
      else 0)"

definition max_records :: "u32 \<Rightarrow> u32" where
  "max_records kind =
     (if kind = KIND_LAUNCH then BATCH_CAP REC_LAUNCH
      else if kind = KIND_EXEC then BATCH_CAP REC_EXEC
      else if kind = KIND_MODULE then BATCH_CAP REC_MODULE
      else if kind = KIND_PC then BATCH_CAP REC_PC
      else if kind = KIND_LAUNCH_SAMPLED then 1
      else if kind = KIND_KERNEL_NAME then BATCH_CAP REC_KERNEL_NAME
      else if kind = KIND_STALL_MAP then BATCH_CAP REC_STALL_MAP
      else if kind = KIND_SAMPLING_WINDOW then BATCH_CAP REC_SAMPLING_WINDOW
      else if kind = KIND_CONFIG then BATCH_CAP REC_CONFIG
      else if kind = KIND_DROPPED then BATCH_CAP REC_DROPPED
      else 0)"

section \<open>State\<close>

abbreviation GPU_STACKS_SIZE :: nat where "GPU_STACKS_SIZE \<equiv> 4096"
abbreviation GPU_STACK_SEQ_BITS :: nat where "GPU_STACK_SEQ_BITS \<equiv> 18"
abbreviation GPU_STACK_SEQ_MASK :: u32 where "GPU_STACK_SEQ_MASK \<equiv> push_bit GPU_STACK_SEQ_BITS 1 - 1"
abbreviation GPU_STACK_CPU_MASK :: u32 where "GPU_STACK_CPU_MASK \<equiv> 0x1FFF"

abbreviation WALK_ERR_NO_SCRATCH :: u32 where "WALK_ERR_NO_SCRATCH \<equiv> 0"
abbreviation WALK_ERR_EMPTY :: u32 where "WALK_ERR_EMPTY \<equiv> 1"
abbreviation WALK_ERR_MAP_FULL :: u32 where "WALK_ERR_MAP_FULL \<equiv> 2"
abbreviation WALK_ERR_UPDATE :: u32 where "WALK_ERR_UPDATE \<equiv> 3"
abbreviation WALK_ERR_MAX :: u32 where "WALK_ERR_MAX \<equiv> 4"

text \<open>
  A submitted message: the header, and the payload bytes that were copied in. The stack id is
  the 32-bit pattern, read as signed where the program compares it with zero.
\<close>

record batch_msg =
  b_kind :: u32
  b_count :: u32
  b_seq :: u64
  b_pid :: u32
  b_tid :: u32
  b_bytes :: u64
  b_stack_id :: u32
  b_payload :: "u8 list"

record gpu_stack =
  gs_n_pcs :: u32
  gs_walker_flags :: u32
  gs_pcs :: "u64 list"
  gs_tags :: "u8 list"

record gpu_pending =
  q_ptr :: u64
  q_seq :: u64
  q_count :: u32
  q_kind :: u32
  q_bytes :: u32

record gpu_drv =
  g_events :: "batch_msg list"
  g_reserves :: nat
  g_dropped :: "u64 list"
  g_stacks_missing :: "u64 list"
  g_walk_errors :: "u64 list"
  g_stacks :: "(u32, gpu_stack) bpf_hash"
  g_stack_scratch :: "gpu_stack list"
  g_stack_id_seq :: "u32 list"
  g_pending_batch :: "gpu_pending list"

text \<open>What the helpers answer during one probe fire.\<close>

record gpu_env =
  n_cpu :: u32
  n_pid_tgid :: u64
  n_rb_room :: "nat \<Rightarrow> bool"

section \<open>Operations\<close>

definition count_drop :: "u32 \<Rightarrow> u64 \<Rightarrow> gpu_drv \<Rightarrow> gpu_drv" where
  "count_drop kind n d =
     (if kind \<ge> KIND_MAX then d else d\<lparr>g_dropped := array_add (g_dropped d) kind n\<rparr>)"

definition count_stack_missing :: "u32 \<Rightarrow> gpu_drv \<Rightarrow> gpu_drv" where
  "count_stack_missing kind d =
     (if kind \<ge> KIND_MAX then d else d\<lparr>g_stacks_missing := array_add (g_stacks_missing d) kind 1\<rparr>)"

definition count_walk_error :: "u32 \<Rightarrow> gpu_drv \<Rightarrow> gpu_drv" where
  "count_walk_error slot d =
     (if slot \<ge> WALK_ERR_MAX then d else d\<lparr>g_walk_errors := array_add (g_walk_errors d) slot 1\<rparr>)"

definition next_stack_id :: "u32 \<Rightarrow> gpu_drv \<Rightarrow> u32 \<times> gpu_drv" where
  "next_stack_id smp_processor_id d =
     (case array_lookup (g_stack_id_seq d) 0 of None \<Rightarrow> (- 1, d)
      | Some seq \<Rightarrow>
          let n = seq + 1;
              d = d\<lparr>g_stack_id_seq := array_store (g_stack_id_seq d) 0 n\<rparr>;
              cpu = smp_processor_id AND GPU_STACK_CPU_MASK
          in (push_bit GPU_STACK_SEQ_BITS cpu OR (n AND GPU_STACK_SEQ_MASK), d))"

definition gpu_publish_stack :: "u32 \<Rightarrow> sample_record \<Rightarrow> u32 \<Rightarrow> gpu_drv \<Rightarrow> u32 \<times> gpu_drv" where
  "gpu_publish_stack cpu r n d =
     (if n = 0 then (- 1, count_walk_error WALK_ERR_EMPTY d)
      else case array_lookup (g_stack_scratch d) 0 of
        None \<Rightarrow> (- 1, count_walk_error WALK_ERR_NO_SCRATCH d)
      | Some _ \<Rightarrow>
          let (id, d) = next_stack_id cpu d
          in if sint id < 0 then (- 1, count_walk_error WALK_ERR_NO_SCRATCH d)
             else
               let out = \<lparr>gs_n_pcs = n, gs_walker_flags = ucast (rec_flags r), gs_pcs = pcs r, gs_tags = tags r\<rparr>;
                   d = d\<lparr>g_stack_scratch := array_store (g_stack_scratch d) 0 out\<rparr>;
                   (ret, m) = hash_update (g_stacks d) id out BPF_NOEXIST;
                   d = d\<lparr>g_stacks := m\<rparr>
               in if ret \<noteq> 0
                  then (- 1, count_walk_error (if ret = - E2BIG then WALK_ERR_MAP_FULL else WALK_ERR_UPDATE) d)
                  else (id, d))"

definition ringbuf_reserve :: "gpu_env \<Rightarrow> gpu_drv \<Rightarrow> bool \<times> gpu_drv" where
  "ringbuf_reserve ge d = (n_rb_room ge (g_reserves d), d\<lparr>g_reserves := Suc (g_reserves d)\<rparr>)"

definition batch_of :: "gpu_env \<Rightarrow> u32 \<Rightarrow> u32 \<Rightarrow> u64 \<Rightarrow> u32 \<Rightarrow> u32 \<Rightarrow> u8 list \<Rightarrow> batch_msg" where
  "batch_of ge kind count seq bytes stack_id payload =
     \<lparr>b_kind = kind, b_count = count, b_seq = seq, b_pid = ucast (drop_bit 32 (n_pid_tgid ge)),
      b_tid = ucast (n_pid_tgid ge), b_bytes = ucast bytes, b_stack_id = stack_id, b_payload = payload\<rparr>"

definition ringbuf_submit :: "batch_msg \<Rightarrow> gpu_drv \<Rightarrow> gpu_drv" where
  "ringbuf_submit m d = d\<lparr>g_events := g_events d @ [m]\<rparr>"

definition gpu_sampled_finish :: "gpu_env \<Rightarrow> walk_env \<Rightarrow> gpu_drv finish" where
  "gpu_sampled_finish ge env n_pcs st r k d =
     (r, k,
      case array_lookup (g_pending_batch d) 0 of
        None \<Rightarrow> count_drop KIND_LAUNCH_SAMPLED 1 d
      | Some p \<Rightarrow>
          let kind = q_kind p; count = q_count p; bytes = q_bytes p; ptr = q_ptr p; seq = q_seq p
          in if kind \<noteq> KIND_LAUNCH_SAMPLED \<or> count \<noteq> 1 \<or> bytes \<noteq> REC_LAUNCH_SAMPLED
             then count_drop kind (ucast count) d
             else let (room, d) = ringbuf_reserve ge d
               in if \<not> room then count_drop kind (ucast count) d
                  else case probe_read_user (e_umem env) ptr (unat bytes) of
                    None \<Rightarrow> count_drop kind (ucast count) d
                  | Some payload \<Rightarrow>
                      let (stack_id, d) = gpu_publish_stack (n_cpu ge) r n_pcs d;
                          d = (if sint stack_id < 0 then count_stack_missing KIND_LAUNCH_SAMPLED d else d)
                      in ringbuf_submit (batch_of ge kind count seq bytes stack_id payload) d)"

definition gpu_sampled_walk ::
  "gpu_env \<Rightarrow> walk_env \<Rightarrow> (u32 \<Rightarrow> bool) \<Rightarrow> bool \<Rightarrow> ('m, gpu_drv) world \<Rightarrow> u32 option \<times> ('m, gpu_drv) world" where
  "gpu_sampled_walk ge env tail_call resumed x = driver_walk env (gpu_sampled_finish ge env) tail_call resumed x"

definition gpu_emit_plain :: "gpu_env \<Rightarrow> walk_env \<Rightarrow> u32 \<Rightarrow> u32 \<Rightarrow> u64 \<Rightarrow> u32 \<Rightarrow> u64 \<Rightarrow> gpu_drv \<Rightarrow> gpu_drv" where
  "gpu_emit_plain ge env kind count seq bytes ptr d =
     (let (room, d) = ringbuf_reserve ge d
      in if \<not> room then count_drop kind (ucast count) d
         else case probe_read_user (e_umem env) ptr (unat bytes) of
           None \<Rightarrow> count_drop kind (ucast count) d
         | Some payload \<Rightarrow> ringbuf_submit (batch_of ge kind count seq bytes (- 1) payload) d)"

record probe_args =
  a_cookie :: u64
  a_ptr :: u64
  a_count :: u64
  a_seq :: u64
  a_regs :: user_regs

definition gpu_usdt_batch ::
  "gpu_env \<Rightarrow> walk_env \<Rightarrow> 'm module_fn \<Rightarrow> (u32 \<Rightarrow> interp_prog option) \<Rightarrow> probe_args
    \<Rightarrow> ('m, gpu_drv) world \<Rightarrow> ('m, gpu_drv) world" where
  "gpu_usdt_batch ge env seg progs a x =
     (let ptr = a_ptr a; count = a_count a; seq = a_seq a; kind = ucast (a_cookie a) :: u32;
          rsz = record_size kind; cap = max_records kind
      in if rsz = 0 then x\<lparr>x_drv := count_drop KIND_UNKNOWN count (x_drv x)\<rparr>
         else if count = 0 then x
         else
           let x = (if count > ucast cap then x\<lparr>x_drv := count_drop kind (count - ucast cap) (x_drv x)\<rparr> else x);
               count = (if count > ucast cap then ucast cap else count);
               bytes = ucast count * rsz;
               bytes = (if bytes > PAYLOAD_BYTES then PAYLOAD_BYTES else bytes)
           in if kind \<noteq> KIND_LAUNCH_SAMPLED
              then x\<lparr>x_drv := gpu_emit_plain ge env kind (ucast count) seq bytes ptr (x_drv x)\<rparr>
              else if walk_state_get x = None \<or> walk_record_get x = None \<or> array_lookup (g_pending_batch (x_drv x)) 0 = None
              then
                let d = count_stack_missing KIND_LAUNCH_SAMPLED (count_walk_error WALK_ERR_NO_SCRATCH (x_drv x))
                in x\<lparr>x_drv := gpu_emit_plain ge env kind (ucast count) seq bytes ptr d\<rparr>
              else
                let p = \<lparr>q_ptr = ptr, q_seq = seq, q_count = ucast count, q_kind = kind, q_bytes = bytes\<rparr>;
                    x = x\<lparr>x_drv := (x_drv x)\<lparr>g_pending_batch := array_store (g_pending_batch (x_drv x)) 0 p\<rparr>\<rparr>;
                    tgid_tid = n_pid_tgid ge;
                    x = begin_sample (ucast (drop_bit 32 tgid_tid)) (ucast tgid_tid)
                          (r_ip (a_regs a)) (r_fp (a_regs a)) (r_sp (a_regs a)) x
                in run_tail env (gpu_sampled_finish ge env) seg progs MAX_TAIL_CALL_CNT
                     (gpu_sampled_walk ge env (callable progs MAX_TAIL_CALL_CNT) False x))"

section \<open>The size table\<close>

lemma record_size_known: "record_size kind \<noteq> 0 \<longleftrightarrow> kind \<in> {1, 2, 3, 4, 5, 6, 7, 8, 9, 10}"
  by (simp add: record_size_def)

lemma max_records_sizes:
  assumes "record_size kind \<noteq> 0"
  shows "1 \<le> unat (max_records kind)" "unat (max_records kind) \<le> 64"
    "unat (max_records kind) * unat (record_size kind) \<le> 3072" "kind < KIND_MAX"
  using assms unfolding record_size_known by (auto simp: record_size_def max_records_def BATCH_CAP_def)

lemma batch_bytes:
  assumes "record_size kind \<noteq> 0" and "count \<le> ucast (max_records kind)"
  shows "unat (ucast (count :: u64) * record_size kind :: u32) = unat count * unat (record_size kind)"
    and "unat count * unat (record_size kind) \<le> 3072" and "unat (ucast count :: u32) = unat count"
proof -
  note m = max_records_sizes [OF assms(1)]
  have c: "unat count \<le> unat (max_records kind)" using assms(2) by (simp add: word_le_nat_alt)
  then have "unat count \<le> 64" using m(2) by simp
  then show u: "unat (ucast count :: u32) = unat count" by (simp add: unsigned_ucast_eq take_bit_nat_eq_self)
  have "unat count * unat (record_size kind) \<le> unat (max_records kind) * unat (record_size kind)"
    using c by (rule mult_le_mono1)
  then show le: "unat count * unat (record_size kind) \<le> 3072" using m(3) by (rule order_trans)
  show "unat (ucast count * record_size kind :: u32) = unat count * unat (record_size kind)"
    using le by (simp add: unat_word_ariths(2) u)
qed

section \<open>Counters\<close>

text \<open>\<open>bump i n\<close> adds \<open>n\<close> to slot \<open>i\<close> of a counter array and to no other.\<close>

definition bump :: "u32 \<Rightarrow> u64 \<Rightarrow> u64 list \<Rightarrow> u64 list" where
  "bump i n xs = (if unat i < length xs then xs[unat i := xs ! unat i + n] else xs)"

lemma array_add_bump: "array_add xs i n = bump i n xs"
  by (simp add: array_add_def bump_def array_lookup_def array_store_def)

lemma length_bump [simp]: "length (bump i n xs) = length xs"
  by (simp add: bump_def)

lemma bump_bump [simp]: "bump i m (bump i n xs) = bump i (n + m) xs"
  by (simp add: bump_def algebra_simps)

lemma bump_zero [simp]: "bump i 0 xs = xs"
  by (simp add: bump_def)

lemma drop_fields [simp]:
  "g_events (count_drop kind n d) = g_events d" "g_stacks (count_drop kind n d) = g_stacks d"
  "g_pending_batch (count_drop kind n d) = g_pending_batch d"
  "g_walk_errors (count_drop kind n d) = g_walk_errors d" "g_stacks_missing (count_drop kind n d) = g_stacks_missing d"
  "g_dropped (count_drop kind n d) = (if kind < KIND_MAX then bump kind n (g_dropped d) else g_dropped d)"
  "g_reserves (count_drop kind n d) = g_reserves d"
  by (auto simp: count_drop_def array_add_bump not_le dest: leD)

lemma missing_fields [simp]:
  "g_events (count_stack_missing kind d) = g_events d" "g_stacks (count_stack_missing kind d) = g_stacks d"
  "g_dropped (count_stack_missing kind d) = g_dropped d" "g_walk_errors (count_stack_missing kind d) = g_walk_errors d"
  "g_stacks_missing (count_stack_missing kind d) =
     (if kind < KIND_MAX then bump kind 1 (g_stacks_missing d) else g_stacks_missing d)"
  "g_reserves (count_stack_missing kind d) = g_reserves d"
  by (auto simp: count_stack_missing_def array_add_bump not_le dest: leD)

lemma walk_error_fields [simp]:
  "g_events (count_walk_error s d) = g_events d" "g_stacks (count_walk_error s d) = g_stacks d"
  "g_dropped (count_walk_error s d) = g_dropped d" "g_stacks_missing (count_walk_error s d) = g_stacks_missing d"
  "g_walk_errors (count_walk_error s d) = (if s < WALK_ERR_MAX then bump s 1 (g_walk_errors d) else g_walk_errors d)"
  "g_reserves (count_walk_error s d) = g_reserves d"
  by (auto simp: count_walk_error_def array_add_bump not_le dest: leD)

lemma next_stack_id_fields [simp]:
  "g_events (snd (next_stack_id c d)) = g_events d" "g_stacks (snd (next_stack_id c d)) = g_stacks d"
  "g_dropped (snd (next_stack_id c d)) = g_dropped d" "g_stacks_missing (snd (next_stack_id c d)) = g_stacks_missing d"
  "g_walk_errors (snd (next_stack_id c d)) = g_walk_errors d" "g_stack_scratch (snd (next_stack_id c d)) = g_stack_scratch d"
  "g_reserves (snd (next_stack_id c d)) = g_reserves d"
  by (simp_all add: next_stack_id_def Let_def split: option.split)

section \<open>Stack ids\<close>

definition stack_id :: "u32 \<Rightarrow> u32 \<Rightarrow> u32" where
  "stack_id cpu n = push_bit 18 (take_bit 13 cpu) OR take_bit 18 n"

lemma next_stack_id_single:
  assumes "g_stack_id_seq d = [n]"
  shows "next_stack_id c d = (stack_id c (n + 1), d\<lparr>g_stack_id_seq := [n + 1]\<rparr>)"
proof -
  have "GPU_STACK_SEQ_MASK = mask 18" "GPU_STACK_CPU_MASK = mask 13" by (simp_all add: mask_eq_exp_minus_1)
  then show ?thesis
    using assms by (simp add: next_stack_id_def stack_id_def Let_def take_bit_eq_mask del: push_bit_of_1)
qed

lemma stack_id_low: "take_bit 18 (stack_id c n) = take_bit 18 n"
  by (rule bit_word_eqI) (auto simp: stack_id_def bit_simps)

lemma stack_id_high: "drop_bit 18 (stack_id c n) = take_bit 13 c"
  by (rule bit_word_eqI) (auto simp: stack_id_def bit_simps dest: bit_imp_le_length)

lemma stack_id_nonneg: "0 \<le> sint (stack_id c n)"
proof -
  have "\<not> bit (stack_id c n) 31" by (simp add: stack_id_def bit_simps)
  then show ?thesis by (simp add: sint_uint signed_take_bit_nonnegative_iff bit_uint_iff)
qed

lemma stack_id_eq:
  assumes "stack_id c n = stack_id c' n'"
  shows "take_bit 18 n = take_bit 18 n'" "take_bit 13 c = take_bit 13 c'"
  using assms by (metis stack_id_low, metis stack_id_high)

text \<open>The ids of successive captures on one CPU.\<close>

fun mint_ids :: "u32 \<Rightarrow> nat \<Rightarrow> gpu_drv \<Rightarrow> u32 list" where
  "mint_ids c 0 d = []"
| "mint_ids c (Suc k) d = (case next_stack_id c d of (i, d) \<Rightarrow> i # mint_ids c k d)"

lemma mint_ids_map:
  "g_stack_id_seq d = [n] \<Longrightarrow> mint_ids c k d = map (\<lambda>i. stack_id c (n + 1 + of_nat i)) [0..<k]"
proof (induction k arbitrary: d n)
  case (Suc k)
  have "[0..<Suc k] = 0 # map Suc [0..<k]" by (simp add: upt_conv_Cons map_Suc_upt)
  then show ?case
    using Suc.IH [of "d\<lparr>g_stack_id_seq := [n + 1]\<rparr>" "n + 1"] Suc.prems
    by (simp add: next_stack_id_single comp_def algebra_simps)
qed simp

lemma take_bit_of_nat_inj:
  assumes "take_bit 18 (n + of_nat i) = take_bit 18 (n + of_nat j :: u32)" and "i < 2 ^ 18" and "j < 2 ^ 18"
  shows "i = j"
proof -
  have l: "unat (take_bit 18 (n + of_nat k :: u32)) = (unat n + k) mod 262144" if "k < 2 ^ 18" for k
    using that
    by (simp add: unsigned_take_bit_eq take_bit_nat_def unat_word_ariths(1) unat_of_nat mod_mod_cancel mod_simps)
  have "(unat n + i) mod 262144 = (unat n + j) mod 262144"
    using arg_cong [OF assms(1), of unat] unfolding l [OF assms(2)] l [OF assms(3)] .
  from arg_cong [OF this, of int] have "int (unat n + i) mod 262144 = int (unat n + j) mod 262144"
    by (simp only: zmod_int of_nat_numeral)
  then have "262144 dvd int i - int j" by (simp add: mod_eq_dvd_iff)
  then obtain k where k: "int i - int j = 262144 * k" by (elim dvdE)
  then have "k < 1" "- 1 < k" using assms(2,3) by simp_all
  with k show ?thesis by simp
qed

section \<open>Publishing a stack\<close>

definition publish_error :: "u32 \<Rightarrow> u32 \<Rightarrow> u32 \<Rightarrow> gpu_drv \<Rightarrow> u32" where
  "publish_error c n s d =
     (if n = 0 then WALK_ERR_EMPTY else if g_stack_scratch d = [] then WALK_ERR_NO_SCRATCH
      else if hash_lookup (g_stacks d) (stack_id c (s + 1)) = None then WALK_ERR_MAP_FULL else WALK_ERR_UPDATE)"

lemma publish_outcome:
  assumes "gpu_publish_stack c r n d = (sid, d')" and "g_stack_id_seq d = [s]"
  shows "g_events d' = g_events d \<and> g_dropped d' = g_dropped d \<and> g_stacks_missing d' = g_stacks_missing d \<and>
    (if sint sid < 0
     then sid = - 1 \<and> g_stacks d' = g_stacks d \<and> 
       g_walk_errors d' = bump (publish_error c n s d) 1 (g_walk_errors d)
     else hash_lookup (g_stacks d) sid = None \<and> g_walk_errors d' = g_walk_errors d \<and> n \<noteq> 0 \<and>
       hash_lookup (g_stacks d') = (hash_lookup (g_stacks d))(sid \<mapsto>
         \<lparr>gs_n_pcs = n, gs_walker_flags = ucast (rec_flags r), gs_pcs = pcs r, gs_tags = tags r\<rparr>))"
proof -
  let ?out = "\<lparr>gs_n_pcs = n, gs_walker_flags = ucast (rec_flags r), gs_pcs = pcs r, gs_tags = tags r\<rparr>"
  let ?id = "stack_id c (s + 1)"
  consider "n = 0" | "n \<noteq> 0" "g_stack_scratch d = []" | q rest where "n \<noteq> 0" "g_stack_scratch d = q # rest"
    by (cases "g_stack_scratch d") auto
  then show ?thesis
  proof cases
    case 3
    obtain e m where u: "hash_update (g_stacks d) ?id ?out BPF_NOEXIST = (e, m)"
      by (cases "hash_update (g_stacks d) ?id ?out BPF_NOEXIST")
    have nn: "\<not> sint ?id < 0" using stack_id_nonneg [of c "s + 1"] by simp
    show ?thesis
    proof (cases "e = 0")
      case True
      have "hash_lookup (g_stacks d) ?id = None"
        using bhash.update_live [of "g_stacks d" ?id _ ?out] u True by (cases "hash_lookup (g_stacks d) ?id") auto
      moreover have "hash_lookup m = (hash_lookup (g_stacks d))(?id \<mapsto> ?out)" using bhash.update_ok u True by metis
      moreover have "sid = ?id" "d' = d\<lparr>g_stack_id_seq := [s + 1], g_stack_scratch := array_store (q # rest) 0 ?out, g_stacks := m\<rparr>"
        using assms 3 u True nn
        by (simp_all add: gpu_publish_stack_def next_stack_id_single array_lookup_def)
      ultimately show ?thesis using nn 3 by simp
    next
      case False
      then have "m = g_stacks d" using bhash.update_err u by metis
      moreover have "e = (if hash_lookup (g_stacks d) ?id = None then - E2BIG else - EEXIST)"
        using u False by (auto simp: hash_update_def split: option.splits if_splits)
      ultimately show ?thesis
        using assms 3 u False nn
        by (auto simp: gpu_publish_stack_def next_stack_id_single array_lookup_def publish_error_def errno_defs)
    qed
  qed (use assms in \<open>auto simp: gpu_publish_stack_def publish_error_def array_lookup_def\<close>)
qed

section \<open>Outcomes of a fire\<close>

text \<open>
  A clamped batch is either submitted whole, with the producer's bytes, or its records are
  counted as dropped, and that only when the ring is full or the bytes cannot be read.
\<close>

definition batch_outcome ::
  "gpu_env \<Rightarrow> walk_env \<Rightarrow> u32 \<Rightarrow> u32 \<Rightarrow> u64 \<Rightarrow> u32 \<Rightarrow> u64 \<Rightarrow> gpu_drv \<Rightarrow> gpu_drv \<Rightarrow> bool" where
  "batch_outcome ge env kind c seq bytes ptr d d' \<longleftrightarrow>
     (\<exists>sid pl. probe_read_user (e_umem env) ptr (unat bytes) = Some pl \<and> g_dropped d' = g_dropped d \<and>
        g_events d' = g_events d @ [batch_of ge kind c seq bytes sid pl]) \<or>
     (g_events d' = g_events d \<and> g_dropped d' = bump kind (ucast c) (g_dropped d) \<and>
        (n_rb_room ge (g_reserves d) \<longrightarrow> probe_read_user (e_umem env) ptr (unat bytes) = None))"

lemma reserve_room: "ringbuf_reserve ge d = (room, d') \<Longrightarrow> room \<longleftrightarrow> n_rb_room ge (g_reserves d)"
  by (auto simp: ringbuf_reserve_def)

lemma reserve_fields [simp]:
  "ringbuf_reserve ge d = (room, d') \<Longrightarrow> g_events d' = g_events d"
  "ringbuf_reserve ge d = (room, d') \<Longrightarrow> g_dropped d' = g_dropped d"
  by (auto simp: ringbuf_reserve_def)

lemma emit_plain_outcome:
  "kind < KIND_MAX \<Longrightarrow> batch_outcome ge env kind c seq bytes ptr d (gpu_emit_plain ge env kind c seq bytes ptr d)"
  by (auto simp: batch_outcome_def gpu_emit_plain_def ringbuf_submit_def split: prod.splits option.splits dest: reserve_room)

text \<open>The finish of a sampled launch, on the batch the entry program parked.\<close>

lemma sampled_finish_outcome:
  assumes "g_pending_batch d = \<lparr>q_ptr = ptr, q_seq = seq, q_count = 1, q_kind = KIND_LAUNCH_SAMPLED, q_bytes = 56\<rparr> # ps"
    and s: "g_stack_id_seq d = [s]" and d': "d' = snd (snd (gpu_sampled_finish ge env n st r k d))"
  shows "batch_outcome ge env KIND_LAUNCH_SAMPLED 1 seq 56 ptr d d'"
    and "n_rb_room ge (g_reserves d) \<Longrightarrow> probe_read_user (e_umem env) ptr 56 = Some pl \<Longrightarrow>
      (\<exists>sid d1. gpu_publish_stack (n_cpu ge) r n (d\<lparr>g_reserves := Suc (g_reserves d)\<rparr>) = (sid, d1) \<and>
        d' = ringbuf_submit (batch_of ge KIND_LAUNCH_SAMPLED 1 seq 56 sid pl)
               (if sint sid < 0 then count_stack_missing KIND_LAUNCH_SAMPLED d1 else d1))"
proof -
  let ?d = "d\<lparr>g_reserves := Suc (g_reserves d)\<rparr>"
  obtain sid d1 where p: "gpu_publish_stack (n_cpu ge) r n ?d = (sid, d1)" by (cases "gpu_publish_stack (n_cpu ge) r n ?d")
  then have o: "g_events d1 = g_events d" "g_dropped d1 = g_dropped d" using publish_outcome [OF p] s by simp_all
  have e: "d' = (if \<not> n_rb_room ge (g_reserves d) then count_drop KIND_LAUNCH_SAMPLED 1 ?d
      else case probe_read_user (e_umem env) ptr 56 of None \<Rightarrow> count_drop KIND_LAUNCH_SAMPLED 1 ?d
      | Some pl \<Rightarrow> ringbuf_submit (batch_of ge KIND_LAUNCH_SAMPLED 1 seq 56 sid pl)
          (if sint sid < 0 then count_stack_missing KIND_LAUNCH_SAMPLED d1 else d1))"
    unfolding d' gpu_sampled_finish_def snd_conv ringbuf_reserve_def array_lookup_def assms(1) Let_def
    by (simp add: p del: probe_read_user_numeral split: option.split)
  show "batch_outcome ge env KIND_LAUNCH_SAMPLED 1 seq 56 ptr d d'"
    unfolding e using o
    by (auto simp: batch_outcome_def ringbuf_submit_def simp del: probe_read_user_numeral split: option.split)
  show "\<exists>sid d1. gpu_publish_stack (n_cpu ge) r n ?d = (sid, d1) \<and>
      d' = ringbuf_submit (batch_of ge KIND_LAUNCH_SAMPLED 1 seq 56 sid pl)
             (if sint sid < 0 then count_stack_missing KIND_LAUNCH_SAMPLED d1 else d1)"
    if "n_rb_room ge (g_reserves d)" "probe_read_user (e_umem env) ptr 56 = Some pl"
    using e p that by (simp del: probe_read_user_numeral)
qed

interpretation gpu: sample_driver "gpu_sampled_finish ge env" for ge env
  by unfold_locales (auto simp: gpu_sampled_finish_def)

section \<open>A fire as a whole\<close>

text \<open>The records of a batch that fit, and the state once the others are counted.\<close>

definition clamped :: "probe_args \<Rightarrow> u64" where
  "clamped a = (let cap = ucast (max_records (ucast (a_cookie a))) in if a_count a > cap then cap else a_count a)"

definition clamp_drv :: "probe_args \<Rightarrow> gpu_drv \<Rightarrow> gpu_drv" where
  "clamp_drv a d = (let cap = ucast (max_records (ucast (a_cookie a)))
     in if a_count a > cap then count_drop (ucast (a_cookie a)) (a_count a - cap) d else d)"

definition park :: "probe_args \<Rightarrow> gpu_drv \<Rightarrow> gpu_drv" where
  "park a d = d\<lparr>g_pending_batch := array_store (g_pending_batch d) 0
     \<lparr>q_ptr = a_ptr a, q_seq = a_seq a, q_count = 1, q_kind = KIND_LAUNCH_SAMPLED, q_bytes = 56\<rparr>\<rparr>"

lemma clamp_drv_fields [simp]:
  "g_events (clamp_drv a d) = g_events d" "g_pending_batch (clamp_drv a d) = g_pending_batch d"
  "g_stack_id_seq (clamp_drv a d) = g_stack_id_seq d" "g_stacks (clamp_drv a d) = g_stacks d"
  "g_reserves (clamp_drv a d) = g_reserves d" "g_stack_scratch (clamp_drv a d) = g_stack_scratch d"
  "g_walk_errors (clamp_drv a d) = g_walk_errors d" "g_stacks_missing (clamp_drv a d) = g_stacks_missing d"
  by (simp_all add: clamp_drv_def Let_def count_drop_def)

lemma clamp_drv_dropped:
  assumes "record_size (ucast (a_cookie a)) \<noteq> 0"
  shows "g_dropped (clamp_drv a d) = bump (ucast (a_cookie a)) (a_count a - clamped a) (g_dropped d)"
  using max_records_sizes(4) [OF assms] by (auto simp: clamp_drv_def clamped_def Let_def)

lemma clamped_le: "clamped a \<le> ucast (max_records (ucast (a_cookie a)))" "clamped a \<le> a_count a"
  by (auto simp: clamped_def Let_def not_less)

lemma clamped_sampled:
  assumes "ucast (a_cookie a) = KIND_LAUNCH_SAMPLED" and "a_count a \<noteq> 0"
  shows "clamped a = 1"
proof (cases "a_count a > 1")
  case False
  then have "unat (a_count a) \<le> 1" "unat (a_count a) \<noteq> 0"
    using assms(2) by (simp_all add: not_less word_le_nat_alt unat_eq_0)
  then have "a_count a = 1" using word_eq_of_nat [of "a_count a" 1] by simp
  then show ?thesis using assms(1) by (simp add: clamped_def max_records_def)
qed (use assms(1) in \<open>simp add: clamped_def max_records_def\<close>)

text \<open>The clamp on the byte count is never taken, so it drops out of the program's equations.\<close>

lemma gpu_usdt_batch_eq:
  assumes "record_size (ucast (a_cookie a)) \<noteq> 0" and "a_count a \<noteq> 0"
  shows "gpu_usdt_batch ge env seg progs a x =
    (let kind = ucast (a_cookie a); bytes = ucast (clamped a) * record_size kind; d = clamp_drv a (x_drv x); x = x\<lparr>x_drv := d\<rparr>
     in if kind \<noteq> KIND_LAUNCH_SAMPLED
        then x\<lparr>x_drv := gpu_emit_plain ge env kind (ucast (clamped a)) (a_seq a) bytes (a_ptr a) d\<rparr>
        else if walk_state_get x = None \<or> walk_record_get x = None \<or> g_pending_batch d = []
        then x\<lparr>x_drv := gpu_emit_plain ge env kind (ucast (clamped a)) (a_seq a) bytes (a_ptr a)
                 (count_stack_missing KIND_LAUNCH_SAMPLED (count_walk_error WALK_ERR_NO_SCRATCH d))\<rparr>
        else run_sample env (gpu_sampled_finish ge env) seg progs MAX_TAIL_CALL_CNT
               (begin_sample (ucast (drop_bit 32 (n_pid_tgid ge))) (ucast (n_pid_tgid ge))
                 (r_ip (a_regs a)) (r_fp (a_regs a)) (r_sp (a_regs a)) (x\<lparr>x_drv := park a d\<rparr>)))"
proof -
  let ?kind = "ucast (a_cookie a) :: u32"
  note b = batch_bytes [OF assms(1) clamped_le(1)]
  have nb: "\<not> ucast (clamped a) * record_size ?kind > PAYLOAD_BYTES"
    using b(1,2) by (simp add: word_less_nat_alt)
  have c: "(if ucast (max_records ?kind) < a_count a then ucast (max_records ?kind) else a_count a) = clamped a"
    "(if ucast (max_records ?kind) < a_count a then x\<lparr>x_drv := count_drop ?kind (a_count a - ucast (max_records ?kind)) (x_drv x)\<rparr> else x) =
      x\<lparr>x_drv := clamp_drv a (x_drv x)\<rparr>"
    by (simp_all add: clamped_def clamp_drv_def Let_def)
  have w: "walk_state_get (x\<lparr>x_drv := d\<rparr>) = walk_state_get x" "walk_record_get (x\<lparr>x_drv := d\<rparr>) = walk_record_get x" for d
    by (simp_all add: walk_state_get_def walk_record_get_def)
  show ?thesis
  proof (cases "?kind = KIND_LAUNCH_SAMPLED")
    case True
    then have "clamped a = 1" "record_size ?kind = 56" using clamped_sampled assms(2) by (simp_all add: record_size_def)
    then show ?thesis
      unfolding gpu_usdt_batch_def Let_def c using assms True
      by (simp add: w park_def run_sample_def gpu_sampled_walk_def)
  next
    case False
    then show ?thesis unfolding gpu_usdt_batch_def Let_def c using assms nb by simp
  qed
qed

text \<open>The driver's state after a sampled launch that could be walked.\<close>

lemma gpu_sampled_run:
  assumes ok: "world_ok x" "py_mod_wf (x_mod x)" "cnt (x_mod x) 9 < - 1" "progs_ok progs"
    and a: "ucast (a_cookie a) = KIND_LAUNCH_SAMPLED" "a_count a \<noteq> 0" "g_pending_batch (x_drv x) \<noteq> []"
    and y: "y = gpu_usdt_batch ge env (py_walk_segment yenv) progs a x"
  obtains n st r k where "rec_wf r n" "x_drv y = snd (snd (gpu_sampled_finish ge env n st r k (park a (clamp_drv a (x_drv x)))))"
proof -
  let ?d = "park a (clamp_drv a (x_drv x))"
  let ?x = "x\<lparr>x_drv := ?d\<rparr>"
  have "world_ok ?x" "py_mod_wf (x_mod ?x)" "cnt (x_mod ?x) 9 < - 1"
    using ok by (simp_all add: world_ok_def holds_walk_def)
  moreover have "y = run_sample env (gpu_sampled_finish ge env) (py_walk_segment yenv) progs MAX_TAIL_CALL_CNT
      (begin_sample (ucast (drop_bit 32 (n_pid_tgid ge))) (ucast (n_pid_tgid ge))
        (r_ip (a_regs a)) (r_fp (a_regs a)) (r_sp (a_regs a)) ?x)"
    using a world_ok_gets [OF ok(1)] unfolding y
    by (subst gpu_usdt_batch_eq) (auto simp: record_size_def Let_def walk_state_get_def walk_record_get_def)
  ultimately obtain st r k r' where "walk_over (walk_load st r)"
      "gpu_sampled_finish ge env (p_n_pcs st) st r k (x_drv ?x) = (r', x_kernel y, x_drv y)"
    using gpu.sample_finishes [OF _ _ _ ok(4), of ?x y env ge env yenv] by metis
  then show thesis by (intro that [of r "p_n_pcs st" st k]) (simp_all add: walk_over_def w_wf_def)
qed

lemma park_fields [simp]:
  "g_events (park a d) = g_events d" "g_dropped (park a d) = g_dropped d" "g_stack_id_seq (park a d) = g_stack_id_seq d"
  "g_stacks (park a d) = g_stacks d" "g_reserves (park a d) = g_reserves d" "g_stack_scratch (park a d) = g_stack_scratch d"
  "g_walk_errors (park a d) = g_walk_errors d" "g_stacks_missing (park a d) = g_stacks_missing d"
  by (simp_all add: park_def)

lemma park_pending:
  "g_pending_batch d \<noteq> [] \<Longrightarrow> g_pending_batch (park a d) =
    \<lparr>q_ptr = a_ptr a, q_seq = a_seq a, q_count = 1, q_kind = KIND_LAUNCH_SAMPLED, q_bytes = 56\<rparr> # tl (g_pending_batch d)"
  by (cases "g_pending_batch d") (simp_all add: park_def array_store_def)

lemma gpu_batch_outcome:
  assumes ok: "world_ok x" "py_mod_wf (x_mod x)" "cnt (x_mod x) 9 < - 1" "progs_ok progs"
    and seq: "g_stack_id_seq (x_drv x) = [s]"
    and a: "record_size (ucast (a_cookie a)) \<noteq> 0" "a_count a \<noteq> 0"
    and y: "y = gpu_usdt_batch ge env (py_walk_segment yenv) progs a x"
  shows "batch_outcome ge env (ucast (a_cookie a)) (ucast (clamped a)) (a_seq a)
    (ucast (clamped a) * record_size (ucast (a_cookie a))) (a_ptr a) (clamp_drv a (x_drv x)) (x_drv y)"
proof (cases "ucast (a_cookie a) \<noteq> KIND_LAUNCH_SAMPLED")
  case True
  then show ?thesis
    using emit_plain_outcome [OF max_records_sizes(4) [OF a(1)]] by (simp add: y gpu_usdt_batch_eq [OF a] Let_def)
next
  case k: False
  note c = clamped_sampled [OF k [unfolded not_not] a(2)]
  show ?thesis
  proof (cases "g_pending_batch (x_drv x) = []")
    case True
    let ?d = "count_stack_missing KIND_LAUNCH_SAMPLED (count_walk_error WALK_ERR_NO_SCRATCH (clamp_drv a (x_drv x)))"
    have "batch_outcome ge env KIND_LAUNCH_SAMPLED 1 (a_seq a) 56 (a_ptr a) ?d
        (gpu_emit_plain ge env KIND_LAUNCH_SAMPLED 1 (a_seq a) 56 (a_ptr a) ?d)"
      by (rule emit_plain_outcome) simp
    then show ?thesis
      using k c True by (simp add: y gpu_usdt_batch_eq [OF a] Let_def batch_outcome_def record_size_def)
  next
    case False
    obtain n st r kn where "x_drv y = snd (snd (gpu_sampled_finish ge env n st r kn (park a (clamp_drv a (x_drv x)))))"
      using k by (auto intro: gpu_sampled_run [OF ok _ a(2) False y])
    from sampled_finish_outcome(1) [OF park_pending _ this] False seq
    have "batch_outcome ge env KIND_LAUNCH_SAMPLED 1 (a_seq a) 56 (a_ptr a) (park a (clamp_drv a (x_drv x))) (x_drv y)" by simp
    then show ?thesis using k c by (simp add: batch_outcome_def record_size_def)
  qed
qed

section \<open>Properties of the GPU consumer\<close>

lemma clamped_ucast: "record_size (ucast (a_cookie a)) \<noteq> 0 \<Longrightarrow> ucast (ucast (clamped a) :: u32) = clamped a"
  using batch_bytes(3) [OF _ clamped_le(1), of a] by (intro word_unat_eq_iff [THEN iffD2]) simp

lemma clamped_pos:
  assumes r: "record_size (ucast (a_cookie a)) \<noteq> 0" and "a_count a \<noteq> 0"
  shows "0 < (ucast (clamped a) :: u32)"
proof -
  have "unat (a_count a) \<noteq> 0" using assms(2) by (simp add: unat_eq_0)
  then have "unat (clamped a) \<noteq> 0"
    using max_records_sizes(1) [OF r] unfolding clamped_def Let_def by (simp split: if_split)
  then show ?thesis using batch_bytes(3) [OF r clamped_le(1)] by (simp add: word_less_nat_alt)
qed

text \<open>
  C28: no record handed to the consumer is lost silently. Whatever cookie and count a probe fires
  with, at most one message is submitted, it carries the producer's bytes, kind and sequence
  number with a byte count that matches its record count exactly, and the records not in it are
  added to the drop counter of the kind (of slot 0 for a cookie the program cannot size).
\<close>

theorem gpu_batch_accounted:
  assumes "world_ok x" and "py_mod_wf (x_mod x)" and "cnt (x_mod x) 9 < - 1" and "progs_ok progs"
    and "g_stack_id_seq (x_drv x) = [s]" and "kind = ucast (a_cookie a)"
    and "y = gpu_usdt_batch ge env (py_walk_segment yenv) progs a x"
  shows "\<exists>ms. g_events (x_drv y) = g_events (x_drv x) @ ms \<and> length ms \<le> 1 \<and>
    g_dropped (x_drv y) = bump (if record_size kind = 0 then KIND_UNKNOWN else kind)
      (a_count a - sum_list (map (\<lambda>m. ucast (b_count m)) ms)) (g_dropped (x_drv x)) \<and>
    list_all (\<lambda>m. b_kind m = kind \<and> b_seq m = a_seq a \<and> 0 < b_count m \<and>
      unat (b_bytes m) = unat (b_count m) * unat (record_size kind) \<and>
      probe_read_user (e_umem env) (a_ptr a) (unat (b_bytes m)) = Some (b_payload m)) ms"
proof (cases "record_size kind = 0 \<or> a_count a = 0")
  case True
  then have "y = (if record_size kind = 0 then x\<lparr>x_drv := count_drop KIND_UNKNOWN (a_count a) (x_drv x)\<rparr> else x)"
    unfolding assms(7) gpu_usdt_batch_def Let_def assms(6) [symmetric]
    by (elim disjE) (simp_all only: if_True if_P refl split: if_split)
  with True show ?thesis by (intro exI [of _ "[]"]) auto
next
  case False
  then have r: "record_size (ucast (a_cookie a)) \<noteq> 0" and c0: "a_count a \<noteq> 0" using assms(6) by simp_all
  note b = batch_bytes [OF r clamped_le(1)]
  note pos = clamped_pos [OF r c0] and u = clamped_ucast [OF r]
  from gpu_batch_outcome [OF assms(1-5) r c0 assms(7)] show ?thesis
    unfolding batch_outcome_def
  proof (elim disjE exE conjE)
    fix sid pl
    assume "probe_read_user (e_umem env) (a_ptr a) (unat (ucast (clamped a) * record_size (ucast (a_cookie a)))) = Some pl"
      "g_dropped (x_drv y) = g_dropped (clamp_drv a (x_drv x))"
      "g_events (x_drv y) = g_events (clamp_drv a (x_drv x)) @ [batch_of ge (ucast (a_cookie a)) (ucast (clamped a)) (a_seq a)
        (ucast (clamped a) * record_size (ucast (a_cookie a))) sid pl]"
    then show ?thesis
      using False assms(6) b pos u
      by (intro exI [of _ "[batch_of ge kind (ucast (clamped a)) (a_seq a) (ucast (clamped a) * record_size kind) sid pl]"])
        (simp add: batch_of_def clamp_drv_dropped [OF r])
  next
    assume "g_events (x_drv y) = g_events (clamp_drv a (x_drv x))"
      "g_dropped (x_drv y) = bump (ucast (a_cookie a)) (ucast (ucast (clamped a) :: u32)) (g_dropped (clamp_drv a (x_drv x)))"
    then show ?thesis
      using False assms(6) u by (intro exI [of _ "[]"]) (simp add: clamp_drv_dropped [OF r])
  qed
qed

text \<open>
  The size table is sound. Every known kind fits at least one record in a reservation, and
  for any count up to the kind's cap the byte count neither wraps in 32 bits nor exceeds the
  payload, so the final clamp never shortens a batch whose header still claims all its records.
\<close>

theorem batch_clamp_never_truncates:
  assumes "record_size kind \<noteq> 0" and "count \<le> ucast (max_records kind)"
  shows "0 < max_records kind \<and> unat (ucast (count :: u64) * record_size kind :: u32) = unat count * unat (record_size kind) \<and>
    ucast count * record_size kind \<le> PAYLOAD_BYTES"
  using batch_bytes [OF assms] max_records_sizes(1) [OF assms(1)] by (simp add: word_le_nat_alt word_less_nat_alt)

text \<open>
  Stack ids never name two live captures. The ids of up to \<open>2 ^ 18\<close> successive captures on
  one CPU are distinct, wherever the counter stands and also across its wrap-around, ids of two
  CPUs below 8192 never meet, and none reads as negative.
\<close>

theorem stack_ids_distinct:
  assumes "k \<le> 2 ^ 18" and "g_stack_id_seq d = [n]" and "g_stack_id_seq d' = [n']"
    and "c < 8192" and "c' < 8192" and "c \<noteq> c'"
  shows "distinct (mint_ids c k d) \<and> set (mint_ids c k d) \<inter> set (mint_ids c' k' d') = {} \<and>
    list_all (\<lambda>i. 0 \<le> sint i) (mint_ids c k d)"
proof (intro conjI)
  have "inj_on (\<lambda>i. stack_id c (n + 1 + of_nat i)) {0..<k}"
    using assms(1) by (auto intro!: inj_onI dest!: stack_id_eq(1) take_bit_of_nat_inj)
  then show "distinct (mint_ids c k d)" by (simp add: mint_ids_map [OF assms(2)] distinct_map)
  have "take_bit 13 w = w" if "w < 8192" for w :: u32
    using that by (simp add: word_unat_eq_iff unsigned_take_bit_eq take_bit_nat_eq_self word_less_nat_alt)
  then have "take_bit 13 c \<noteq> take_bit 13 c'" using assms(4-6) by simp
  then show "set (mint_ids c k d) \<inter> set (mint_ids c' k' d') = {}"
    by (auto simp: mint_ids_map [OF assms(2)] mint_ids_map [OF assms(3)] dest: stack_id_eq(2))
  show "list_all (\<lambda>i. 0 \<le> sint i) (mint_ids c k d)"
    by (simp add: mint_ids_map [OF assms(2)] list_all_iff stack_id_nonneg)
qed

text \<open>
  Publishing a stack either adds exactly one entry, under an id that was free, holding the
  walk's frames, tags and flags; or leaves the stack map as it was and counts the failure in
  exactly one slot, the one that names its cause. A capture whose id is still in use by an
  unread stack fails rather than replace it.
\<close>

theorem gpu_publish_stack_outcome:
  assumes "gpu_publish_stack c r n d = (sid, d')" and "g_stack_id_seq d = [s]"
  shows "if sint sid < 0
    then sid = - 1 \<and> g_stacks d' = g_stacks d \<and> g_walk_errors d' = bump (publish_error c n s d) 1 (g_walk_errors d)
    else hash_lookup (g_stacks d) sid = None \<and> g_walk_errors d' = g_walk_errors d \<and>
      hash_lookup (g_stacks d') = (hash_lookup (g_stacks d))(sid \<mapsto>
        \<lparr>gs_n_pcs = n, gs_walker_flags = ucast (rec_flags r), gs_pcs = pcs r, gs_tags = tags r\<rparr>)"
  using publish_outcome [OF assms] by (simp split: if_splits)

text \<open>
  A sampled launch whose record can be read is always delivered, and its stack is either
  published whole and decodable under the id in its header, or missing: then the header's id is
  negative, the stack map is untouched, and the loss is counted once by kind and once by cause.
\<close>

theorem sampled_launch_delivered:
  assumes "world_ok x" and "py_mod_wf (x_mod x)" and "cnt (x_mod x) 9 < - 1" and "progs_ok progs"
    and "g_stack_id_seq (x_drv x) = [s]" and "g_pending_batch (x_drv x) \<noteq> []"
    and "ucast (a_cookie a) = KIND_LAUNCH_SAMPLED" and "a_count a \<noteq> 0"
    and "n_rb_room ge (g_reserves (x_drv x))" and "probe_read_user (e_umem env) (a_ptr a) 56 = Some pl"
    and "y = gpu_usdt_batch ge env (py_walk_segment yenv) progs a x"
  shows "\<exists>m. g_events (x_drv y) = g_events (x_drv x) @ [m] \<and> b_count m = 1 \<and> b_payload m = pl \<and>
    (if sint (b_stack_id m) < 0
     then g_stacks (x_drv y) = g_stacks (x_drv x) \<and>
       g_stacks_missing (x_drv y) = bump KIND_LAUNCH_SAMPLED 1 (g_stacks_missing (x_drv x)) \<and>
       (\<exists>e. g_walk_errors (x_drv y) = bump e 1 (g_walk_errors (x_drv x)))
     else hash_lookup (g_stacks (x_drv x)) (b_stack_id m) = None \<and>
       g_stacks_missing (x_drv y) = g_stacks_missing (x_drv x) \<and> g_walk_errors (x_drv y) = g_walk_errors (x_drv x) \<and>
       (\<exists>gs. hash_lookup (g_stacks (x_drv y)) = (hash_lookup (g_stacks (x_drv x)))(b_stack_id m \<mapsto> gs) \<and> gs_n_pcs gs \<noteq> 0 \<and>
         \<not> snd (SplitSlots (take (unat (gs_n_pcs gs)) (gs_pcs gs)) (take (unat (gs_n_pcs gs)) (gs_tags gs)))))"
proof -
  let ?d = "park a (clamp_drv a (x_drv x))"
  obtain n st r k where wf: "rec_wf r n" and f: "x_drv y = snd (snd (gpu_sampled_finish ge env n st r k ?d))"
    by (rule gpu_sampled_run [OF assms(1-4,7,8,6,11)])
  have sq: "g_stack_id_seq ?d = [s]" "n_rb_room ge (g_reserves ?d)" using assms(5,9) by simp_all
  from assms(6) have "g_pending_batch (clamp_drv a (x_drv x)) \<noteq> []" by simp
  from sampled_finish_outcome(2) [OF park_pending [OF this] sq(1) f sq(2) assms(10)]
  obtain sid d1 where p: "gpu_publish_stack (n_cpu ge) r n (?d\<lparr>g_reserves := Suc (g_reserves ?d)\<rparr>) = (sid, d1)"
    and y: "x_drv y = ringbuf_submit (batch_of ge KIND_LAUNCH_SAMPLED 1 (a_seq a) 56 sid pl)
       (if sint sid < 0 then count_stack_missing KIND_LAUNCH_SAMPLED d1 else d1)" by blast
  note o = publish_outcome [OF p, of s]
  show ?thesis
    using o sq(1) y wf
    by (intro exI [of _ "batch_of ge KIND_LAUNCH_SAMPLED 1 (a_seq a) 56 sid pl"])
      (auto simp: ringbuf_submit_def batch_of_def rec_wf_def rec_slots_def split: if_splits)
qed

section \<open>Concrete fires\<close>

definition demo_gpu :: gpu_drv where
  "demo_gpu = \<lparr>g_events = [], g_reserves = 0, g_dropped = replicate 16 0, g_stacks_missing = replicate 16 0,
     g_walk_errors = replicate 4 0, g_stacks = \<lparr>entries = [], max_entries = GPU_STACKS_SIZE\<rparr>,
     g_stack_scratch = [\<lparr>gs_n_pcs = 0, gs_walker_flags = 0, gs_pcs = [], gs_tags = []\<rparr>], g_stack_id_seq = [0],
     g_pending_batch = [\<lparr>q_ptr = 0, q_seq = 0, q_count = 0, q_kind = 0, q_bytes = 0\<rparr>]\<rparr>"

definition demo_genv :: gpu_env where
  "demo_genv = \<lparr>n_cpu = 3, n_pid_tgid = 0x900000009, n_rb_room = \<lambda>n. True\<rparr>"

definition demo_args :: "u64 \<Rightarrow> u64 \<Rightarrow> probe_args" where
  "demo_args kind count = \<lparr>a_cookie = kind, a_ptr = 0x2000, a_count = count, a_seq = 1,
     a_regs = \<lparr>r_ip = 5, r_fp = 0x1000, r_sp = 0xFF0\<rparr>\<rparr>"

definition mem_env :: walk_env where
  "mem_env = claim_env\<lparr>e_umem := \<lambda>a. Some 0\<rparr>"

lemma mem_env_read: "probe_read_user (e_umem mem_env) a n = Some (replicate n 0)"
  by (induction n arbitrary: a) (simp_all add: mem_env_def)

theorem gpu_batch_accounted_witness:
  "case gpu_usdt_batch demo_genv mem_env (py_walk_segment py_demo_env) demo_progs (demo_args 6 64) (with_drv demo_gpu) of y \<Rightarrow>
   \<exists>ms. g_events (x_drv y) = g_events demo_gpu @ ms \<and> length ms \<le> 1 \<and>
    g_dropped (x_drv y) = bump 6 (64 - sum_list (map (\<lambda>m. ucast (b_count m)) ms)) (g_dropped demo_gpu) \<and>
    list_all (\<lambda>m. b_kind m = 6 \<and> b_seq m = 1 \<and> 0 < b_count m \<and> unat (b_bytes m) = unat (b_count m) * 272 \<and>
      probe_read_user (e_umem mem_env) 0x2000 (unat (b_bytes m)) = Some (b_payload m)) ms"
proof -
  have s: "g_stack_id_seq (x_drv (with_drv demo_gpu)) = [0]" by (simp add: demo_gpu_def)
  have k: "6 = (ucast (a_cookie (demo_args 6 64)) :: u32)" by (simp add: demo_args_def)
  show ?thesis
    using gpu_batch_accounted [OF with_drv_ok demo_world_ok(4) s k refl, of demo_genv mem_env py_demo_env]
    by (simp add: demo_args_def record_size_def del: probe_read_user_numeral)
qed

end
