(* ===== verification/Fp_Profilers.thy ===== *)
theory Fp_Profilers
  imports Bpf_Runtime
begin

text \<open>
  The frame-pointer profilers: the sampling CPU profiler of \<open>src/bpf/perf.bpf.c\<close>, which counts
  samples per stack, and the off-CPU profiler of \<open>src/bpf/offcpu.bpf.c\<close>, which adds up blocked
  nanoseconds per stack. Both let the kernel capture the stacks (\<open>bpf_get_stackid\<close>), whose
  answers are fields of the event, and both aggregate in a bounded hash map.

  The lemmas show that the aggregation is exact while the distinct stacks fit the map, and that
  an off-CPU interval is charged, with its exact length, to the stack captured when it began,
  however many other context switches happen in between.

  A program run is one step of these sequences. The programs of different CPUs share the maps and
  can interleave between the lookup of a count and its creation; \<open>accumulate_write\<close> is the second of
  these two accesses on its own, and \<open>accumulate_race_loses\<close> is what the interleaving costs. The
  exact statements are about runs that do not overlap on one key.
\<close>

section \<open>The on-CPU profiler\<close>

abbreviation PROFILE_MAPS_SIZE :: nat where "PROFILE_MAPS_SIZE \<equiv> 16384"

record sample_key =
  sk_pid :: u32
  sk_flags :: u32
  sk_kern_stack :: u64
  sk_user_stack :: u64

record pid_config =
  collect_user :: u8
  collect_kernel :: u8

record fp_cfg =
  f_system_wide :: bool
  f_kernel_stacks_enabled :: bool
  f_pids :: "u32 \<Rightarrow> pid_config option"

text \<open>One perf event: whom it interrupted and what the stack captures would return.\<close>

record fp_event =
  v_tgid_tid :: u64
  v_task :: "task option"
  v_kern_stackid :: u64
  v_user_stackid :: u64

text \<open>
  Add to the entry of a key, or create it; a full map refuses a new key. \<open>accumulate_write\<close> is the
  access that follows a lookup, on the map as it is by then: the addition through the pointer when the
  lookup found the entry, the creation when it did not.
\<close>

definition hash_accumulate :: "'k \<Rightarrow> u64 \<Rightarrow> ('k, u64) bpf_hash \<Rightarrow> ('k, u64) bpf_hash" where
  "hash_accumulate k v m =
     (case hash_lookup m k of Some w \<Rightarrow> hash_store m k (w + v) | None \<Rightarrow> snd (hash_update m k v BPF_NOEXIST))"

definition accumulate_write :: "bool \<Rightarrow> 'k \<Rightarrow> u64 \<Rightarrow> ('k, u64) bpf_hash \<Rightarrow> ('k, u64) bpf_hash" where
  "accumulate_write found k v m =
     (if found then (case hash_lookup m k of Some w \<Rightarrow> hash_store m k (w + v) | None \<Rightarrow> m)
      else snd (hash_update m k v BPF_NOEXIST))"

definition profile_key :: "fp_cfg \<Rightarrow> fp_event \<Rightarrow> sample_key option" where
  "profile_key cfg e =
     (let tgid = ucast (drop_bit 32 (v_tgid_tid e)) :: u32
      in case v_task e of None \<Rightarrow> None
         | Some task \<Rightarrow>
             if tgid = 0 then None
             else if has_flag (t_flags task) PF_KTHREAD then None
             else
               let config = (if f_system_wide cfg then None else f_pids cfg tgid)
               in if \<not> f_system_wide cfg \<and> config = None then None
                  else
                    let kern = (f_kernel_stacks_enabled cfg \<and> (f_system_wide cfg \<or>
                                  (case config of None \<Rightarrow> False | Some c \<Rightarrow> collect_kernel c \<noteq> 0)));
                        user = (f_system_wide cfg \<or> (case config of None \<Rightarrow> False | Some c \<Rightarrow> collect_user c \<noteq> 0))
                    in Some \<lparr>sk_pid = tgid, sk_flags = 0,
                         sk_kern_stack = (if kern then v_kern_stackid e else - 1),
                         sk_user_stack = (if user then v_user_stackid e else - 1)\<rparr>)"

definition profile :: "fp_cfg \<Rightarrow> fp_event \<Rightarrow> (sample_key, u64) bpf_hash \<Rightarrow> (sample_key, u64) bpf_hash" where
  "profile cfg e counts =
     (case profile_key cfg e of None \<Rightarrow> counts | Some key \<Rightarrow> hash_accumulate key 1 counts)"

section \<open>The off-CPU profiler\<close>

type_synonym start_key = "u32 \<times> u32"

record start_val =
  sv_timestamp :: u64
  sv_kern_stack :: u64
  sv_user_stack :: u64

record offcpu_key =
  ok_pid :: u32
  ok_kern_stack :: u64
  ok_user_stack :: u64

record offcpu_cfg =
  o_system_wide :: bool
  o_kernel_stacks_enabled :: bool
  o_pid_filter :: "u32 \<Rightarrow> bool"

record offcpu_state =
  o_start :: "(start_key, start_val) bpf_hash"
  o_counts :: "(offcpu_key, u64) bpf_hash"

record switch_event =
  w_now :: u64
  w_prev :: task
  w_next :: task
  w_kern_stackid :: u64
  w_user_stackid :: u64

definition should_track :: "offcpu_cfg \<Rightarrow> u32 \<Rightarrow> bool" where
  "should_track cfg tgid \<longleftrightarrow> o_system_wide cfg \<or> o_pid_filter cfg tgid"

definition fp_switch_out :: "offcpu_cfg \<Rightarrow> switch_event \<Rightarrow> offcpu_state \<Rightarrow> offcpu_state" where
  "fp_switch_out cfg e s =
     (let prev = w_prev e
      in if t_pid prev \<noteq> 0 \<and> should_track cfg (t_tgid prev) \<and> \<not> has_flag (t_flags prev) PF_KTHREAD then
           let sv = \<lparr>sv_timestamp = w_now e,
                     sv_kern_stack = (if o_kernel_stacks_enabled cfg then w_kern_stackid e else - 1),
                     sv_user_stack = w_user_stackid e\<rparr>
           in s\<lparr>o_start := snd (hash_update (o_start s) (t_pid prev, t_tgid prev) sv BPF_ANY)\<rparr>
         else s)"

definition fp_switch_in :: "offcpu_cfg \<Rightarrow> switch_event \<Rightarrow> offcpu_state \<Rightarrow> offcpu_state" where
  "fp_switch_in cfg e s =
     (let nxt = w_next e; sk = (t_pid nxt, t_tgid nxt)
      in if t_pid nxt \<noteq> 0 \<and> should_track cfg (t_tgid nxt) then
           (case hash_lookup (o_start s) sk of None \<Rightarrow> s
            | Some sv \<Rightarrow>
                if sv_timestamp sv > 0 then
                  let delta = w_now e - sv_timestamp sv;
                      ok = \<lparr>ok_pid = t_tgid nxt, ok_kern_stack = sv_kern_stack sv, ok_user_stack = sv_user_stack sv\<rparr>
                  in s\<lparr>o_counts := hash_accumulate ok delta (o_counts s), o_start := hash_delete (o_start s) sk\<rparr>
                else s)
         else s)"

definition handle_sched_switch :: "offcpu_cfg \<Rightarrow> switch_event \<Rightarrow> offcpu_state \<Rightarrow> offcpu_state" where
  "handle_sched_switch cfg e s = fp_switch_in cfg e (fp_switch_out cfg e s)"

section \<open>Bounded aggregation\<close>

text \<open>
  What aggregation needs of a map beyond its contract: a new key is accepted while the live keys
  leave room.
\<close>

locale bpf_map_sized = bpf_map lookup update delete store invar
  for lookup :: "'m \<Rightarrow> 'k \<Rightarrow> u64 option" and update :: "'m \<Rightarrow> 'k \<Rightarrow> u64 \<Rightarrow> upd_flag \<Rightarrow> int \<times> 'm"
    and delete store invar +
  fixes cap :: "'m \<Rightarrow> nat"
  assumes update_room: "invar m \<Longrightarrow> lookup m k = None \<Longrightarrow> card (dom (lookup m)) < cap m \<Longrightarrow> fst (update m k v BPF_NOEXIST) = 0"
    and cap_update: "cap (snd (update m k v f)) = cap m"
    and cap_store: "cap (store m k v) = cap m"
begin

lemma accumulate_lookup:
  assumes "invar m" and "k \<in> dom (lookup m) \<or> card (dom (lookup m)) < cap m"
  shows "lookup (case lookup m k of Some w \<Rightarrow> store m k (w + v) | None \<Rightarrow> snd (update m k v BPF_NOEXIST)) =
    (lookup m)(k \<mapsto> (case lookup m k of None \<Rightarrow> 0 | Some w \<Rightarrow> w) + v)"
proof (cases "lookup m k")
  case None
  then have "fst (update m k v BPF_NOEXIST) = 0" using assms update_room by auto
  then have "update m k v BPF_NOEXIST = (0, snd (update m k v BPF_NOEXIST))" by (metis prod.collapse)
  from update_ok [OF this] None show ?thesis by simp
next
  case (Some w)
  then show ?thesis by (simp add: lookup_store)
qed

lemma accumulate_invar:
  "invar m \<Longrightarrow> invar (case lookup m k of Some w \<Rightarrow> store m k (w + v) | None \<Rightarrow> snd (update m k v BPF_NOEXIST))"
  by (auto simp: invar_store invar_update split: option.split)

lemma accumulate_cap:
  "cap (case lookup m k of Some w \<Rightarrow> store m k (w + v) | None \<Rightarrow> snd (update m k v BPF_NOEXIST)) = cap m"
  by (auto simp: cap_store cap_update split: option.split)

end

lemma card_dom_hash: "hash_wf m \<Longrightarrow> card (dom (hash_lookup m)) = length (entries m)"
  using distinct_card [of "map fst (entries m)"]
  by (simp add: hash_lookup_def [abs_def] dom_map_of_conv_image_fst hash_wf_def)

interpretation counts: bpf_map_sized hash_lookup hash_update hash_delete hash_store hash_wf max_entries
  by unfold_locales (auto simp: hash_update_def hash_store_def card_dom_hash split: option.splits)

lemmas accumulate_simps =
  counts.accumulate_lookup [folded hash_accumulate_def]
  counts.accumulate_invar [folded hash_accumulate_def]
  counts.accumulate_cap [folded hash_accumulate_def]

text \<open>The value the consumer reads for a key, zero for a key that has no entry.\<close>

definition total :: "('k, u64) bpf_hash \<Rightarrow> 'k \<Rightarrow> u64" where
  "total m k = (case hash_lookup m k of None \<Rightarrow> 0 | Some v \<Rightarrow> v)"

lemma fold_accumulate:
  assumes "hash_wf m" and "finite K" and "dom (hash_lookup m) \<union> fst ` set kvs \<subseteq> K" and "card K \<le> max_entries m"
  shows "total (fold (\<lambda>(k, v). hash_accumulate k v) kvs m) k = total m k + sum_list [v. (k', v) \<leftarrow> kvs, k' = k] \<and>
    dom (hash_lookup (fold (\<lambda>(k, v). hash_accumulate k v) kvs m)) = dom (hash_lookup m) \<union> fst ` set kvs"
  using assms
proof (induction kvs arbitrary: m)
  case (Cons kv kvs)
  obtain k1 v1 where kv: "kv = (k1, v1)" by (cases kv)
  let ?m = "hash_accumulate k1 v1 m"
  have room: "k1 \<in> dom (hash_lookup m) \<or> card (dom (hash_lookup m)) < max_entries m"
  proof (cases "k1 \<in> dom (hash_lookup m)")
    case False
    then have "dom (hash_lookup m) \<subset> K" using Cons.prems(3) kv by auto
    then have "card (dom (hash_lookup m)) < card K" using Cons.prems(2) by (rule psubset_card_mono [rotated])
    then show ?thesis using Cons.prems(4) by simp
  qed simp
  note acc = accumulate_simps(1) [OF Cons.prems(1) room, of v1]
  have d: "dom (hash_lookup ?m) = insert k1 (dom (hash_lookup m))" by (simp add: acc)
  have ih: "hash_wf ?m" "dom (hash_lookup ?m) \<union> fst ` set kvs \<subseteq> K" "card K \<le> max_entries ?m"
    using Cons.prems kv d by (simp_all add: accumulate_simps)
  note h = Cons.IH [OF ih(1) Cons.prems(2) ih(2,3)]
  have "total ?m k = total m k + (if k1 = k then v1 else 0)" by (simp add: total_def acc)
  with h d show ?case by (auto simp: kv)
qed simp

text \<open>
  Two CPUs add to one key that has no entry. When the accesses of one come after those of the other both
  amounts are in the total; when both look up first, the second creation is refused and its amount is lost.
\<close>

lemma accumulate_as_two_accesses: "hash_accumulate k v m = accumulate_write (hash_lookup m k \<noteq> None) k v m"
  by (simp add: hash_accumulate_def accumulate_write_def split: option.split)

lemma accumulate_race_loses:
  assumes "hash_wf m" and "hash_lookup m k = None" and "length (entries m) < max_entries m"
  shows "total (hash_accumulate k v2 (hash_accumulate k v1 m)) k = v1 + v2"
    and "total (accumulate_write False k v2 (accumulate_write False k v1 m)) k = v1"
proof -
  have one: "hash_lookup (snd (hash_update m k v1 BPF_NOEXIST)) k = Some v1"
    using assms by (simp add: hash_update_def hash_lookup_def update_conv)
  then show "total (accumulate_write False k v2 (accumulate_write False k v1 m)) k = v1"
    using bhash.noexist_keeps_live [OF one] by (simp add: accumulate_write_def total_def)
  show "total (hash_accumulate k v2 (hash_accumulate k v1 m)) k = v1 + v2"
    using assms one by (simp add: hash_accumulate_def total_def bhash.lookup_store)
qed

section \<open>Operations on the off-CPU state\<close>

abbreviation thread_key :: "task \<Rightarrow> start_key" where
  "thread_key t \<equiv> (t_pid t, t_tgid t)"

lemma fp_switch_out_other:
  "thread_key (w_prev e) \<noteq> k \<Longrightarrow> hash_lookup (o_start (fp_switch_out cfg e s)) k = hash_lookup (o_start s) k"
  by (simp add: fp_switch_out_def Let_def bhash.update_other [of k])

lemma fp_switch_in_other:
  "thread_key (w_next e) \<noteq> k \<Longrightarrow> hash_lookup (o_start (fp_switch_in cfg e s)) k = hash_lookup (o_start s) k"
  by (auto simp: fp_switch_in_def Let_def split: option.split)

lemma fp_switch_out_counts [simp]: "o_counts (fp_switch_out cfg e s) = o_counts s"
  by (simp add: fp_switch_out_def Let_def)

lemma switches_other:
  assumes "list_all (\<lambda>e. thread_key (w_prev e) \<noteq> k \<and> thread_key (w_next e) \<noteq> k) es"
  shows "hash_lookup (o_start (fold (handle_sched_switch cfg) es s)) k = hash_lookup (o_start s) k"
  using assms
  by (induction es arbitrary: s) (simp_all add: handle_sched_switch_def fp_switch_out_other fp_switch_in_other)

lemma switch_counts_wf: "hash_wf (o_counts s) \<Longrightarrow> hash_wf (o_counts (handle_sched_switch cfg e s))"
  by (simp add: handle_sched_switch_def fp_switch_in_def Let_def accumulate_simps(2) split: option.split)

lemma switches_counts_wf: "hash_wf (o_counts s) \<Longrightarrow> hash_wf (o_counts (fold (handle_sched_switch cfg) es s))"
  by (induction es arbitrary: s) (simp_all add: switch_counts_wf)

section \<open>Properties of the frame-pointer profilers\<close>

text \<open>
  The on-CPU profile is exact. As long as the distinct stacks fit the map, after any sequence
  of perf events the count of every key has grown by exactly the number of accepted events with
  that process and those stacks, whether the key was new or already there.
\<close>

theorem profile_counts_samples:
  assumes "hash_wf m" and "card (dom (hash_lookup m) \<union> set (List.map_filter (profile_key cfg) es)) \<le> max_entries m"
  shows "total (fold (profile cfg) es m) k = total m k + of_nat (count_list (List.map_filter (profile_key cfg) es) k)"
proof -
  let ?kvs = "map (\<lambda>k. (k, 1)) (List.map_filter (profile_key cfg) es)"
  have "fold (profile cfg) es m = fold (\<lambda>(k, v). hash_accumulate k v) ?kvs m" for m
    by (induction es arbitrary: m) (auto simp: profile_def map_filter_simps split: option.split)
  moreover have "sum_list [v. (k', v) \<leftarrow> map (\<lambda>k. (k, 1)) ks, k' = k] = (of_nat (count_list ks k) :: u64)" for ks
    by (induction ks) simp_all
  moreover have "finite (dom (hash_lookup m))" by (simp add: hash_lookup_def [abs_def] finite_dom_map_of)
  ultimately show ?thesis
    using fold_accumulate [OF assms(1) _ _ assms(2), of ?kvs k] by (simp add: image_image)
qed

text \<open>
  C29: a blocked interval is charged in full, once, and to the right stack. A tracked thread that
  is switched out, whatever other threads are switched meanwhile, and is then switched in again
  adds exactly the time between the two switches to the entry of its process and of the stacks
  captured when it went off the CPU, to no other entry, and its start entry is gone.
\<close>

theorem fp_offcpu_interval_charged:
  assumes "t = w_prev e0" and "t_pid t \<noteq> 0" and "should_track cfg (t_tgid t)" and "\<not> has_flag (t_flags t) PF_KTHREAD"
    and "thread_key (w_next e0) \<noteq> thread_key t" and "w_now e0 \<noteq> 0"
    and "length (entries (o_start s0)) < max_entries (o_start s0)" and "hash_wf (o_counts s0)"
    and "list_all (\<lambda>e. thread_key (w_prev e) \<noteq> thread_key t \<and> thread_key (w_next e) \<noteq> thread_key t) es"
    and "s1 = fold (handle_sched_switch cfg) (e0 # es) s0"
    and "thread_key (w_next e1) = thread_key t" and "thread_key (w_prev e1) \<noteq> thread_key t" and "w_now e0 \<le> w_now e1"
    and "ok = \<lparr>ok_pid = t_tgid t, ok_kern_stack = (if o_kernel_stacks_enabled cfg then w_kern_stackid e0 else - 1),
      ok_user_stack = w_user_stackid e0\<rparr>"
    and "ok \<in> dom (hash_lookup (o_counts s1)) \<or> card (dom (hash_lookup (o_counts s1))) < max_entries (o_counts s1)"
    and "s2 = handle_sched_switch cfg e1 s1"
  shows "total (o_counts s2) = (total (o_counts s1))(ok := total (o_counts s1) ok + (w_now e1 - w_now e0)) \<and>
    unat (w_now e1 - w_now e0) = unat (w_now e1) - unat (w_now e0) \<and> hash_lookup (o_start s2) (thread_key t) = None"
proof -
  define sv where "sv = \<lparr>sv_timestamp = w_now e0,
    sv_kern_stack = (if o_kernel_stacks_enabled cfg then w_kern_stackid e0 else - 1), sv_user_stack = w_user_stackid e0\<rparr>"
  have "fst (hash_update (o_start s0) (thread_key t) sv BPF_ANY) = 0"
    using assms(7) by (auto simp: hash_update_def split: option.split)
  then have "hash_lookup (o_start (fp_switch_out cfg e0 s0)) (thread_key t) = Some sv"
    using assms(1-4) by (simp add: fp_switch_out_def Let_def bhash.update_key sv_def)
  then have "hash_lookup (o_start s1) (thread_key t) = Some sv"
    using assms(5,9,10) by (simp add: switches_other handle_sched_switch_def fp_switch_in_other)
  then have l: "hash_lookup (o_start (fp_switch_out cfg e1 s1)) (thread_key t) = Some sv"
    using assms(12) by (simp add: fp_switch_out_other)
  have "0 < sv_timestamp sv" using assms(6) by (simp add: sv_def word_neq_0_conv)
  with l assms(2,3,11,14) have s2: "s2 = (fp_switch_out cfg e1 s1)\<lparr>o_counts := hash_accumulate ok (w_now e1 - w_now e0) (o_counts s1),
      o_start := hash_delete (o_start (fp_switch_out cfg e1 s1)) (thread_key t)\<rparr>"
    by (simp add: assms(16) handle_sched_switch_def fp_switch_in_def Let_def sv_def)
  have "hash_wf (o_counts s1)" using switches_counts_wf [OF assms(8)] assms(10) by blast
  note acc = accumulate_simps(1) [OF this assms(15)]
  have "total (o_counts s2) = (total (o_counts s1))(ok := total (o_counts s1) ok + (w_now e1 - w_now e0))"
    by (rule ext) (simp add: total_def s2 acc)
  then show ?thesis using unat_diff_no_wrap [OF assms(13)] by (simp add: s2)
qed

section \<open>Concrete runs\<close>

definition fp_demo_cfg :: fp_cfg where
  "fp_demo_cfg = \<lparr>f_system_wide = True, f_kernel_stacks_enabled = False, f_pids = (\<lambda>p. None)\<rparr>"

definition fp_demo_event :: "u64 \<Rightarrow> fp_event" where
  "fp_demo_event u = \<lparr>v_tgid_tid = 0x900000009, v_task = Some \<lparr>t_pid = 9, t_tgid = 9, t_flags = 0\<rparr>,
     v_kern_stackid = 4, v_user_stackid = u\<rparr>"

definition fp_demo_map :: "('k, u64) bpf_hash" where
  "fp_demo_map = \<lparr>entries = [], max_entries = PROFILE_MAPS_SIZE\<rparr>"

lemma fp_demo_map_simps [simp]:
  "hash_lookup fp_demo_map = Map.empty" "hash_wf fp_demo_map" "max_entries fp_demo_map = PROFILE_MAPS_SIZE"
  by (simp_all add: fp_demo_map_def hash_wf_def hash_lookup_def [abs_def])

definition fp_demo_switch :: "u64 \<Rightarrow> u32 \<Rightarrow> u32 \<Rightarrow> switch_event" where
  "fp_demo_switch now p n = \<lparr>w_now = now, w_prev = \<lparr>t_pid = p, t_tgid = p, t_flags = 0\<rparr>,
     w_next = \<lparr>t_pid = n, t_tgid = n, t_flags = 0\<rparr>, w_kern_stackid = 4, w_user_stackid = 6\<rparr>"

definition fp_demo_ocfg :: offcpu_cfg where
  "fp_demo_ocfg = \<lparr>o_system_wide = True, o_kernel_stacks_enabled = True, o_pid_filter = (\<lambda>p. False)\<rparr>"

theorem fp_offcpu_interval_charged_witness:
  "case fold (handle_sched_switch fp_demo_ocfg) [fp_demo_switch 10 7 8, fp_demo_switch 20 8 9] \<lparr>o_start = \<lparr>entries = [], max_entries = 4\<rparr>,
      o_counts = fp_demo_map\<rparr> of s1 \<Rightarrow>
   case handle_sched_switch fp_demo_ocfg (fp_demo_switch 35 9 7) s1 of s2 \<Rightarrow>
   case \<lparr>ok_pid = 7, ok_kern_stack = 4, ok_user_stack = 6\<rparr> of ok \<Rightarrow>
     total (o_counts s2) = (total (o_counts s1))(ok := total (o_counts s1) ok + (35 - 10)) \<and>
     unat (35 - 10 :: u64) = unat (35 :: u64) - unat (10 :: u64) \<and> hash_lookup (o_start s2) (7, 7) = None"
proof -
  let ?s0 = "\<lparr>o_start = \<lparr>entries = [], max_entries = 4\<rparr>, o_counts = fp_demo_map\<rparr>"
  let ?e0 = "fp_demo_switch 10 7 8" and ?es = "[fp_demo_switch 20 8 9]" and ?e1 = "fp_demo_switch 35 9 7"
  let ?s1 = "fold (handle_sched_switch fp_demo_ocfg) (?e0 # ?es) ?s0"
  let ?t = "w_prev ?e0"
  have pre: "t_pid ?t \<noteq> 0" "should_track fp_demo_ocfg (t_tgid ?t)" "\<not> has_flag (t_flags ?t) PF_KTHREAD"
    "thread_key (w_next ?e0) \<noteq> thread_key ?t" "w_now ?e0 \<noteq> 0" "length (entries (o_start ?s0)) < max_entries (o_start ?s0)"
    "hash_wf (o_counts ?s0)" "list_all (\<lambda>e. thread_key (w_prev e) \<noteq> thread_key ?t \<and> thread_key (w_next e) \<noteq> thread_key ?t) ?es"
    "thread_key (w_next ?e1) = thread_key ?t" "thread_key (w_prev ?e1) \<noteq> thread_key ?t" "w_now ?e0 \<le> w_now ?e1"
    by (simp_all add: fp_demo_switch_def fp_demo_ocfg_def should_track_def has_flag_def)
  have "o_counts ?s1 = fp_demo_map"
    by (simp add: fp_demo_switch_def fp_demo_ocfg_def handle_sched_switch_def fp_switch_out_def fp_switch_in_def Let_def
        should_track_def hash_update_def hash_lookup_def)
  then have "k \<in> dom (hash_lookup (o_counts ?s1)) \<or> card (dom (hash_lookup (o_counts ?s1))) < max_entries (o_counts ?s1)" for k
    by simp
  note r = fp_offcpu_interval_charged [OF refl pre(1-8) refl pre(9-11) refl this refl]
  have "w_now ?e0 = 10" "w_now ?e1 = 35" "thread_key ?t = (7, 7)" "o_kernel_stacks_enabled fp_demo_ocfg"
    "w_kern_stackid ?e0 = 4" "w_user_stackid ?e0 = 6"
    by (simp_all add: fp_demo_switch_def fp_demo_ocfg_def)
  with r show ?thesis by (simp only: if_True prod.inject)
qed

end
