(* ===== verification/Cpu_Stats.thy ===== *)
theory Cpu_Stats
  imports Bpf_Runtime
begin

text \<open>
  The scheduler statistics of \<open>src/bpf/cpu.bpf.c\<close>: at every context switch a record of the
  outgoing thread (time on the CPU, hardware counter deltas, time it had waited on the
  run queue), kept up by a per-CPU timestamp, per-CPU counter readings and two maps keyed by thread.

  The lemmas follow a thread or a CPU through arbitrary interleavings of the other events: the
  reported on-CPU time is the time since the previous switch on that CPU, the reported run-queue
  latency the time from wake-up to switch-in, and counter deltas add up to the counter's movement.
\<close>

section \<open>State\<close>

abbreviation TASK_INTERRUPTIBLE :: u32 where "TASK_INTERRUPTIBLE \<equiv> 1"
abbreviation TASK_UNINTERRUPTIBLE :: u32 where "TASK_UNINTERRUPTIBLE \<equiv> 2"
abbreviation STATE_RUNNING :: u8 where "STATE_RUNNING \<equiv> 0"
abbreviation STATE_INTERRUPTIBLE :: u8 where "STATE_INTERRUPTIBLE \<equiv> 1"
abbreviation STATE_UNINTERRUPTIBLE :: u8 where "STATE_UNINTERRUPTIBLE \<equiv> 2"

record pid_stat_s =
  ps_tgid :: u32
  ps_delta_ns :: u64
  ps_runq_latency_ns :: u64
  ps_cycles :: u64
  ps_instructions :: u64
  ps_cache_misses :: u64
  ps_timestamp :: u64
  ps_prev_state :: u8
  ps_preempt :: u8

record sched_task = task +
  t_state :: u32

text \<open>
  The per-CPU arrays, one copy per CPU: the previous readings have one slot, \<open>last_seen\<close> has
  128 and is indexed by the CPU number.
\<close>

record cpu_state =
  m_prev_cycles :: "u32 \<Rightarrow> u64 list"
  m_prev_instructions :: "u32 \<Rightarrow> u64 list"
  m_prev_cache_misses :: "u32 \<Rightarrow> u64 list"
  m_hw_counters_enabled :: "u32 list"
  m_rb :: "pid_stat_s list"
  m_last_seen :: "u32 \<Rightarrow> u64 list"
  m_wakeup_ts :: "(u32, u64) bpf_hash"
  m_pid_runq_latency :: "(u32, u64) bpf_hash"

record cpu_cfg =
  s_system_wide :: bool
  s_pid_filter :: "u32 \<Rightarrow> bool"

text \<open>
  What the helpers answer at one switch: the clock, the CPU, whether the ring buffer has room,
  and each counter reading (\<open>None\<close> where \<open>bpf_perf_event_read_value\<close> fails).
\<close>

record sched_env =
  h_now :: u64
  h_cpu :: u32
  h_rb_room :: bool
  h_cycles :: "u64 option"
  h_instructions :: "u64 option"
  h_cache_misses :: "u64 option"

datatype sched_event =
    Wakeup u64 task
  | Wakeup_new u64 task
  | Switch sched_env bool sched_task sched_task

section \<open>Operations\<close>

definition read_counter_delta :: "u64 option \<Rightarrow> u64 list \<Rightarrow> u64 \<times> u64 list" where
  "read_counter_delta reading prev_map =
     (case reading of None \<Rightarrow> (0, prev_map)
      | Some counter \<Rightarrow>
          ((case array_lookup prev_map 0 of None \<Rightarrow> 0
            | Some prev \<Rightarrow> if counter > prev then counter - prev else 0),
           array_store prev_map 0 counter))"

definition classify_task_state :: "u32 \<Rightarrow> u8" where
  "classify_task_state state =
     (if has_flag state TASK_INTERRUPTIBLE then STATE_INTERRUPTIBLE
      else if has_flag state TASK_UNINTERRUPTIBLE then STATE_UNINTERRUPTIBLE
      else STATE_RUNNING)"

definition handle_wakeup :: "cpu_cfg \<Rightarrow> u64 \<Rightarrow> task \<Rightarrow> cpu_state \<Rightarrow> cpu_state" where
  "handle_wakeup cfg ts p s =
     (if \<not> s_system_wide cfg \<and> \<not> s_pid_filter cfg (t_tgid p) then s
      else if has_flag (t_flags p) PF_KTHREAD then s
      else s\<lparr>m_wakeup_ts := snd (hash_update (m_wakeup_ts s) (t_pid p) ts BPF_ANY)\<rparr>)"

definition handle_wakeup_new :: "cpu_cfg \<Rightarrow> u64 \<Rightarrow> task \<Rightarrow> cpu_state \<Rightarrow> cpu_state" where
  "handle_wakeup_new cfg ts p s =
     (if \<not> s_system_wide cfg \<and> \<not> s_pid_filter cfg (t_tgid p) then s
      else if has_flag (t_flags p) PF_KTHREAD then s
      else s\<lparr>m_wakeup_ts := snd (hash_update (m_wakeup_ts s) (t_pid p) ts BPF_ANY)\<rparr>)"

text \<open>The parts of \<open>handle_switch\<close> in its order: counters, elapsed time, NEXT, PREV, timestamp.\<close>

definition switch_counters :: "sched_env \<Rightarrow> cpu_state \<Rightarrow> (u64 \<times> u64 \<times> u64) \<times> cpu_state" where
  "switch_counters e s =
     (let cpu = h_cpu e
      in if (case array_lookup (m_hw_counters_enabled s) 0 of None \<Rightarrow> False | Some v \<Rightarrow> v \<noteq> 0) then
           let (cycles, m1) = read_counter_delta (h_cycles e) (m_prev_cycles s cpu);
               (instrs, m2) = read_counter_delta (h_instructions e) (m_prev_instructions s cpu);
               (miss, m3) = read_counter_delta (h_cache_misses e) (m_prev_cache_misses s cpu)
           in ((cycles, instrs, miss),
               s\<lparr>m_prev_cycles := (m_prev_cycles s)(cpu := m1), m_prev_instructions := (m_prev_instructions s)(cpu := m2),
                 m_prev_cache_misses := (m_prev_cache_misses s)(cpu := m3)\<rparr>)
         else ((0, 0, 0), s))"

definition switch_delta :: "sched_env \<Rightarrow> cpu_state \<Rightarrow> u64" where
  "switch_delta e s =
     (case array_lookup (m_last_seen s (h_cpu e)) (h_cpu e) of None \<Rightarrow> 0
      | Some last_ts \<Rightarrow> if last_ts \<noteq> 0 then h_now e - last_ts else 0)"

definition switch_next :: "sched_env \<Rightarrow> sched_task \<Rightarrow> cpu_state \<Rightarrow> cpu_state" where
  "switch_next e nxt s =
     (if t_pid nxt = 0 then s
      else case hash_lookup (m_wakeup_ts s) (t_pid nxt) of None \<Rightarrow> s
        | Some wake_ts \<Rightarrow>
            s\<lparr>m_pid_runq_latency := snd (hash_update (m_pid_runq_latency s) (t_pid nxt) (h_now e - wake_ts) BPF_ANY),
              m_wakeup_ts := hash_delete (m_wakeup_ts s) (t_pid nxt)\<rparr>)"

definition track_prev :: "cpu_cfg \<Rightarrow> sched_task \<Rightarrow> bool" where
  "track_prev cfg prev \<longleftrightarrow>
     (if s_system_wide cfg then \<not> has_flag (t_flags prev) PF_KTHREAD else s_pid_filter cfg (t_tgid prev))"

definition switch_prev ::
  "cpu_cfg \<Rightarrow> sched_env \<Rightarrow> bool \<Rightarrow> u64 \<Rightarrow> u64 \<times> u64 \<times> u64 \<Rightarrow> sched_task \<Rightarrow> cpu_state \<Rightarrow> cpu_state" where
  "switch_prev cfg e preempt delta cs prev s =
     (if t_pid prev = 0 then s
      else
        let st = classify_task_state (t_state prev)
        in if \<not> track_prev cfg prev then s
           else
             let s = (if h_rb_room e then
                        let lat = hash_lookup (m_pid_runq_latency s) (t_pid prev);
                            ps = \<lparr>ps_tgid = t_tgid prev, ps_delta_ns = delta,
                                  ps_runq_latency_ns = (case lat of None \<Rightarrow> 0 | Some l \<Rightarrow> l),
                                  ps_cycles = fst cs, ps_instructions = fst (snd cs), ps_cache_misses = snd (snd cs),
                                  ps_timestamp = h_now e, ps_prev_state = st, ps_preempt = (if preempt then 1 else 0)\<rparr>
                        in s\<lparr>m_pid_runq_latency := (if lat \<noteq> None then hash_delete (m_pid_runq_latency s) (t_pid prev)
                                                     else m_pid_runq_latency s),
                             m_rb := m_rb s @ [ps]\<rparr>
                      else s)
             in if preempt \<or> st = STATE_RUNNING
                then s\<lparr>m_wakeup_ts := snd (hash_update (m_wakeup_ts s) (t_pid prev) (h_now e) BPF_ANY)\<rparr>
                else s)"

definition switch_stamp :: "sched_env \<Rightarrow> cpu_state \<Rightarrow> cpu_state" where
  "switch_stamp e s = s\<lparr>m_last_seen := (m_last_seen s)(h_cpu e := array_store (m_last_seen s (h_cpu e)) (h_cpu e) (h_now e))\<rparr>"

definition handle_switch :: "cpu_cfg \<Rightarrow> sched_env \<Rightarrow> bool \<Rightarrow> sched_task \<Rightarrow> sched_task \<Rightarrow> cpu_state \<Rightarrow> cpu_state" where
  "handle_switch cfg e preempt prev nxt s =
     (let (cs, s) = switch_counters e s;
          delta = switch_delta e s;
          s = switch_next e nxt s;
          s = switch_prev cfg e preempt delta cs prev s
      in switch_stamp e s)"

fun sched_step :: "cpu_cfg \<Rightarrow> sched_event \<Rightarrow> cpu_state \<Rightarrow> cpu_state" where
  "sched_step cfg (Wakeup ts p) s = handle_wakeup cfg ts p s"
| "sched_step cfg (Wakeup_new ts p) s = handle_wakeup_new cfg ts p s"
| "sched_step cfg (Switch e preempt prev nxt) s = handle_switch cfg e preempt prev nxt s"

section \<open>What each part leaves alone\<close>

lemma switch_counters_fields [simp]:
  "m_rb (snd (switch_counters e s)) = m_rb s" "m_last_seen (snd (switch_counters e s)) = m_last_seen s"
  "m_wakeup_ts (snd (switch_counters e s)) = m_wakeup_ts s"
  "m_pid_runq_latency (snd (switch_counters e s)) = m_pid_runq_latency s"
  "m_hw_counters_enabled (snd (switch_counters e s)) = m_hw_counters_enabled s"
  by (simp_all add: switch_counters_def Let_def split: prod.split)

lemma switch_next_fields [simp]:
  "m_rb (switch_next e n s) = m_rb s" "m_last_seen (switch_next e n s) = m_last_seen s"
  "m_prev_cycles (switch_next e n s) = m_prev_cycles s"
  "m_prev_instructions (switch_next e n s) = m_prev_instructions s"
  "m_prev_cache_misses (switch_next e n s) = m_prev_cache_misses s"
  "m_hw_counters_enabled (switch_next e n s) = m_hw_counters_enabled s"
  by (simp_all add: switch_next_def split: option.split)

lemma switch_prev_fields [simp]:
  "m_last_seen (switch_prev cfg e p d cs t s) = m_last_seen s"
  "m_prev_cycles (switch_prev cfg e p d cs t s) = m_prev_cycles s"
  "m_prev_instructions (switch_prev cfg e p d cs t s) = m_prev_instructions s"
  "m_prev_cache_misses (switch_prev cfg e p d cs t s) = m_prev_cache_misses s"
  "m_hw_counters_enabled (switch_prev cfg e p d cs t s) = m_hw_counters_enabled s"
  by (simp_all add: switch_prev_def Let_def)

lemma switch_stamp_fields [simp]:
  "m_rb (switch_stamp e s) = m_rb s" "m_wakeup_ts (switch_stamp e s) = m_wakeup_ts s"
  "m_pid_runq_latency (switch_stamp e s) = m_pid_runq_latency s"
  "m_prev_cycles (switch_stamp e s) = m_prev_cycles s"
  "m_prev_instructions (switch_stamp e s) = m_prev_instructions s"
  "m_prev_cache_misses (switch_stamp e s) = m_prev_cache_misses s"
  "m_hw_counters_enabled (switch_stamp e s) = m_hw_counters_enabled s"
  by (simp_all add: switch_stamp_def)

lemma wakeup_fields [simp]:
  "m_rb (handle_wakeup cfg ts p s) = m_rb s" "m_last_seen (handle_wakeup cfg ts p s) = m_last_seen s"
  "m_pid_runq_latency (handle_wakeup cfg ts p s) = m_pid_runq_latency s"
  by (simp_all add: handle_wakeup_def)

lemma wakeup_new_eq: "handle_wakeup_new = handle_wakeup"
  by (intro ext) (simp add: handle_wakeup_new_def handle_wakeup_def)

lemma handle_switch_parts:
  "handle_switch cfg e p prev nxt s =
     switch_stamp e (switch_prev cfg e p (switch_delta e s) (fst (switch_counters e s)) prev
       (switch_next e nxt (snd (switch_counters e s))))"
  by (simp add: handle_switch_def Let_def switch_delta_def case_prod_unfold)

section \<open>The time of the last switch\<close>

fun last_switch :: "u32 \<Rightarrow> sched_event list \<Rightarrow> u64 \<Rightarrow> u64" where
  "last_switch c [] t = t"
| "last_switch c (Switch e p prev nxt # es) t = last_switch c es (if h_cpu e = c then h_now e else t)"
| "last_switch c (Wakeup ts q # es) t = last_switch c es t"
| "last_switch c (Wakeup_new ts q # es) t = last_switch c es t"

definition seen_wf :: "cpu_state \<Rightarrow> bool" where
  "seen_wf s \<longleftrightarrow> (\<forall>c. length (m_last_seen s c) = 128)"

lemma sched_step_seen:
  "m_last_seen (sched_step cfg ev s) =
     (case ev of Switch e p prev nxt \<Rightarrow>
        (m_last_seen s)(h_cpu e := array_store (m_last_seen s (h_cpu e)) (h_cpu e) (h_now e))
      | _ \<Rightarrow> m_last_seen s)"
  by (cases ev) (simp_all add: handle_switch_parts switch_stamp_def wakeup_new_eq)

lemma seen_wf_step: "seen_wf s \<Longrightarrow> seen_wf (sched_step cfg ev s)"
  by (auto simp: seen_wf_def sched_step_seen split: sched_event.split)

lemma seen_wf_steps: "seen_wf s \<Longrightarrow> seen_wf (fold (sched_step cfg) es s)"
  by (induction es arbitrary: s) (simp_all add: seen_wf_step)

lemma last_seen_steps:
  assumes "seen_wf s" and "unat c < 128"
  shows "m_last_seen (fold (sched_step cfg) es s) c ! unat c = last_switch c es (m_last_seen s c ! unat c)"
  using assms(1)
proof (induction es arbitrary: s)
  case (Cons ev es)
  have "m_last_seen (sched_step cfg ev s) c ! unat c =
      (case ev of Switch e p prev nxt \<Rightarrow> if h_cpu e = c then h_now e else m_last_seen s c ! unat c | _ \<Rightarrow> m_last_seen s c ! unat c)"
    using Cons.prems assms(2) by (simp add: sched_step_seen seen_wf_def array_store_def split: sched_event.split)
  with Cons.IH [OF seen_wf_step [OF Cons.prems], of cfg ev] show ?case by (cases ev) simp_all
qed simp

section \<open>A thread's entries\<close>

text \<open>Events in which the thread takes no part.\<close>

fun avoids :: "u32 \<Rightarrow> sched_event \<Rightarrow> bool" where
  "avoids pid (Wakeup ts p) \<longleftrightarrow> t_pid p \<noteq> pid"
| "avoids pid (Wakeup_new ts p) \<longleftrightarrow> t_pid p \<noteq> pid"
| "avoids pid (Switch e p prev nxt) \<longleftrightarrow> t_pid prev \<noteq> pid \<and> t_pid nxt \<noteq> pid"

lemma switch_next_other:
  assumes "t_pid nxt \<noteq> pid"
  shows "hash_lookup (m_wakeup_ts (switch_next e nxt s)) pid = hash_lookup (m_wakeup_ts s) pid"
    and "hash_lookup (m_pid_runq_latency (switch_next e nxt s)) pid = hash_lookup (m_pid_runq_latency s) pid"
  using assms by (auto simp: switch_next_def bhash.update_other split: option.split)

lemma switch_prev_other:
  assumes "t_pid prev \<noteq> pid"
  shows "hash_lookup (m_wakeup_ts (switch_prev cfg e p d cs prev s)) pid = hash_lookup (m_wakeup_ts s) pid"
    and "hash_lookup (m_pid_runq_latency (switch_prev cfg e p d cs prev s)) pid = hash_lookup (m_pid_runq_latency s) pid"
  using assms by (auto simp: switch_prev_def Let_def bhash.update_other)

lemma wakeup_other:
  "t_pid p \<noteq> pid \<Longrightarrow> hash_lookup (m_wakeup_ts (handle_wakeup cfg ts p s)) pid = hash_lookup (m_wakeup_ts s) pid"
  by (auto simp: handle_wakeup_def bhash.update_other)

lemma avoids_step:
  assumes "avoids pid ev"
  shows "hash_lookup (m_wakeup_ts (sched_step cfg ev s)) pid = hash_lookup (m_wakeup_ts s) pid"
    and "hash_lookup (m_pid_runq_latency (sched_step cfg ev s)) pid = hash_lookup (m_pid_runq_latency s) pid"
  using assms
  by (cases ev; simp add: wakeup_new_eq wakeup_other handle_switch_parts switch_prev_other switch_next_other)+

lemma avoids_steps:
  assumes "list_all (avoids pid) es"
  shows "hash_lookup (m_wakeup_ts (fold (sched_step cfg) es s)) pid = hash_lookup (m_wakeup_ts s) pid"
    and "hash_lookup (m_pid_runq_latency (fold (sched_step cfg) es s)) pid = hash_lookup (m_pid_runq_latency s) pid"
  using assms by (induction es arbitrary: s) (simp_all add: avoids_step)

text \<open>An update with room stores the value.\<close>

lemma hash_update_room:
  "length (entries m) < max_entries m \<Longrightarrow> hash_lookup (snd (hash_update m k v BPF_ANY)) k = Some v"
  by (auto simp: hash_update_def split: option.split)

text \<open>The record of a tracked outgoing thread.\<close>

lemma switch_emits:
  assumes "t_pid prev \<noteq> 0" and "track_prev cfg prev" and "h_rb_room e"
  shows "\<exists>ps. m_rb (handle_switch cfg e p prev nxt s) = m_rb s @ [ps] \<and> ps_tgid ps = t_tgid prev \<and>
    ps_delta_ns ps = switch_delta e s \<and> ps_timestamp ps = h_now e \<and>
    ps_runq_latency_ns ps = (case hash_lookup (m_pid_runq_latency (switch_next e nxt (snd (switch_counters e s)))) (t_pid prev)
       of None \<Rightarrow> 0 | Some l \<Rightarrow> l) \<and>
    hash_lookup (m_pid_runq_latency (handle_switch cfg e p prev nxt s)) (t_pid prev) = None"
  using assms by (auto simp: handle_switch_parts switch_prev_def Let_def)

section \<open>Counter deltas\<close>

fun counter_deltas :: "u64 option list \<Rightarrow> u64 list \<Rightarrow> u64 list" where
  "counter_deltas [] m = []"
| "counter_deltas (r # rs) m = (case read_counter_delta r m of (d, m) \<Rightarrow> d # counter_deltas rs m)"

lemma read_counter_delta_single:
  "read_counter_delta (Some v) [w] = (if v > w then v - w else 0, [v])" "read_counter_delta None m = (0, m)"
  by (simp_all add: read_counter_delta_def)

section \<open>Properties of the scheduler statistics\<close>

text \<open>
  C30: the on-CPU time of a switch record is the time since the previous context switch on the same
  CPU, and zero for the first one seen there, whatever wake-ups and switches on other CPUs were
  interleaved.
\<close>

theorem oncpu_time_since_last_switch:
  assumes "seen_wf s" and "unat (h_cpu e) < 128" and "t_pid prev \<noteq> 0" and "track_prev cfg prev" and "h_rb_room e"
    and "s1 = fold (sched_step cfg) es s"
    and "last_ts = last_switch (h_cpu e) es (m_last_seen s (h_cpu e) ! unat (h_cpu e))"
  shows "\<exists>ps. m_rb (sched_step cfg (Switch e p prev nxt) s1) = m_rb s1 @ [ps] \<and> ps_tgid ps = t_tgid prev \<and>
    ps_timestamp ps = h_now e \<and> ps_delta_ns ps = (if last_ts = 0 then 0 else h_now e - last_ts)"
proof -
  have "length (m_last_seen s1 (h_cpu e)) = 128"
    using seen_wf_steps [OF assms(1)] assms(6) by (simp add: seen_wf_def)
  then have "switch_delta e s1 = (if last_ts = 0 then 0 else h_now e - last_ts)"
    using last_seen_steps [OF assms(1,2), of cfg es] assms(2,6,7) by (simp add: switch_delta_def array_lookup_def)
  with switch_emits [OF assms(3-5), of p nxt s1] show ?thesis by auto
qed

text \<open>
  The run-queue latency of a thread's record is the time from its wake-up to the moment it was
  given the CPU, although the two and the record itself are made by three different events with
  any number of events of other threads in between, and the stored latency is used only once.
\<close>

theorem runq_latency_reported:
  assumes "t_pid w = pid" and "pid \<noteq> 0" and "s_system_wide cfg \<or> s_pid_filter cfg (t_tgid w)" and "\<not> has_flag (t_flags w) PF_KTHREAD"
    and "length (entries (m_wakeup_ts s)) < max_entries (m_wakeup_ts s)" and "list_all (avoids pid) es1"
    and "s1 = fold (sched_step cfg) (Wakeup ts w # es1) s"
    and "t_pid nxt1 = pid" and "t_pid prev1 \<noteq> pid"
    and "length (entries (m_pid_runq_latency s1)) < max_entries (m_pid_runq_latency s1)" and "list_all (avoids pid) es2"
    and "s2 = fold (sched_step cfg) (Switch e1 p1 prev1 nxt1 # es2) s1"
    and "t_pid prev2 = pid" and "t_pid nxt2 \<noteq> pid" and "track_prev cfg prev2" and "h_rb_room e2"
    and "s3 = sched_step cfg (Switch e2 p2 prev2 nxt2) s2"
  shows "\<exists>ps. m_rb s3 = m_rb s2 @ [ps] \<and> ps_tgid ps = t_tgid prev2 \<and> ps_runq_latency_ns ps = h_now e1 - ts \<and>
    hash_lookup (m_pid_runq_latency s3) pid = None"
proof -
  have "hash_lookup (m_wakeup_ts (handle_wakeup cfg ts w s)) pid = Some ts"
    using assms(1,3-5) by (auto simp: handle_wakeup_def hash_update_room)
  then have "hash_lookup (m_wakeup_ts s1) pid = Some ts" using assms(6,7) by (simp add: avoids_steps)
  then have "hash_lookup (m_pid_runq_latency (switch_next e1 nxt1 (snd (switch_counters e1 s1)))) pid = Some (h_now e1 - ts)"
    using assms(2,8,10) by (simp add: switch_next_def hash_update_room)
  then have "hash_lookup (m_pid_runq_latency (handle_switch cfg e1 p1 prev1 nxt1 s1)) pid = Some (h_now e1 - ts)"
    using assms(9) by (simp add: handle_switch_parts switch_prev_other)
  then have "hash_lookup (m_pid_runq_latency s2) pid = Some (h_now e1 - ts)" using assms(11,12) by (simp add: avoids_steps)
  then have "hash_lookup (m_pid_runq_latency (switch_next e2 nxt2 (snd (switch_counters e2 s2)))) pid = Some (h_now e1 - ts)"
    using assms(14) by (simp add: switch_next_other)
  moreover have "t_pid prev2 \<noteq> 0" using assms(2,13) by simp
  ultimately show ?thesis
    using switch_emits [OF _ assms(15,16), of p2 nxt2 s2] assms(13,17) by auto
qed

text \<open>
  Hardware counter deltas add up. Over any sequence of reads of a counter that does not run
  backwards, failed reads included, the deltas reported sum, without wrap-around, to the movement
  of the counter from the stored reading to the last successful one: nothing is counted twice and
  nothing is lost.
\<close>

theorem counter_deltas_telescope:
  assumes "sorted (v # List.map_filter (\<lambda>r. r) rs)"
  shows "sum_list (map unat (counter_deltas rs [v])) = unat (last (v # List.map_filter (\<lambda>r. r) rs)) - unat v"
  using assms
proof (induction rs arbitrary: v)
  case (Cons r rs)
  show ?case
  proof (cases r)
    case None
    with Cons show ?thesis by (simp add: read_counter_delta_single map_filter_simps)
  next
    case (Some w)
    let ?l = "last (w # List.map_filter (\<lambda>r. r) rs)"
    have vw: "v \<le> w" and srt: "sorted (w # List.map_filter (\<lambda>r. r) rs)" using Cons.prems Some by (simp_all add: map_filter_simps)
    have "w \<le> ?l" using srt by (cases "List.map_filter (\<lambda>r. r) rs") auto
    then have le: "unat v \<le> unat w" "unat w \<le> unat ?l" using vw by (simp_all add: word_le_nat_alt)
    have "unat (if v < w then w - v else 0) = unat w - unat v"
      using unat_diff_no_wrap [OF vw] vw by auto
    then show ?thesis
      using Cons.IH [OF srt] Some le by (simp add: read_counter_delta_single map_filter_simps)
  qed
qed (simp add: map_filter_simps)

text \<open>
  C31: on a CPU numbered 128 or above the on-CPU time is never measured: every record made there
  reports zero, however long the thread ran, because \<open>last_seen\<close> has 128 slots and both its lookup
  and its update fail.
\<close>

theorem cpu_beyond_128_reports_zero:
  assumes "seen_wf s" and "128 \<le> unat (h_cpu e)" and "t_pid prev \<noteq> 0" and "track_prev cfg prev" and "h_rb_room e"
    and "s1 = fold (sched_step cfg) es s"
  shows "\<exists>ps. m_rb (sched_step cfg (Switch e p prev nxt) s1) = m_rb s1 @ [ps] \<and> ps_tgid ps = t_tgid prev \<and> ps_delta_ns ps = 0"
proof -
  have "length (m_last_seen s1 (h_cpu e)) = 128"
    using seen_wf_steps [OF assms(1)] assms(6) by (simp add: seen_wf_def)
  then have "switch_delta e s1 = 0" using assms(2) by (simp add: switch_delta_def array_lookup_def)
  with switch_emits [OF assms(3-5), of p nxt s1] show ?thesis by auto
qed

section \<open>Concrete runs\<close>

definition st_demo_cfg :: cpu_cfg where
  "st_demo_cfg = \<lparr>s_system_wide = True, s_pid_filter = (\<lambda>p. False)\<rparr>"

definition st_demo :: cpu_state where
  "st_demo = \<lparr>m_prev_cycles = (\<lambda>c. [0]), m_prev_instructions = (\<lambda>c. [0]), m_prev_cache_misses = (\<lambda>c. [0]),
     m_hw_counters_enabled = [1], m_rb = [], m_last_seen = (\<lambda>c. replicate 128 0),
     m_wakeup_ts = \<lparr>entries = [], max_entries = 10240\<rparr>, m_pid_runq_latency = \<lparr>entries = [], max_entries = 10240\<rparr>\<rparr>"

definition st_task :: "u32 \<Rightarrow> sched_task" where
  "st_task p = \<lparr>t_pid = p, t_tgid = p, t_flags = 0, t_state = 1\<rparr>"

definition st_env :: "u64 \<Rightarrow> u32 \<Rightarrow> sched_env" where
  "st_env now cpu = \<lparr>h_now = now, h_cpu = cpu, h_rb_room = True, h_cycles = Some 5, h_instructions = None, h_cache_misses = Some 1\<rparr>"

lemma st_demo_seen: "seen_wf st_demo"
  by (simp add: seen_wf_def st_demo_def)

lemma st_tracked: "p \<noteq> 0 \<Longrightarrow> t_pid (st_task p) \<noteq> 0" "track_prev st_demo_cfg (st_task p)" "h_rb_room (st_env n c)"
  by (simp_all add: st_task_def track_prev_def st_demo_cfg_def st_env_def has_flag_def)

theorem oncpu_time_since_last_switch_witness:
  "case fold (sched_step st_demo_cfg) [Switch (st_env 10 2) False (st_task 4) (st_task 5), Switch (st_env 20 3) False (st_task 6) (st_task 7)]
      st_demo of s1 \<Rightarrow>
    \<exists>ps. m_rb (sched_step st_demo_cfg (Switch (st_env 30 2) False (st_task 5) (st_task 4)) s1) = m_rb s1 @ [ps] \<and> ps_tgid ps = 5 \<and>
      ps_timestamp ps = 30 \<and> ps_delta_ns ps = 20"
  using oncpu_time_since_last_switch [where e = "st_env 30 2" and prev = "st_task 5" and nxt = "st_task 4" and p = False and
      es = "[Switch (st_env 10 2) False (st_task 4) (st_task 5), Switch (st_env 20 3) False (st_task 6) (st_task 7)]",
      OF st_demo_seen _ st_tracked refl refl]
  by (simp add: st_env_def st_task_def)

theorem cpu_beyond_128_reports_zero_witness:
  "case fold (sched_step st_demo_cfg) [Switch (st_env 10 130) False (st_task 4) (st_task 5)] st_demo of s1 \<Rightarrow>
    \<exists>ps. m_rb (sched_step st_demo_cfg (Switch (st_env 30 130) False (st_task 5) (st_task 4)) s1) = m_rb s1 @ [ps] \<and>
      ps_tgid ps = 5 \<and> ps_delta_ns ps = 0"
  using cpu_beyond_128_reports_zero [where e = "st_env 30 130" and prev = "st_task 5" and nxt = "st_task 4" and p = False and
      es = "[Switch (st_env 10 130) False (st_task 4) (st_task 5)]", OF st_demo_seen _ st_tracked refl]
  by (simp add: st_env_def st_task_def)

end
