(* ===== verification/Shim_Sampler.thy ===== *)
theory Shim_Sampler
  imports Prelude
begin

text \<open>
  The launch sampler of the injected shim, \<open>src/shim/core/sampler.h\<close>: one launch in \<open>period\<close>
  carries a CPU stack, at gaps that are a pure function of the sample point.

  \<open>should_sample\<close> is modelled twice. For one launching thread it is a function on the sampler's
  state. For many it is a step relation on the shared atomics, one step per atomic access, in any
  interleaving (sequentially consistent), with a log of the claimed sample points.

  The lemmas show that every gap lies in the documented band for every 32-bit period, that one
  thread samples exactly the points of the chain, that threads together claim a prefix of the
  chain in order and each point once, and that a thread can claim a point late enough for a later
  point to be left unclaimed.
\<close>

section \<open>The schedule\<close>

abbreviation kDefaultSeed :: u64 where "kDefaultSeed \<equiv> 0x9E3779B97F4A7C15"

definition mix :: "u64 \<Rightarrow> u64" where
  "mix x =
     (let x = x XOR drop_bit 30 x;
          x = x * 0xBF58476D1CE4E5B9;
          x = x XOR drop_bit 27 x;
          x = x * 0x94D049BB133111EB
      in x XOR drop_bit 31 x)"

definition gap_at :: "u64 \<Rightarrow> u32 \<Rightarrow> u64 \<Rightarrow> u64" where
  "gap_at seq period seed =
     (if period \<le> 1 then 1
      else
        let k = period div 2;
            span = 2 * k + 1;
            r = mix (seed XOR (seq * 0x9E3779B97F4A7C15));
            off = ucast (drop_bit 32 (drop_bit 32 r * ucast span)) :: u32
        in ucast period - ucast k + ucast off)"

section \<open>One launching thread\<close>

record sampler =
  sm_period :: u32
  sm_seed :: u64
  sm_next :: u64
  sm_observed :: u64
  sm_sampled :: u64

definition new_sampler :: "u32 \<Rightarrow> u64 \<Rightarrow> sampler" where
  "new_sampler period seed = \<lparr>sm_period = (if period = 0 then 1 else period), sm_seed = seed, sm_next = 0, sm_observed = 0, sm_sampled = 0\<rparr>"

text \<open>
  With one thread the exchange can only fail spuriously, in which case the loop repeats it on the
  same value; the call returns what its first success returns.
\<close>

definition should_sample :: "sampler \<Rightarrow> bool \<times> sampler" where
  "should_sample s =
     (let n = sm_observed s; s = s\<lparr>sm_observed := n + 1\<rparr>
      in if n \<ge> sm_next s
         then (True, s\<lparr>sm_next := sm_next s + gap_at (sm_next s) (sm_period s) (sm_seed s), sm_sampled := sm_sampled s + 1\<rparr>)
         else (False, s))"

definition set_period :: "u32 \<Rightarrow> sampler \<Rightarrow> sampler" where
  "set_period p s = s\<lparr>sm_period := (if p = 0 then 1 else p), sm_next := sm_observed s\<rparr>"

fun launches :: "nat \<Rightarrow> sampler \<Rightarrow> bool list \<times> sampler" where
  "launches 0 s = ([], s)"
| "launches (Suc n) s = (let (bs, s) = launches n s; (b, s) = should_sample s in (bs @ [b], s))"

section \<open>Many launching threads\<close>

datatype thread_state = Idle | Fetched u64 | Checking u64 u64 | Won u64

record shared =
  c_next :: u64
  c_observed :: u64
  c_sampled :: u64
  c_threads :: "thread_state list"
  c_claims :: "(u64 \<times> u64) list"

definition start_shared :: "nat \<Rightarrow> shared" where
  "start_shared k = \<lparr>c_next = 0, c_observed = 0, c_sampled = 0, c_threads = replicate k Idle, c_claims = []\<rparr>"

inductive sample_step :: "u32 \<Rightarrow> u64 \<Rightarrow> shared \<Rightarrow> shared \<Rightarrow> bool" for p sd where
  fetch_add: "\<lbrakk>t < length (c_threads c); c_threads c ! t = Idle\<rbrakk> \<Longrightarrow>
    sample_step p sd c (c\<lparr>c_observed := c_observed c + 1, c_threads := (c_threads c)[t := Fetched (c_observed c)]\<rparr>)"
| load: "\<lbrakk>t < length (c_threads c); c_threads c ! t = Fetched n\<rbrakk> \<Longrightarrow>
    sample_step p sd c (c\<lparr>c_threads := (c_threads c)[t := Checking n (c_next c)]\<rparr>)"
| not_due: "\<lbrakk>t < length (c_threads c); c_threads c ! t = Checking n nx; n < nx\<rbrakk> \<Longrightarrow>
    sample_step p sd c (c\<lparr>c_threads := (c_threads c)[t := Idle]\<rparr>)"
| exchange: "\<lbrakk>t < length (c_threads c); c_threads c ! t = Checking n nx; nx \<le> n; c_next c = nx\<rbrakk> \<Longrightarrow>
    sample_step p sd c (c\<lparr>c_next := nx + gap_at nx p sd, c_threads := (c_threads c)[t := Won n],
      c_claims := c_claims c @ [(nx, n)]\<rparr>)"
| exchange_fails: "\<lbrakk>t < length (c_threads c); c_threads c ! t = Checking n nx; nx \<le> n\<rbrakk> \<Longrightarrow>
    sample_step p sd c (c\<lparr>c_threads := (c_threads c)[t := Checking n (c_next c)]\<rparr>)"
| count: "\<lbrakk>t < length (c_threads c); c_threads c ! t = Won n\<rbrakk> \<Longrightarrow>
    sample_step p sd c (c\<lparr>c_sampled := c_sampled c + 1, c_threads := (c_threads c)[t := Idle]\<rparr>)"

inductive_cases sample_stepE: "sample_step p sd c c'"

section \<open>The gap band\<close>

lemma unat_drop_bit_32: "unat (drop_bit 32 (w :: u64)) = unat w div 2 ^ 32"
  by (simp add: unsigned_drop_bit_eq drop_bit_nat_def take_bit_nat_eq_self)

lemma gap_at_band:
  assumes "1 < period"
  shows "unat (gap_at seq period seed) \<in> {unat period - unat period div 2 .. unat period + unat period div 2}"
proof -
  define r where "r = drop_bit 32 (mix (seed XOR (seq * 0x9E3779B97F4A7C15)))"
  define k where "k = unat period div 2"
  let ?span = "2 * (period div 2) + 1 :: u32"
  have p: "unat period < 2 ^ 32" by simp
  have kp: "k \<le> unat period" by (simp add: k_def)
  have odd: "2 * k + 1 < 2 ^ 32"
  proof -
    have "k < 2147483648" using less_mult_imp_div_less [of "unat period" 2147483648 2] by (simp add: k_def)
    then show ?thesis by simp
  qed
  have uk: "unat (period div 2) = k" by (simp add: k_def unat_div)
  have span: "unat ?span = 2 * k + 1" using odd by (simp add: unat_word_ariths(1,2) uk)
  have "unat r < 2 ^ 32"
    unfolding r_def unat_drop_bit_32 by (rule less_mult_imp_div_less) simp
  then have "unat r * (2 * k + 1) < 2 ^ 32 * (2 * k + 1)" by (rule mult_strict_right_mono) simp
  then have le: "unat r * (2 * k + 1) < (2 * k + 1) * 2 ^ 32" by (simp only: mult.commute)
  moreover have "(2 * k + 1) * 2 ^ 32 < (2 :: nat) ^ 64" using odd by simp
  ultimately have lt: "unat r * (2 * k + 1) < 2 ^ 64" by (rule less_trans)
  have "unat (r * ucast ?span) = unat r * (2 * k + 1)"
    using lt by (simp add: unat_word_ariths(2) span)
  then have "unat (drop_bit 32 (r * ucast ?span)) < 2 * k + 1"
    unfolding unat_drop_bit_32 using less_mult_imp_div_less [OF le] by (simp only:)
  then have off64: "unat (drop_bit 32 (r * ucast ?span)) \<le> 2 * k" by simp
  define off where "off = (ucast (drop_bit 32 (r * ucast ?span)) :: u32)"
  have off: "unat off \<le> 2 * k"
    using off64 odd by (simp add: off_def unsigned_ucast_eq take_bit_nat_eq_self)
  have g: "gap_at seq period seed = ucast period - ucast (period div 2) + ucast off"
    using assms by (simp add: gap_at_def Let_def off_def r_def leD [of 1 period] linorder_not_le [symmetric])
  have "unat (ucast period - ucast (period div 2) :: u64) = unat period - k"
    using kp by (subst unat_diff_no_wrap) (simp_all add: uk word_le_nat_alt)
  moreover have "unat period - k + unat off < 2 ^ 64"
  proof -
    have "2 * k < 4294967296" using odd by simp
    with off unat_lt_max [of period] have "unat period - k + unat off < 18446744073709551616" by linarith
    then show ?thesis by simp
  qed
  ultimately have "unat (gap_at seq period seed) = unat period - k + unat off"
    by (simp add: g unat_word_ariths(1) mod_less del: diff_add_assoc2)
  then show ?thesis using off kp by (auto simp: k_def)
qed

lemma gap_at_pos: "0 < unat (gap_at seq period seed)"
proof (cases "1 < period")
  case True
  then have "unat period - unat period div 2 > 0" by (simp add: word_less_nat_alt)
  with gap_at_band [OF True, of seq seed] show ?thesis by auto
qed (simp add: gap_at_def not_less)

lemma gap_at_bound: "unat (gap_at seq period seed) \<le> 2 ^ 33"
proof (cases "1 < period")
  case True
  have "unat (gap_at seq period seed) \<le> unat period + unat period div 2"
    using gap_at_band [OF True, of seq seed] by simp
  then have "unat (gap_at seq period seed) \<le> 8589934592" using unat_lt_max [of period] by linarith
  then show ?thesis by simp
qed (simp add: gap_at_def not_less)

section \<open>The chain of sample points\<close>

fun chain :: "u32 \<Rightarrow> u64 \<Rightarrow> nat \<Rightarrow> nat" where
  "chain p sd 0 = 0"
| "chain p sd (Suc i) = chain p sd i + unat (gap_at (of_nat (chain p sd i)) p sd)"

lemma chain_step: "chain p sd i < chain p sd (Suc i)"
  using gap_at_pos [of "of_nat (chain p sd i)" p sd] by simp

lemma chain_strict_mono: "strict_mono (chain p sd)"
  by (rule strict_mono_Suc_iff [THEN iffD2]) (blast intro: chain_step)

text \<open>
  After \<open>n\<close> launches of one thread the next sample point is the first point of the chain not
  below \<open>n\<close>.
\<close>

definition at_chain :: "u32 \<Rightarrow> u64 \<Rightarrow> nat \<Rightarrow> nat \<Rightarrow> sampler \<Rightarrow> bool" where
  "at_chain p sd n m s \<longleftrightarrow> sm_period s = p \<and> sm_seed s = sd \<and> unat (sm_observed s) = n \<and> unat (sm_sampled s) = m \<and>
     unat (sm_next s) = chain p sd m \<and> n \<le> chain p sd m \<and> chain p sd m \<le> n + 2 ^ 33 \<and> (\<forall>i < m. chain p sd i < n)"

lemma at_chain_step:
  assumes "at_chain p sd n m s" and "n + 2 ^ 34 < 2 ^ 64"
  shows "fst (should_sample s) \<longleftrightarrow> chain p sd m = n"
    and "at_chain p sd (Suc n) (if chain p sd m = n then Suc m else m) (snd (should_sample s))"
proof -
  have due: "sm_next s \<le> sm_observed s \<longleftrightarrow> chain p sd m = n"
    using assms(1) by (auto simp: at_chain_def word_le_nat_alt)
  then show "fst (should_sample s) \<longleftrightarrow> chain p sd m = n" by (simp add: should_sample_def Let_def)
  have obs: "unat (sm_observed s + 1) = Suc n" using assms by (simp add: at_chain_def unat_word_ariths(1))
  show "at_chain p sd (Suc n) (if chain p sd m = n then Suc m else m) (snd (should_sample s))"
  proof (cases "chain p sd m = n")
    case True
    have nx: "sm_next s = of_nat n" using assms(1) True by (auto simp: at_chain_def intro: word_eq_of_nat)
    let ?g = "gap_at (of_nat n) p sd"
    have g: "unat (sm_next s + ?g) = n + unat ?g"
      using gap_at_bound [of "of_nat n" p sd] assms True by (simp add: at_chain_def unat_word_ariths(1))
    have "m \<le> chain p sd m" by (rule strict_mono_imp_increasing [OF chain_strict_mono])
    then have smp: "unat (sm_sampled s + 1) = Suc m"
      using assms True by (simp add: at_chain_def unat_word_ariths(1))
    have "chain p sd (Suc m) = n + unat ?g" using True by simp
    moreover have "0 < unat ?g" "unat ?g \<le> 2 ^ 33" by (rule gap_at_pos, rule gap_at_bound)
    ultimately show ?thesis
      using assms(1) True due obs g smp nx
      by (auto simp: at_chain_def should_sample_def Let_def less_Suc_eq simp del: chain.simps)
  next
    case False
    then show ?thesis
      using assms(1) due obs by (auto simp: at_chain_def should_sample_def Let_def less_Suc_eq)
  qed
qed

lemma launches_at_chain:
  assumes "n + 2 ^ 34 < 2 ^ 64"
  shows "\<exists>m. at_chain (if p = 0 then 1 else p) sd n m (snd (launches n (new_sampler p sd))) \<and>
    fst (launches n (new_sampler p sd)) = map (\<lambda>i. i \<in> range (chain (if p = 0 then 1 else p) sd)) [0..<n]"
  using assms
proof (induction n)
  case 0
  show ?case by (intro exI [of _ 0]) (simp add: at_chain_def new_sampler_def)
next
  case (Suc n)
  let ?p = "if p = 0 then 1 else p" and ?s = "snd (launches n (new_sampler p sd))"
  obtain m where m: "at_chain ?p sd n m ?s" and l: "fst (launches n (new_sampler p sd)) = map (\<lambda>i. i \<in> range (chain ?p sd)) [0..<n]"
    using Suc by auto
  have "n + 2 ^ 34 < 2 ^ 64" using Suc.prems by simp
  note st = at_chain_step [OF m this]
  have "n \<in> range (chain ?p sd) \<longleftrightarrow> chain ?p sd m = n"
  proof
    assume "n \<in> range (chain ?p sd)"
    then obtain j where j: "n = chain ?p sd j" by blast
    from m have "\<forall>i < m. chain ?p sd i < n" "n \<le> chain ?p sd m" by (simp_all add: at_chain_def)
    then have "\<not> j < m" "\<not> m < j"
      using j strict_mono_less [OF chain_strict_mono [of ?p sd], of m j] by force+
    with j show "chain ?p sd m = n" by (metis linorder_neqE_nat)
  qed blast
  with l st(1) have "fst (launches (Suc n) (new_sampler p sd)) = map (\<lambda>i. i \<in> range (chain ?p sd)) [0..<Suc n]"
    by (simp add: case_prod_unfold Let_def)
  moreover have "snd (launches (Suc n) (new_sampler p sd)) = snd (should_sample ?s)" by (simp add: case_prod_unfold Let_def)
  ultimately show ?case using st(2) by auto
qed

section \<open>Interleavings\<close>

fun chain_word :: "u32 \<Rightarrow> u64 \<Rightarrow> nat \<Rightarrow> u64" where
  "chain_word p sd 0 = 0"
| "chain_word p sd (Suc i) = chain_word p sd i + gap_at (chain_word p sd i) p sd"

definition winners :: "shared \<Rightarrow> nat" where
  "winners c = length (filter (\<lambda>t. \<exists>n. t = Won n) (c_threads c))"

definition claims_ok :: "u32 \<Rightarrow> u64 \<Rightarrow> shared \<Rightarrow> bool" where
  "claims_ok p sd c \<longleftrightarrow> map fst (c_claims c) = map (chain_word p sd) [0..<length (c_claims c)] \<and>
     c_next c = chain_word p sd (length (c_claims c)) \<and> list_all (\<lambda>(q, n). q \<le> n) (c_claims c) \<and>
     c_sampled c + of_nat (winners c) = of_nat (length (c_claims c))"

lemma filter_length_update:
  assumes "t < length xs"
  shows "length (filter P (xs[t := x])) + (if P (xs ! t) then 1 else 0) = length (filter P xs) + (if P x then 1 else 0)"
  using assms
proof (induction xs arbitrary: t)
  case (Cons y ys)
  then show ?case by (cases t) auto
qed simp

lemma winners_update:
  assumes "t < length (c_threads c)"
  shows "winners (c\<lparr>c_threads := (c_threads c)[t := x]\<rparr>) + (if \<exists>n. c_threads c ! t = Won n then 1 else 0) =
    winners c + (if \<exists>n. x = Won n then 1 else 0)"
  using filter_length_update [OF assms, of "\<lambda>t. \<exists>n. t = Won n" x] by (simp add: winners_def)

lemma claims_ok_start: "claims_ok p sd (start_shared k)"
  by (simp add: claims_ok_def start_shared_def winners_def)

lemma claims_ok_step:
  assumes "sample_step p sd c c'" and ok: "claims_ok p sd c"
  shows "claims_ok p sd c'"
  using assms(1)
proof cases
  case (fetch_add t)
  with winners_update [of t c "Fetched (c_observed c)"] ok show ?thesis by (simp add: claims_ok_def winners_def)
next
  case (load t n)
  with winners_update [of t c "Checking n (c_next c)"] ok show ?thesis by (simp add: claims_ok_def winners_def)
next
  case (not_due t n nx)
  with winners_update [of t c Idle] ok show ?thesis by (simp add: claims_ok_def winners_def)
next
  case (exchange t n nx)
  with winners_update [of t c "Won n"] ok show ?thesis by (simp add: claims_ok_def winners_def algebra_simps)
next
  case (exchange_fails t n nx)
  with winners_update [of t c "Checking n (c_next c)"] ok show ?thesis by (simp add: claims_ok_def winners_def)
next
  case (count t n)
  with winners_update [of t c Idle] have "Suc (winners c') = winners c" by (simp add: winners_def)
  then have "of_nat (winners c) = (1 + of_nat (winners c') :: u64)" by (metis of_nat_Suc)
  with count ok show ?thesis by (simp add: claims_ok_def algebra_simps)
qed

lemma claims_ok_reachable: "(sample_step p sd)\<^sup>*\<^sup>* (start_shared k) c \<Longrightarrow> claims_ok p sd c"
  by (induction rule: rtranclp_induct) (auto intro: claims_ok_start claims_ok_step)

section \<open>Properties of the sampler\<close>

text \<open>
  Every gap of the schedule lies in the band a consumer may check, for every sample point,
  seed and 32-bit period: between the period minus and plus half of it, so never zero; no step of
  the computation wraps, not even for the largest period.
\<close>

theorem sample_gap_in_band:
  assumes "1 < period"
  shows "unat (gap_at seq period seed) \<in> {unat period - unat period div 2 .. unat period + unat period div 2} \<and>
    0 < unat (gap_at seq period seed)"
  using gap_at_band [OF assms] gap_at_pos by blast

text \<open>
  With one launching thread the sampled launches are exactly the points of the chain, so the
  schedule can be replayed from the seed and the period alone: launch \<open>i\<close> is sampled if and only if
  \<open>i\<close> is a point of the chain, the first launch always, and a period of 0 counts as 1.
\<close>

theorem single_thread_samples_chain:
  assumes "n + 2 ^ 34 < 2 ^ 64"
  shows "fst (launches n (new_sampler p sd)) = map (\<lambda>i. i \<in> range (chain (if p = 0 then 1 else p) sd)) [0..<n]"
  using launches_at_chain [OF assms] by blast

text \<open>
  However launches are interleaved over threads, with failed and spuriously failed exchanges,
  the claimed sample points are a prefix of the one chain, in order, each claimed once and never
  by a launch that precedes it, and the counter of sampled launches accounts for all of them but
  those whose winner has not reached its increment yet.
\<close>

theorem concurrent_claims_chain_prefix:
  assumes "(sample_step p sd)\<^sup>*\<^sup>* (start_shared k) c"
  shows "map fst (c_claims c) = map (chain_word p sd) [0..<length (c_claims c)] \<and>
    list_all (\<lambda>(q, n). q \<le> n) (c_claims c) \<and> c_sampled c + of_nat (winners c) = of_nat (length (c_claims c))"
  using claims_ok_reachable [OF assms] by (simp add: claims_ok_def)

text \<open>
  C33: the number of sampled launches is not independent of threading. With a period of 1, where
  every launch is to be sampled, two launches on two threads can finish with one sample: the later
  launch claims the earlier sample point, and nobody is left to claim the later one.
\<close>

theorem concurrent_launch_can_go_unsampled:
  "\<exists>c. (sample_step 1 sd)\<^sup>*\<^sup>* (start_shared 2) c \<and> c_threads c = [Idle, Idle] \<and> c_observed c = 2 \<and> c_sampled c = 1 \<and>
    {chain 1 sd 0, chain 1 sd 1} = {0, 1}"
proof -
  let ?R = "sample_step 1 sd"
  have s0: "?R (\<lparr>c_next = 0, c_observed = 0, c_sampled = 0, c_threads = [Idle, Idle], c_claims = []\<rparr>)
      (\<lparr>c_next = 0, c_observed = 1, c_sampled = 0, c_threads = [Fetched 0, Idle], c_claims = []\<rparr>)"
    using sample_step.fetch_add [of 0 "\<lparr>c_next = 0, c_observed = 0, c_sampled = 0, c_threads = [Idle, Idle], c_claims = []\<rparr>" 1 sd] by (simp add: gap_at_def)
  have s1: "?R (\<lparr>c_next = 0, c_observed = 1, c_sampled = 0, c_threads = [Fetched 0, Idle], c_claims = []\<rparr>)
      (\<lparr>c_next = 0, c_observed = 2, c_sampled = 0, c_threads = [Fetched 0, Fetched 1], c_claims = []\<rparr>)"
    using sample_step.fetch_add [of 1 "\<lparr>c_next = 0, c_observed = 1, c_sampled = 0, c_threads = [Fetched 0, Idle], c_claims = []\<rparr>" 1 sd] by (simp add: gap_at_def)
  have s2: "?R (\<lparr>c_next = 0, c_observed = 2, c_sampled = 0, c_threads = [Fetched 0, Fetched 1], c_claims = []\<rparr>)
      (\<lparr>c_next = 0, c_observed = 2, c_sampled = 0, c_threads = [Fetched 0, Checking 1 0], c_claims = []\<rparr>)"
    using sample_step.load [of 1 "\<lparr>c_next = 0, c_observed = 2, c_sampled = 0, c_threads = [Fetched 0, Fetched 1], c_claims = []\<rparr>" 1 1 sd] by (simp add: gap_at_def)
  have s3: "?R (\<lparr>c_next = 0, c_observed = 2, c_sampled = 0, c_threads = [Fetched 0, Checking 1 0], c_claims = []\<rparr>)
      (\<lparr>c_next = 1, c_observed = 2, c_sampled = 0, c_threads = [Fetched 0, Won 1], c_claims = [(0, 1)]\<rparr>)"
    using sample_step.exchange [of 1 "\<lparr>c_next = 0, c_observed = 2, c_sampled = 0, c_threads = [Fetched 0, Checking 1 0], c_claims = []\<rparr>" 1 0 1 sd] by (simp add: gap_at_def)
  have s4: "?R (\<lparr>c_next = 1, c_observed = 2, c_sampled = 0, c_threads = [Fetched 0, Won 1], c_claims = [(0, 1)]\<rparr>)
      (\<lparr>c_next = 1, c_observed = 2, c_sampled = 1, c_threads = [Fetched 0, Idle], c_claims = [(0, 1)]\<rparr>)"
    using sample_step.count [of 1 "\<lparr>c_next = 1, c_observed = 2, c_sampled = 0, c_threads = [Fetched 0, Won 1], c_claims = [(0, 1)]\<rparr>" 1 1 sd] by (simp add: gap_at_def)
  have s5: "?R (\<lparr>c_next = 1, c_observed = 2, c_sampled = 1, c_threads = [Fetched 0, Idle], c_claims = [(0, 1)]\<rparr>)
      (\<lparr>c_next = 1, c_observed = 2, c_sampled = 1, c_threads = [Checking 0 1, Idle], c_claims = [(0, 1)]\<rparr>)"
    using sample_step.load [of 0 "\<lparr>c_next = 1, c_observed = 2, c_sampled = 1, c_threads = [Fetched 0, Idle], c_claims = [(0, 1)]\<rparr>" 0 1 sd] by (simp add: gap_at_def)
  have s6: "?R (\<lparr>c_next = 1, c_observed = 2, c_sampled = 1, c_threads = [Checking 0 1, Idle], c_claims = [(0, 1)]\<rparr>)
      (\<lparr>c_next = 1, c_observed = 2, c_sampled = 1, c_threads = [Idle, Idle], c_claims = [(0, 1)]\<rparr>)"
    using sample_step.not_due [of 0 "\<lparr>c_next = 1, c_observed = 2, c_sampled = 1, c_threads = [Checking 0 1, Idle], c_claims = [(0, 1)]\<rparr>" 0 1 1 sd] by (simp add: gap_at_def)
  note r = rtranclp.rtrancl_into_rtrancl [of ?R]
  let ?c = "\<lparr>c_next = 1, c_observed = 2, c_sampled = 1, c_threads = [Idle, Idle], c_claims = [(0, 1)]\<rparr>"
  have "start_shared 2 = \<lparr>c_next = 0, c_observed = 0, c_sampled = 0, c_threads = [Idle, Idle], c_claims = []\<rparr>"
    by (simp add: start_shared_def numeral_2_eq_2)
  then have "?R\<^sup>*\<^sup>* (start_shared 2) ?c"
    using r [OF r [OF r [OF r [OF r [OF r [OF r [OF rtranclp.rtrancl_refl s0] s1] s2] s3] s4] s5] s6] by (rule ssubst)
  moreover have "c_threads ?c = [Idle, Idle]" "c_observed ?c = 2" "c_sampled ?c = 1" by simp_all
  moreover have "{chain 1 sd 0, chain 1 sd 1} = {0, 1}" by (simp add: gap_at_def)
  ultimately show ?thesis by (intro exI [of _ ?c] conjI)
qed

section \<open>Concrete runs\<close>

end
