(* ===== verification/Usdt_Abi.thy ===== *)
theory Usdt_Abi
  imports Prelude
begin

text \<open>
  The records the shim hands to the kernel, \<open>src/shim/core/usdt_abi.h\<close>: the C layout of every
  record (element size and array length of each field, in order), with the layout rule of the
  C ABI, and as \<open>record\<close>s those whose contents the shim computes.
\<close>

section \<open>Layouts\<close>

type_synonym layout = "(nat \<times> nat) list"

definition align_up :: "nat \<Rightarrow> nat \<Rightarrow> nat" where
  "align_up w n = (n + w - 1) div w * w"

fun struct_end :: "layout \<Rightarrow> nat \<Rightarrow> nat" where
  "struct_end [] n = n"
| "struct_end ((w, c) # fs) n = struct_end fs (align_up w n + w * c)"

definition struct_size :: "layout \<Rightarrow> nat" where
  "struct_size l = align_up (fold max (map fst l) 1) (struct_end l 0)"

definition payload_size :: "layout \<Rightarrow> nat" where
  "payload_size l = sum_list (map (\<lambda>(w, c). w * c) l)"

definition field_offset :: "layout \<Rightarrow> nat \<Rightarrow> nat" where
  "field_offset l i = align_up (fst (l ! i)) (struct_end (take i l) 0)"

abbreviation GPU_KERNEL_NAME_MAX :: nat where "GPU_KERNEL_NAME_MAX \<equiv> 256"
abbreviation GPU_STALL_NAME_MAX :: nat where "GPU_STALL_NAME_MAX \<equiv> 128"

definition gpu_launch_v1 :: layout where
  "gpu_launch_v1 = [(8, 1), (8, 1), (8, 1), (8, 1), (8, 1), (4, 1), (4, 1)]"

definition gpu_exec_v1 :: layout where
  "gpu_exec_v1 = [(8, 1), (8, 1), (8, 1), (8, 1), (8, 1), (8, 1)]"

definition gpu_module_load_v1 :: layout where
  "gpu_module_load_v1 = [(8, 1), (8, 1), (8, 1), (8, 1), (8, 1)]"

definition gpu_pc_sample_batch_v1 :: layout where
  "gpu_pc_sample_batch_v1 = [(8, 1), (8, 1), (8, 1), (4, 1), (4, 1), (4, 1), (4, 1)]"

definition gpu_config_v1 :: layout where
  "gpu_config_v1 = [(8, 1), (4, 1), (4, 1), (1, 1), (1, 7)]"

definition gpu_dropped_v1 :: layout where
  "gpu_dropped_v1 = [(8, 1), (1, 1), (1, 7)]"

definition gpu_launch_sampled_v1 :: layout where
  "gpu_launch_sampled_v1 = [(8, 1), (8, 1), (8, 1), (8, 1), (8, 1), (4, 1), (4, 1), (8, 1)]"

definition gpu_kernel_name_v1 :: layout where
  "gpu_kernel_name_v1 = [(8, 1), (2, 1), (1, 1), (1, 5), (1, GPU_KERNEL_NAME_MAX)]"

definition gpu_stall_reason_map_v1 :: layout where
  "gpu_stall_reason_map_v1 = [(4, 1), (2, 1), (1, 1), (1, 1), (1, GPU_STALL_NAME_MAX)]"

definition gpu_sampling_window_v1 :: layout where
  "gpu_sampling_window_v1 = [(8, 1), (8, 1), (1, 1), (1, 3), (4, 1)]"

lemmas layout_defs = gpu_launch_v1_def gpu_exec_v1_def gpu_module_load_v1_def gpu_pc_sample_batch_v1_def gpu_config_v1_def
  gpu_dropped_v1_def gpu_launch_sampled_v1_def gpu_kernel_name_v1_def gpu_stall_reason_map_v1_def gpu_sampling_window_v1_def

lemmas layout_eval = layout_defs struct_size_def payload_size_def field_offset_def align_up_def

end
