(* ===== verification/Shim_Transport.thy ===== *)
theory Shim_Transport
  imports Usdt_Abi "HOL-Library.Sublist"
begin

text \<open>
  How the injected shim gets its records out: batching (\<open>src/shim/core/batch.h\<close>), the intern
  table of kernel names (\<open>kernelnames.h\<close>), the replay log for consumers that attach late
  (\<open>drain.h\<close>) and the clock conversion (\<open>clock.h\<close>). Each class is a record with one function per
  method; a mutex makes each method one step, so a concurrent history is a sequence of methods.
  What an emit callback or a replay callback is given is appended to a log.

  The lemmas show that a batch loses nothing it does not count and numbers its emissions without a
  gap, that a name is sent once and replayed once, that an attaching consumer is given everything
  recorded before it, and that clock conversion is exact and keeps durations.
\<close>

section \<open>Batches\<close>

text \<open>
  The consumer's presence is asked for at every \<open>add\<close> and again at every flush, and may change
  in between: the n-th answer is \<open>en n\<close>.
\<close>

record 'a batch =
  bt_buf :: "'a list"
  bt_n :: nat
  bt_seq :: u64
  bt_dropped :: u64
  bt_asked :: nat
  bt_emitted :: "('a list \<times> u64) list"

definition new_batch :: "'a list \<Rightarrow> 'a batch" where
  "new_batch buf = \<lparr>bt_buf = buf, bt_n = 0, bt_seq = 0, bt_dropped = 0, bt_asked = 0, bt_emitted = []\<rparr>"

definition flush_locked :: "(nat \<Rightarrow> bool) \<Rightarrow> 'a batch \<Rightarrow> 'a batch" where
  "flush_locked en b =
     (if bt_n b = 0 then b
      else
        let enabled = en (bt_asked b); b = b\<lparr>bt_asked := Suc (bt_asked b)\<rparr>
        in if \<not> enabled then b\<lparr>bt_dropped := bt_dropped b + of_nat (bt_n b), bt_n := 0\<rparr>
           else b\<lparr>bt_emitted := bt_emitted b @ [(take (bt_n b) (bt_buf b), bt_seq b)], bt_seq := bt_seq b + 1, bt_n := 0\<rparr>)"

definition batch_add :: "(nat \<Rightarrow> bool) \<Rightarrow> 'a \<Rightarrow> 'a batch \<Rightarrow> bool \<times> 'a batch" where
  "batch_add en r b =
     (let enabled = en (bt_asked b); b = b\<lparr>bt_asked := Suc (bt_asked b)\<rparr>
      in if \<not> enabled then (False, b\<lparr>bt_dropped := bt_dropped b + 1\<rparr>)
         else
           let b = b\<lparr>bt_buf := (bt_buf b)[bt_n b := r], bt_n := Suc (bt_n b)\<rparr>
           in (True, if bt_n b = length (bt_buf b) then flush_locked en b else b))"

definition batch_flush :: "(nat \<Rightarrow> bool) \<Rightarrow> 'a batch \<Rightarrow> 'a batch" where
  "batch_flush en b = flush_locked en b"

datatype 'a batch_op = Add 'a | Flush

fun batch_step :: "(nat \<Rightarrow> bool) \<Rightarrow> 'a batch_op \<Rightarrow> 'a batch \<Rightarrow> 'a batch" where
  "batch_step en (Add r) b = snd (batch_add en r b)"
| "batch_step en Flush b = batch_flush en b"

fun adds :: "'a batch_op list \<Rightarrow> 'a list" where
  "adds [] = []"
| "adds (Add r # ops) = r # adds ops"
| "adds (Flush # ops) = adds ops"

section \<open>Kernel names\<close>

record kernel_name =
  kn_kernel_id :: u64
  kn_name_len :: u16
  kn_truncated :: u8
  kn_name :: "char list"

definition kernel_name_rec :: "u64 \<Rightarrow> char list option \<Rightarrow> kernel_name" where
  "kernel_name_rec i nm =
     (let s = (case nm of None \<Rightarrow> [] | Some s \<Rightarrow> s);
          n = (if length s > GPU_KERNEL_NAME_MAX then GPU_KERNEL_NAME_MAX else length s)
      in \<lparr>kn_kernel_id = i, kn_name_len = of_nat n, kn_truncated = (if length s > GPU_KERNEL_NAME_MAX then 1 else 0),
          kn_name = take n s @ replicate (GPU_KERNEL_NAME_MAX - n) (CHR 0x00)\<rparr>)"

record name_table =
  nt_seen :: "u64 set"
  nt_records :: "kernel_name list"

definition intern :: "u64 \<Rightarrow> char list option \<Rightarrow> name_table \<Rightarrow> kernel_name option \<times> name_table" where
  "intern i nm t =
     (if i \<in> nt_seen t then (None, t)
      else let r = kernel_name_rec i nm
           in (Some r, t\<lparr>nt_seen := insert i (nt_seen t), nt_records := nt_records t @ [r]\<rparr>))"

definition replay_names :: "name_table \<Rightarrow> kernel_name list" where
  "replay_names t = nt_records t"

section \<open>Replay\<close>

record ('m, 's, 'c) replay_log =
  rl_modules :: "'m list"
  rl_stalls :: "(u32 \<times> 's) list"
  rl_config :: 'c
  rl_have_config :: bool
  rl_was_attached :: bool
  rl_replays :: u64
  rl_module_fn :: bool
  rl_config_fn :: bool
  rl_stall_fn :: bool

datatype ('m, 's, 'c) replayed = Replay_config 'c | Replay_stall "u32 \<times> 's" | Replay_module 'm

text \<open>
  A callback is empty until its \<open>on_replay_\<close> method installs one; the fields \<open>rl_module_fn\<close>,
  \<open>rl_config_fn\<close> and \<open>rl_stall_fn\<close> say whether it is.
\<close>

definition on_replay_module :: "('m, 's, 'c) replay_log \<Rightarrow> ('m, 's, 'c) replay_log" where
  "on_replay_module l = l\<lparr>rl_module_fn := True\<rparr>"

definition on_replay_config :: "('m, 's, 'c) replay_log \<Rightarrow> ('m, 's, 'c) replay_log" where
  "on_replay_config l = l\<lparr>rl_config_fn := True\<rparr>"

definition on_replay_stall :: "('m, 's, 'c) replay_log \<Rightarrow> ('m, 's, 'c) replay_log" where
  "on_replay_stall l = l\<lparr>rl_stall_fn := True\<rparr>"

definition record_module :: "'m \<Rightarrow> ('m, 's, 'c) replay_log \<Rightarrow> ('m, 's, 'c) replay_log" where
  "record_module m l = l\<lparr>rl_modules := rl_modules l @ [m]\<rparr>"

definition record_config :: "'c \<Rightarrow> ('m, 's, 'c) replay_log \<Rightarrow> ('m, 's, 'c) replay_log" where
  "record_config c l = l\<lparr>rl_config := c, rl_have_config := True\<rparr>"

definition record_stall_reason :: "u32 \<times> 's \<Rightarrow> ('m, 's, 'c) replay_log \<Rightarrow> bool \<times> ('m, 's, 'c) replay_log" where
  "record_stall_reason s l =
     (if list_ex (\<lambda>have. fst have = fst s) (rl_stalls l) then (False, l)
      else (True, l\<lparr>rl_stalls := rl_stalls l @ [s]\<rparr>))"

definition replay_if_newly_attached ::
  "bool \<Rightarrow> ('m, 's, 'c) replay_log \<Rightarrow> ('m, 's, 'c) replayed list \<times> ('m, 's, 'c) replay_log" where
  "replay_if_newly_attached enabled_now l =
     (if enabled_now \<and> \<not> rl_was_attached l
      then ((if rl_config_fn l \<and> rl_have_config l then [Replay_config (rl_config l)] else []) @
              (if rl_stall_fn l then map Replay_stall (rl_stalls l) else []) @
              (if rl_module_fn l then map Replay_module (rl_modules l) else []),
            l\<lparr>rl_replays := rl_replays l + 1, rl_was_attached := enabled_now\<rparr>)
      else ([], l\<lparr>rl_was_attached := enabled_now\<rparr>))"

datatype ('m, 's, 'c) replay_op = On_module | On_config | On_stall | Module 'm | Config 'c | Stall "u32 \<times> 's" | Tick bool

fun replay_step :: "('m, 's, 'c) replay_op \<Rightarrow> ('m, 's, 'c) replay_log \<Rightarrow> ('m, 's, 'c) replay_log" where
  "replay_step On_module l = on_replay_module l"
| "replay_step On_config l = on_replay_config l"
| "replay_step On_stall l = on_replay_stall l"
| "replay_step (Module m) l = record_module m l"
| "replay_step (Config c) l = record_config c l"
| "replay_step (Stall s) l = snd (record_stall_reason s l)"
| "replay_step (Tick e) l = snd (replay_if_newly_attached e l)"

definition new_replay_log :: "'c \<Rightarrow> ('m, 's, 'c) replay_log" where
  "new_replay_log c = \<lparr>rl_modules = [], rl_stalls = [], rl_config = c, rl_have_config = False, rl_was_attached = False, rl_replays = 0,
     rl_module_fn = False, rl_config_fn = False, rl_stall_fn = False\<rparr>"

section \<open>The clock\<close>

text \<open>Signed 64-bit values are words read with \<open>sint\<close>.\<close>

abbreviation kStepThresholdNs :: int where "kStepThresholdNs \<equiv> 1000000"

record clock_fit =
  cf_offset :: u64
  cf_valid :: bool
  cf_steps :: u64

definition resample :: "u64 \<Rightarrow> u64 \<Rightarrow> clock_fit \<Rightarrow> clock_fit" where
  "resample vendor_ns mono_ns c =
     (let offset = vendor_ns - mono_ns;
          delta = offset - cf_offset c;
          mag = (if sint delta < 0 then - delta else delta)
      in \<lparr>cf_offset = offset, cf_valid = True,
          cf_steps = (if cf_valid c \<and> sint mag > kStepThresholdNs then cf_steps c + 1 else cf_steps c)\<rparr>)"

definition to_monotonic :: "u64 \<Rightarrow> clock_fit \<Rightarrow> u64" where
  "to_monotonic vendor_ns c = (if \<not> cf_valid c then 0 else vendor_ns - cf_offset c)"

section \<open>Lemmas on batches\<close>

text \<open>
  \<open>xs\<close> were offered so far: what was emitted and what is pending is a subsequence of them in
  order, and the emissions are numbered from zero.
\<close>

definition batch_inv :: "nat \<Rightarrow> 'a list \<Rightarrow> 'a batch \<Rightarrow> bool" where
  "batch_inv N xs b \<longleftrightarrow> length (bt_buf b) = N \<and> bt_n b \<le> N \<and>
     subseq (concat (map fst (bt_emitted b)) @ take (bt_n b) (bt_buf b)) xs \<and>
     map snd (bt_emitted b) = map of_nat [0..<length (bt_emitted b)] \<and> bt_seq b = of_nat (length (bt_emitted b)) \<and>
     list_all (\<lambda>(rs, q). 0 < length rs \<and> length rs \<le> N) (bt_emitted b)"

lemma subseq_appendD1: "subseq (xs @ ys) zs \<Longrightarrow> subseq xs zs"
  by (rule subseq_order.trans [of _ "xs @ ys"]) (simp_all add: prefix_imp_subseq)

lemma batch_inv_flush:
  assumes "batch_inv N xs b"
  shows "batch_inv N xs (flush_locked en b)" "bt_n (flush_locked en b) = 0"
proof -
  have l: "length (take (bt_n b) (bt_buf b)) = bt_n b" using assms by (simp add: batch_inv_def)
  show "batch_inv N xs (flush_locked en b)"
    using assms l subseq_appendD1 [of "concat (map fst (bt_emitted b))"]
    by (auto simp: batch_inv_def flush_locked_def Let_def algebra_simps)
qed (simp add: flush_locked_def Let_def)

lemma batch_inv_skip:
  "batch_inv N xs b \<Longrightarrow> batch_inv N (xs @ [r]) (b\<lparr>bt_asked := k, bt_dropped := bt_dropped b + 1\<rparr>)"
  by (simp add: batch_inv_def subseq_rev_drop_many algebra_simps)

lemma batch_inv_push:
  assumes "batch_inv N xs b" and "bt_n b < N"
  shows "batch_inv N (xs @ [r]) (b\<lparr>bt_asked := k, bt_buf := (bt_buf b)[bt_n b := r], bt_n := Suc (bt_n b)\<rparr>)"
proof -
  have "take (Suc (bt_n b)) ((bt_buf b)[bt_n b := r]) = take (bt_n b) (bt_buf b) @ [r]"
    using assms by (simp add: batch_inv_def take_snoc_update)
  moreover have "subseq ((concat (map fst (bt_emitted b)) @ take (bt_n b) (bt_buf b)) @ [r]) (xs @ [r])"
    using assms by (simp only: batch_inv_def subseq_append)
  ultimately show ?thesis using assms by (simp add: batch_inv_def algebra_simps)
qed

lemma batch_inv_step:
  assumes "batch_inv N xs b" and "bt_n b < N"
  shows "batch_inv N (xs @ adds [op]) (batch_step en op b) \<and> bt_n (batch_step en op b) < N"
proof (cases op)
  case (Add r)
  note p = batch_inv_push [OF assms, of r "Suc (bt_asked b)"]
  show ?thesis
    using Add assms batch_inv_skip [OF assms(1), of r] p batch_inv_flush [OF p, of en]
    by (auto simp: batch_add_def Let_def batch_inv_def [of N xs b])
next
  case Flush
  then show ?thesis using batch_inv_flush [OF assms(1), of en] assms(2) by (simp add: batch_flush_def)
qed

lemma adds_append: "adds (xs @ ys) = adds xs @ adds ys"
  by (induction xs rule: adds.induct) simp_all

lemma batch_inv_run:
  assumes "0 < length buf"
  shows "batch_inv (length buf) (adds ops) (fold (batch_step en) ops (new_batch buf)) \<and>
    bt_n (fold (batch_step en) ops (new_batch buf)) < length buf"
proof (induction ops rule: rev_induct)
  case Nil
  then show ?case using assms by (simp add: batch_inv_def new_batch_def)
next
  case (snoc op ops)
  then show ?case using batch_inv_step [of "length buf" "adds ops" _ op en] by (simp add: adds_append)
qed

text \<open>A record offered is emitted or pending, or it is counted as dropped.\<close>

definition accepted :: "'a batch \<Rightarrow> u64" where
  "accepted b = of_nat (length (concat (map fst (bt_emitted b))) + bt_n b)"

fun offered :: "'a batch_op \<Rightarrow> u64" where
  "offered (Add r) = 1"
| "offered Flush = 0"

definition room :: "'a batch \<Rightarrow> bool" where
  "room b \<longleftrightarrow> bt_n b < length (bt_buf b)"

lemma flush_counted:
  "bt_n b \<le> length (bt_buf b) \<Longrightarrow> accepted (flush_locked en b) + bt_dropped (flush_locked en b) = accepted b + bt_dropped b"
  by (simp add: flush_locked_def accepted_def Let_def)

lemma flush_fields: "bt_n (flush_locked en b) = 0" "bt_buf (flush_locked en b) = bt_buf b"
  by (simp_all add: flush_locked_def Let_def)

interpretation batches: counting_stage "batch_step en" offered accepted bt_dropped "\<lambda>op. True" room
proof
  fix b :: "'a batch" and op :: "'a batch_op"
  assume b: "room b"
  show "room (batch_step en op b)"
    using b by (cases op) (auto simp: room_def batch_add_def batch_flush_def flush_fields Let_def intro: le_neq_trans)
  show "accepted (batch_step en op b) + bt_dropped (batch_step en op b) = accepted b + bt_dropped b + offered op"
  proof (cases op)
    case (Add r)
    define b0 where "b0 = b\<lparr>bt_asked := Suc (bt_asked b), bt_dropped := bt_dropped b + 1\<rparr>"
    define b1 where "b1 = b\<lparr>bt_asked := Suc (bt_asked b), bt_buf := (bt_buf b)[bt_n b := r], bt_n := Suc (bt_n b)\<rparr>"
    have "batch_step en op b = (if \<not> en (bt_asked b) then b0 else if bt_n b1 = length (bt_buf b1) then flush_locked en b1 else b1)"
      by (simp add: Add batch_add_def Let_def b0_def b1_def)
    moreover have "accepted b0 + bt_dropped b0 = accepted b + bt_dropped b + 1" by (simp add: b0_def accepted_def)
    moreover have "accepted b1 + bt_dropped b1 = accepted b + bt_dropped b + 1" by (simp add: b1_def accepted_def)
    moreover have "bt_n b1 \<le> length (bt_buf b1)" using b by (simp add: b1_def room_def)
    ultimately show ?thesis using flush_counted [of b1 en] by (simp only: Add offered.simps split: if_split) blast
  qed (use b in \<open>simp add: room_def batch_flush_def flush_counted\<close>)
qed

lemma new_batch_counts: "accepted (new_batch buf) = 0" "bt_dropped (new_batch buf) = 0" "room (new_batch buf) \<longleftrightarrow> buf \<noteq> []"
  by (simp_all add: accepted_def room_def new_batch_def)

lemma sum_offered: "sum_list (map offered ops) = of_nat (length (adds ops))"
  by (induction ops rule: adds.induct) simp_all

section \<open>Lemmas on names and replay\<close>

fun interns :: "(u64 \<times> char list option) list \<Rightarrow> name_table \<Rightarrow> kernel_name list \<times> name_table" where
  "interns [] t = ([], t)"
| "interns ((i, nm) # xs) t =
     (let (r, t) = intern i nm t; (rs, t) = interns xs t in ((case r of None \<Rightarrow> rs | Some r \<Rightarrow> r # rs), t))"

fun first_by_key :: "'k set \<Rightarrow> ('k \<times> 'v) list \<Rightarrow> ('k \<times> 'v) list" where
  "first_by_key S [] = []"
| "first_by_key S (x # xs) = (if fst x \<in> S then first_by_key S xs else x # first_by_key (insert (fst x) S) xs)"

lemma first_by_key_snoc:
  "first_by_key S (xs @ [x]) = first_by_key S xs @ (if fst x \<in> S \<union> fst ` set xs then [] else [x])"
  by (induction xs arbitrary: S) auto

lemma set_first_by_key: "fst ` set (first_by_key S xs) = fst ` set xs - S"
  by (induction xs arbitrary: S) auto

lemma distinct_first_by_key: "distinct (map fst (first_by_key S xs))"
  by (induction xs arbitrary: S) (auto simp: set_first_by_key image_iff [symmetric])

lemma interns_first:
  "fst (interns xs t) = map (\<lambda>(i, nm). kernel_name_rec i nm) (first_by_key (nt_seen t) xs) \<and>
   nt_records (snd (interns xs t)) = nt_records t @ fst (interns xs t)"
proof (induction xs arbitrary: t)
  case (Cons x xs)
  obtain i nm where x: "x = (i, nm)" by (cases x)
  show ?case
    using Cons.IH [of t] Cons.IH [of "snd (intern i nm t)"]
    by (cases "i \<in> nt_seen t") (auto simp: x intern_def Let_def case_prod_unfold)
qed simp

lemma kernel_name_decode:
  "take (unat (kn_name_len (kernel_name_rec i (Some s)))) (kn_name (kernel_name_rec i (Some s))) = take 256 s"
  "kn_truncated (kernel_name_rec i (Some s)) = 0 \<longleftrightarrow> length s \<le> 256" "length (kn_name (kernel_name_rec i (Some s))) = 256"
  by (auto simp: kernel_name_rec_def Let_def unat_of_nat)

text \<open>What a history of the replay log has recorded.\<close>

definition modules_of :: "('m, 's, 'c) replay_op list \<Rightarrow> 'm list" where
  "modules_of h = List.map_filter (\<lambda>ev. case ev of Module m \<Rightarrow> Some m | _ \<Rightarrow> None) h"

definition stalls_of :: "('m, 's, 'c) replay_op list \<Rightarrow> (u32 \<times> 's) list" where
  "stalls_of h = first_by_key {} (List.map_filter (\<lambda>ev. case ev of Stall s \<Rightarrow> Some s | _ \<Rightarrow> None) h)"

definition config_of :: "('m, 's, 'c) replay_op list \<Rightarrow> 'c list" where
  "config_of h = (case rev (List.map_filter (\<lambda>ev. case ev of Config c \<Rightarrow> Some c | _ \<Rightarrow> None) h) of [] \<Rightarrow> [] | c # cs \<Rightarrow> [c])"

definition attached_of :: "('m, 's, 'c) replay_op list \<Rightarrow> bool" where
  "attached_of h = (case rev (List.map_filter (\<lambda>ev. case ev of Tick e \<Rightarrow> Some e | _ \<Rightarrow> None) h) of [] \<Rightarrow> False | e # es \<Rightarrow> e)"

lemma map_filter_snoc: "List.map_filter f (xs @ [x]) = List.map_filter f xs @ (case f x of None \<Rightarrow> [] | Some y \<Rightarrow> [y])"
  by (induction xs) (auto simp: map_filter_simps split: option.split)

lemma list_ex_key: "list_ex (\<lambda>x. fst x = k) xs \<longleftrightarrow> k \<in> fst ` set xs"
  by (auto simp: list_ex_iff image_iff)

lemmas history_defs = modules_of_def stalls_of_def config_of_def attached_of_def

lemmas replay_op_defs = on_replay_module_def on_replay_config_def on_replay_stall_def record_module_def record_config_def
  record_stall_reason_def replay_if_newly_attached_def

lemma replay_callbacks_history:
  "rl_module_fn (fold replay_step h (new_replay_log c)) \<longleftrightarrow> On_module \<in> set h"
  "rl_config_fn (fold replay_step h (new_replay_log c)) \<longleftrightarrow> On_config \<in> set h"
  "rl_stall_fn (fold replay_step h (new_replay_log c)) \<longleftrightarrow> On_stall \<in> set h"
proof (induction h rule: rev_induct)
  case Nil
  { case 1 show ?case by (simp add: new_replay_log_def)
  next case 2 show ?case by (simp add: new_replay_log_def)
  next case 3 show ?case by (simp add: new_replay_log_def) }
next
  case (snoc ev h)
  { case 1 show ?case using snoc by (cases ev) (simp_all add: replay_op_defs)
  next case 2 show ?case using snoc by (cases ev) (simp_all add: replay_op_defs)
  next case 3 show ?case using snoc by (cases ev) (simp_all add: replay_op_defs) }
qed

lemma replay_log_history:
  "rl_modules (fold replay_step h (new_replay_log c)) = modules_of h"
  "rl_stalls (fold replay_step h (new_replay_log c)) = stalls_of h"
  "(if rl_have_config (fold replay_step h (new_replay_log c)) then [rl_config (fold replay_step h (new_replay_log c))] else []) = config_of h"
  "rl_was_attached (fold replay_step h (new_replay_log c)) = attached_of h"
proof (induction h rule: rev_induct)
  case Nil
  { case 1 show ?case by (simp add: history_defs new_replay_log_def map_filter_simps)
  next case 2 show ?case by (simp add: history_defs new_replay_log_def map_filter_simps)
  next case 3 show ?case by (simp add: history_defs new_replay_log_def map_filter_simps)
  next case 4 show ?case by (simp add: history_defs new_replay_log_def map_filter_simps) }
next
  case (snoc ev h)
  let ?l = "fold replay_step h (new_replay_log c)"
  have st: "list_ex (\<lambda>have. fst have = k) (rl_stalls ?l) \<longleftrightarrow>
      k \<in> fst ` set (List.map_filter (\<lambda>ev. case ev of Stall s \<Rightarrow> Some s | _ \<Rightarrow> None) h)" for k
    using snoc(2) set_first_by_key [of "{}" "List.map_filter (\<lambda>ev. case ev of Stall s \<Rightarrow> Some s | _ \<Rightarrow> None) h"]
    by (simp add: stalls_of_def list_ex_key)
  { case 1 show ?case
      using snoc(1) by (cases ev) (simp_all add: modules_of_def map_filter_snoc replay_op_defs)
  next case 2 show ?case
      using snoc(2) st by (cases ev) (auto simp: stalls_of_def map_filter_snoc first_by_key_snoc replay_op_defs)
  next case 3 show ?case
      using snoc(3) by (cases ev) (auto split: if_splits simp: config_of_def map_filter_snoc replay_op_defs)
  next case 4 show ?case
      using snoc(4) by (cases ev) (simp_all add: attached_of_def map_filter_snoc replay_op_defs) }
qed

section \<open>Properties of the transport\<close>

text \<open>
  A batch accounts for every record offered to it. After any sequence of adds and flushes,
  with a consumer that may come and go between any two questions, the buffer is never overrun, the
  records emitted and those still pending are a subsequence of those offered in their order, every
  emission holds between one record and the batch size and carries the next sequence number, and
  emitted, pending and dropped records add up to the records offered.
\<close>

theorem batch_accounts_for_every_record:
  assumes "0 < length buf" and "b = fold (batch_step en) ops (new_batch buf)"
  shows "bt_n b < length (bt_buf b) \<and>
    subseq (concat (map fst (bt_emitted b)) @ take (bt_n b) (bt_buf b)) (adds ops) \<and>
    map snd (bt_emitted b) = map of_nat [0..<length (bt_emitted b)] \<and>
    list_all (\<lambda>(rs, q). 0 < length rs \<and> length rs \<le> length buf) (bt_emitted b) \<and>
    of_nat (length (concat (map fst (bt_emitted b))) + bt_n b) + bt_dropped b = (of_nat (length (adds ops)) :: u64)"
proof -
  have "accepted b + bt_dropped b = of_nat (length (adds ops))"
    using batches.conserved [of "new_batch buf" ops en] assms(1) by (simp add: assms(2) sum_offered list_all_iff new_batch_counts)
  then show ?thesis
    using batch_inv_run [OF assms(1), of ops en] unfolding assms(2) [symmetric] by (simp add: batch_inv_def accepted_def)
qed

text \<open>
  A kernel name reaches the wire once and can be read back. Interning sends a record for the
  first occurrence of each kernel id and for no other, the replay to a late consumer is exactly
  those records in that order, and each record decodes to its name, cut at 256 bytes and flagged
  exactly when it was longer.
\<close>

theorem kernel_names_sent_once:
  assumes "t = snd (interns xs \<lparr>nt_seen = {}, nt_records = []\<rparr>)" and "(i, Some s) \<in> set (first_by_key {} xs)"
  shows "replay_names t = fst (interns xs \<lparr>nt_seen = {}, nt_records = []\<rparr>) \<and>
    map kn_kernel_id (replay_names t) = map fst (first_by_key {} xs) \<and> distinct (map kn_kernel_id (replay_names t)) \<and>
    kernel_name_rec i (Some s) \<in> set (replay_names t) \<and>
    take (unat (kn_name_len (kernel_name_rec i (Some s)))) (kn_name (kernel_name_rec i (Some s))) = take 256 s \<and>
    (kn_truncated (kernel_name_rec i (Some s)) = 0 \<longleftrightarrow> length s \<le> 256)"
proof -
  have e: "replay_names t = map (\<lambda>(i, nm). kernel_name_rec i nm) (first_by_key {} xs)"
    and r: "replay_names t = fst (interns xs \<lparr>nt_seen = {}, nt_records = []\<rparr>)"
    using interns_first [of xs "\<lparr>nt_seen = {}, nt_records = []\<rparr>"] by (simp_all add: assms(1) replay_names_def)
  have k: "map kn_kernel_id (replay_names t) = map fst (first_by_key {} xs)"
    unfolding e by (simp add: kernel_name_rec_def Let_def case_prod_unfold)
  have "kernel_name_rec i (Some s) \<in> set (replay_names t)" unfolding e using assms(2) by force
  then show ?thesis
    using distinct_first_by_key [of "{}" xs] kernel_name_decode [of i s] by (intro conjI r k) (simp_all only: k)
qed

text \<open>
  C37: a consumer that attaches is given everything recorded before it attached: the last device
  configuration, the first stall reason of every index and all module loads, in the order it needs
  them, each through the callback installed for it; and a tick that is not such a transition
  replays nothing.
\<close>

theorem replay_gives_whole_history:
  "fst (replay_if_newly_attached e (fold replay_step h (new_replay_log c))) =
    (if e \<and> \<not> attached_of h
     then (if On_config \<in> set h then map Replay_config (config_of h) else []) @
       (if On_stall \<in> set h then map Replay_stall (stalls_of h) else []) @
       (if On_module \<in> set h then map Replay_module (modules_of h) else [])
     else [])"
  by (simp add: replay_if_newly_attached_def replay_log_history(1,2,4) replay_log_history(3) [of h c, symmetric] replay_callbacks_history)

lemma sint_word_of_int_64: "\<bar>x\<bar> < 2 ^ 63 \<Longrightarrow> sint (word_of_int x :: u64) = x"
  unfolding sint_sbintrunc' by (rule signed_take_bit_int_eq_self) auto

text \<open>
  Clock conversion is exact. After a resample the vendor time of the sample converts back to
  its monotonic time and any other vendor time to the monotonic time the same distance away, so
  durations are kept whatever the wrap-around; and when the gap between the two clocks moves by
  less than half the signed range the step counter moves exactly when it moved by more than a
  millisecond, in either direction.
\<close>

theorem clock_roundtrip:
  assumes "c' = resample v m (resample v0 m0 c)" and "x = (uint v - uint m) - (uint v0 - uint m0)" and "\<bar>x\<bar> < 2 ^ 63"
  shows "to_monotonic v c' = m \<and> to_monotonic (v + d) c' = m + d \<and> to_monotonic v2 c' - to_monotonic v1 c' = v2 - v1 \<and>
    cf_steps c' = cf_steps (resample v0 m0 c) + (if \<bar>x\<bar> > kStepThresholdNs then 1 else 0)"
proof -
  have w: "v - m - (v0 - m0) = word_of_int x" by (simp add: assms(2))
  have "sint (word_of_int x :: u64) = x" "sint (- word_of_int x :: u64) = - x"
    using sint_word_of_int_64 [OF assms(3)] sint_word_of_int_64 [of "- x"] assms(3) by simp_all
  then show ?thesis unfolding assms(1) by (simp add: resample_def to_monotonic_def Let_def w)
qed

section \<open>Concrete runs\<close>

end
