(* ===== verification/Shim_Drainer.thy ===== *)
theory Shim_Drainer
  imports Prelude
begin

text \<open>
  The timer thread of the shim, \<open>Drainer\<close> of \<open>src/shim/core/drain.h\<close>: a thread that sleeps and calls
  back until it is told to stop.

  One step is one access of the flag, one end of a sleep, one callback or one join; the owner's calls
  and the thread interleave freely. The lemmas show that after \<open>stop\<close> has returned no callback runs,
  that at most one is still finished after \<open>stop\<close> was entered, and that \<open>stop\<close> returns when the callback does.
\<close>

section \<open>The thread and its owner\<close>

text \<open>Where the thread is: before the test of the loop, in its sleep, before the second test, in the callback, at its end.\<close>

datatype timer_point = T_test | T_sleep | T_check | T_tick | T_end

datatype owner_point = O_idle | O_joining

record drainer =
  dn_thread :: "timer_point option"
  dn_stop :: bool
  dn_tick_fn :: bool
  dn_owner :: owner_point
  dn_ticks :: nat
  dn_late :: nat
  dn_terminated :: bool

text \<open>
  \<open>dn_thread\<close> is \<open>None\<close> while \<open>thread_\<close> is not joinable; \<open>dn_ticks\<close> counts the callbacks made and \<open>dn_late\<close>
  those that end after \<open>stop\<close> has set the flag. Assigning to a joinable thread terminates the process.
\<close>

definition new_drainer :: drainer where
  "new_drainer = \<lparr>dn_thread = None, dn_stop = False, dn_tick_fn = False, dn_owner = O_idle, dn_ticks = 0, dn_late = 0, dn_terminated = False\<rparr>"

definition timer_step :: "drainer \<Rightarrow> drainer option" where
  "timer_step s =
     (case dn_thread s of None \<Rightarrow> None
      | Some T_test \<Rightarrow> Some (s\<lparr>dn_thread := Some (if dn_stop s then T_end else T_sleep)\<rparr>)
      | Some T_sleep \<Rightarrow> Some (s\<lparr>dn_thread := Some T_check\<rparr>)
      | Some T_check \<Rightarrow>
          Some (if dn_stop s then s\<lparr>dn_thread := Some T_end\<rparr>
                else if dn_tick_fn s then s\<lparr>dn_thread := Some T_tick\<rparr> else s\<lparr>dn_thread := Some T_test\<rparr>)
      | Some T_tick \<Rightarrow> Some (s\<lparr>dn_thread := Some T_test, dn_ticks := dn_ticks s + 1, dn_late := dn_late s + (if dn_stop s then 1 else 0)\<rparr>)
      | Some T_end \<Rightarrow> None)"

definition start_drainer :: "drainer \<Rightarrow> drainer" where
  "start_drainer s = (if dn_thread s = None then s\<lparr>dn_stop := False, dn_thread := Some T_test, dn_late := 0\<rparr> else s\<lparr>dn_terminated := True\<rparr>)"

definition stop_begin :: "drainer \<Rightarrow> drainer" where
  "stop_begin s = (if dn_thread s = None then s else s\<lparr>dn_stop := True, dn_owner := O_joining\<rparr>)"

inductive drainer_step :: "drainer \<Rightarrow> drainer \<Rightarrow> bool" where
  on_tick: "dn_owner s = O_idle \<Longrightarrow> dn_thread s = None \<Longrightarrow> drainer_step s (s\<lparr>dn_tick_fn := True\<rparr>)"
| start: "dn_owner s = O_idle \<Longrightarrow> \<not> dn_terminated s \<Longrightarrow> drainer_step s (start_drainer s)"
| stop: "dn_owner s = O_idle \<Longrightarrow> drainer_step s (stop_begin s)"
| join: "dn_owner s = O_joining \<Longrightarrow> dn_thread s = Some T_end \<Longrightarrow> drainer_step s (s\<lparr>dn_thread := None, dn_owner := O_idle\<rparr>)"
| timer: "timer_step s = Some t \<Longrightarrow> drainer_step s t"

inductive_cases drainer_stepE: "drainer_step s t"

section \<open>Properties of the timer\<close>

definition drainer_inv :: "drainer \<Rightarrow> bool" where
  "drainer_inv s \<longleftrightarrow>
     (dn_owner s = O_joining \<longrightarrow> dn_thread s \<noteq> None \<and> dn_stop s) \<and>
     (dn_owner s = O_idle \<longrightarrow> dn_thread s \<noteq> None \<longrightarrow> \<not> dn_stop s \<and> dn_thread s \<noteq> Some T_end) \<and>
     (dn_thread s = Some T_tick \<longrightarrow> dn_late s = 0) \<and> dn_late s \<le> 1 \<and> (\<not> dn_stop s \<longrightarrow> dn_late s = 0)"

lemma drainer_inv_step: "drainer_step s t \<Longrightarrow> drainer_inv s \<Longrightarrow> drainer_inv t"
  by (erule drainer_stepE; cases "dn_owner s"; cases "dn_stop s")
    (auto simp: drainer_inv_def timer_step_def start_drainer_def stop_begin_def split: option.splits timer_point.splits if_splits)

lemma drainer_inv_reachable: "drainer_step\<^sup>*\<^sup>* new_drainer s \<Longrightarrow> drainer_inv s"
proof (induction rule: rtranclp_induct)
  case base
  show ?case by (simp add: drainer_inv_def new_drainer_def)
next
  case (step s t)
  then show ?case by (blast intro: drainer_inv_step)
qed

text \<open>Once \<open>stop\<close> was entered, at most the callback that was already begun is finished.\<close>

lemma one_late_tick: "drainer_step\<^sup>*\<^sup>* new_drainer s \<Longrightarrow> dn_late s \<le> 1"
  using drainer_inv_reachable by (auto simp: drainer_inv_def)

text \<open>After \<open>stop\<close> has returned the timer is silent until it is started again: no step of it is possible.\<close>

lemma stopped_is_silent: "dn_thread s = None \<Longrightarrow> timer_step s = None"
  by (simp add: timer_step_def)

text \<open>
  A caller of \<open>stop\<close> returns: from every reachable state in which it waits, at most four steps of the
  thread alone lead to its end, where the join succeeds.
\<close>

lemma stop_returns:
  assumes "drainer_step\<^sup>*\<^sup>* new_drainer s" and "dn_owner s = O_joining"
  shows "\<exists>n \<le> 4. \<exists>t. ((\<lambda>x. the (timer_step x)) ^^ n) s = t \<and> dn_thread t = Some T_end \<and>
    drainer_step t (t\<lparr>dn_thread := None, dn_owner := O_idle\<rparr>) \<and> dn_ticks t \<le> dn_ticks s + 1"
proof -
  have j: "dn_stop s" "dn_thread s \<noteq> None" using drainer_inv_reachable [OF assms(1)] assms(2) by (auto simp: drainer_inv_def)
  let ?f = "\<lambda>n. ((\<lambda>x. the (timer_step x)) ^^ n) s"
  have "\<exists>n \<le> 4. dn_thread (?f n) = Some T_end \<and> dn_owner (?f n) = O_joining \<and> dn_ticks (?f n) \<le> dn_ticks s + 1"
  proof (cases "the (dn_thread s)")
    case T_test
    then show ?thesis using j assms(2) by (intro exI [of _ 1]) (auto simp: timer_step_def)
  next
    case T_sleep
    then show ?thesis using j assms(2) by (intro exI [of _ 2]) (auto simp: timer_step_def numeral_2_eq_2)
  next
    case T_check
    then show ?thesis using j assms(2) by (intro exI [of _ 1]) (auto simp: timer_step_def)
  next
    case T_tick
    then show ?thesis using j assms(2) by (intro exI [of _ 2]) (auto simp: timer_step_def numeral_2_eq_2)
  next
    case T_end
    then show ?thesis using j assms(2) by (intro exI [of _ 0]) auto
  qed
  then show ?thesis by (auto intro: drainer_step.join)
qed

end
