(* ===== verification/Shim_Tier.thy ===== *)
theory Shim_Tier
  imports Prelude
begin

text \<open>
  The PC-sampling tier and its drain schedule: the parser of \<open>PERFAGENT_GPU_PC_SAMPLING\<close>
  (\<open>src/shim/core/pctier.h\<close>), the schedule of PC-data drains (\<open>pcdrain.h\<close>) and the plan of the
  single timer thread (\<open>tickplan.h\<close>).

  A C string is the character list before its NUL. The lemmas show that the parser accepts exactly
  the settings that name one tier, in any case, with any separators and repetitions, and falls
  closed otherwise; and that both schedules drain at most once per period after the last drain,
  never skip a due one, and count every call.
\<close>

section \<open>Tier settings\<close>

datatype PCSamplingTier = kOff | kContinuous | kSerialized
datatype PCTierParse = kOK | kUnknown | kNotExclusive

fun pc_tier_name :: "PCSamplingTier \<Rightarrow> string" where
  "pc_tier_name kOff = ''off''"
| "pc_tier_name kContinuous = ''continuous''"
| "pc_tier_name kSerialized = ''serialized''"

definition kNames :: "(string \<times> PCSamplingTier) list" where
  "kNames = [(''off'', kOff), (''0'', kOff), (''continuous'', kContinuous), (''1'', kContinuous),
             (''serialized'', kSerialized), (''2'', kSerialized)]"

definition to_lower :: "char \<Rightarrow> char" where
  "to_lower c = (if of_char c \<ge> (65 :: nat) \<and> of_char c \<le> (90 :: nat) then char_of (of_char c - 65 + 97 :: nat) else c)"

definition pc_tier_token :: "string \<Rightarrow> PCSamplingTier option" where
  "pc_tier_token tok = map_of kNames (map to_lower tok)"

definition is_sep :: "char \<Rightarrow> bool" where
  "is_sep c \<longleftrightarrow> c \<in> {CHR '','', CHR ''+'', CHR '';'', CHR '' '', CHR 0x09, CHR 0x0A}"

text \<open>
  \<open>scan value seen first p\<close> is the main loop at position \<open>p\<close> of \<open>value\<close>; the last component of the
  result is the text for the log line, before it is cut to the caller's buffer.
\<close>

function scan :: "string \<Rightarrow> PCSamplingTier option \<Rightarrow> string \<Rightarrow> PCTierParse \<times> PCSamplingTier \<times> string" where
  "scan value first p =
     (let p = dropWhile is_sep p
      in if p = [] then (kOK, (case first of None \<Rightarrow> kOff | Some t \<Rightarrow> t), [])
         else
           let tok = takeWhile (\<lambda>c. \<not> is_sep c) p; rest = dropWhile (\<lambda>c. \<not> is_sep c) p
           in case pc_tier_token tok of
                None \<Rightarrow> (kUnknown, kOff, tok)
              | Some tier \<Rightarrow>
                  (case first of None \<Rightarrow> scan value (Some tier) rest
                   | Some t \<Rightarrow> if tier \<noteq> t then (kNotExclusive, kOff, value) else scan value first rest))"
  by pat_completeness auto

definition pc_tier_parse :: "string option \<Rightarrow> nat \<Rightarrow> PCTierParse \<times> PCSamplingTier \<times> string" where
  "pc_tier_parse value badlen =
     (case value of None \<Rightarrow> (kOK, kOff, [])
      | Some v \<Rightarrow> (case scan v None v of (r, t, bad) \<Rightarrow> (r, t, take (badlen - 1) bad)))"

section \<open>The drain schedule\<close>

datatype PCDrainReason = kPeriodic | kModuleUnload | kRangeEnd | kTeardown

record pc_drain =
  dr_period_ns :: u64
  dr_last_ns :: u64
  dr_drained :: bool
  dr_periodic :: u64
  dr_unload :: u64
  dr_range_end :: u64
  dr_teardown :: u64
  dr_coalesced :: u64

definition new_pc_drain :: "u64 \<Rightarrow> pc_drain" where
  "new_pc_drain p = \<lparr>dr_period_ns = p, dr_last_ns = 0, dr_drained = False, dr_periodic = 0, dr_unload = 0, dr_range_end = 0,
     dr_teardown = 0, dr_coalesced = 0\<rparr>"

definition mark_locked :: "u64 \<Rightarrow> pc_drain \<Rightarrow> pc_drain" where
  "mark_locked now s = s\<lparr>dr_last_ns := now, dr_drained := True\<rparr>"

definition due :: "u64 \<Rightarrow> pc_drain \<Rightarrow> bool \<times> pc_drain" where
  "due now s =
     (if dr_drained s \<and> now - dr_last_ns s < dr_period_ns s then (False, s\<lparr>dr_coalesced := dr_coalesced s + 1\<rparr>)
      else (True, let s = mark_locked now s in s\<lparr>dr_periodic := dr_periodic s + 1\<rparr>))"

definition force :: "u64 \<Rightarrow> PCDrainReason \<Rightarrow> pc_drain \<Rightarrow> pc_drain" where
  "force now reason s =
     (let s = mark_locked now s
      in case reason of kModuleUnload \<Rightarrow> s\<lparr>dr_unload := dr_unload s + 1\<rparr>
         | kRangeEnd \<Rightarrow> s\<lparr>dr_range_end := dr_range_end s + 1\<rparr>
         | _ \<Rightarrow> s\<lparr>dr_teardown := dr_teardown s + 1\<rparr>)"

definition drain_total :: "pc_drain \<Rightarrow> u64" where
  "drain_total s = dr_periodic s + dr_unload s + dr_range_end s + dr_teardown s"

section \<open>The timer plan\<close>

definition tick_period_ns :: "u64 \<Rightarrow> u64 \<Rightarrow> bool \<Rightarrow> u64" where
  "tick_period_ns drain_ns burst_tick_ns tier_a =
     (let t = (if tier_a \<and> burst_tick_ns \<noteq> 0 \<and> burst_tick_ns < drain_ns then burst_tick_ns else drain_ns)
      in if t \<noteq> 0 then t else 1000000)"

definition drain_limit_ns :: "u64 \<Rightarrow> u64 \<Rightarrow> u64" where
  "drain_limit_ns drain_ns tick_ns = (if tick_ns \<ge> drain_ns then 0 else drain_ns)"

record tick_plan =
  tp_period_ns :: u64
  tp_last_ns :: u64
  tp_started :: bool
  tp_ticks :: u64
  tp_drains :: u64
  tp_skipped :: u64

definition new_tick_plan :: "u64 \<Rightarrow> tick_plan" where
  "new_tick_plan p = \<lparr>tp_period_ns = p, tp_last_ns = 0, tp_started = False, tp_ticks = 0, tp_drains = 0, tp_skipped = 0\<rparr>"

definition tick_start :: "u64 \<Rightarrow> tick_plan \<Rightarrow> tick_plan" where
  "tick_start now s = s\<lparr>tp_last_ns := now, tp_started := True\<rparr>"

definition drain_due :: "u64 \<Rightarrow> tick_plan \<Rightarrow> bool \<times> tick_plan" where
  "drain_due now s =
     (let s = s\<lparr>tp_ticks := tp_ticks s + 1\<rparr>
      in if tp_started s \<and> now - tp_last_ns s < tp_period_ns s then (False, s\<lparr>tp_skipped := tp_skipped s + 1\<rparr>)
         else (True, s\<lparr>tp_last_ns := now, tp_started := True, tp_drains := tp_drains s + 1\<rparr>))"

section \<open>The parser terminates\<close>

lemma length_dropWhile_token: "p \<noteq> [] \<Longrightarrow> \<not> P (hd p) \<Longrightarrow> length (dropWhile (\<lambda>c. \<not> P c) p) < length p"
  by (cases p) (auto simp: le_imp_less_Suc length_dropWhile_le)

lemma scan_rest_shorter:
  assumes "dropWhile P p \<noteq> []"
  shows "length (dropWhile (\<lambda>c. \<not> P c) (dropWhile P p)) < length p"
  using length_dropWhile_token [OF assms, of P] hd_dropWhile [OF assms] length_dropWhile_le [of P p] by simp

termination scan
  by (relation "measure (\<lambda>(v, f, p). length p)") (auto intro: scan_rest_shorter)

declare scan.simps [simp del]

section \<open>What a setting says\<close>

function tokens :: "string \<Rightarrow> string list" where
  "tokens p =
     (let p = dropWhile is_sep p
      in if p = [] then [] else takeWhile (\<lambda>c. \<not> is_sep c) p # tokens (dropWhile (\<lambda>c. \<not> is_sep c) p))"
  by pat_completeness auto

termination tokens
  by (relation "measure length") (auto intro: scan_rest_shorter)

declare tokens.simps [simp del]

definition agree :: "PCSamplingTier option \<Rightarrow> string list \<Rightarrow> bool" where
  "agree f ts \<longleftrightarrow> (\<exists>t. (f = None \<or> f = Some t) \<and> (\<forall>tok \<in> set ts. pc_tier_token tok = Some t))"

definition agreed :: "PCSamplingTier option \<Rightarrow> string list \<Rightarrow> PCSamplingTier" where
  "agreed f ts = (case f of Some t \<Rightarrow> t | None \<Rightarrow> (case ts of [] \<Rightarrow> kOff | tok # _ \<Rightarrow> the (pc_tier_token tok)))"

lemma agree_Cons:
  "agree f (tok # ts) \<longleftrightarrow> (case pc_tier_token tok of None \<Rightarrow> False | Some t \<Rightarrow> (f = None \<or> f = Some t) \<and> agree (Some t) ts)"
  by (auto simp: agree_def split: option.split)

lemma agree_Nil: "agree f []"
  by (cases f) (auto simp: agree_def)

lemma scan_spec:
  "(fst (scan v f p) = kOK \<longleftrightarrow> agree f (tokens p)) \<and>
   fst (snd (scan v f p)) = (if agree f (tokens p) then agreed f (tokens p) else kOff) \<and>
   (agree f (tokens p) \<longrightarrow> snd (snd (scan v f p)) = [])"
proof (induction v f p rule: scan.induct)
  case (1 v f p)
  let ?p = "dropWhile is_sep p"
  let ?tok = "takeWhile (\<lambda>c. \<not> is_sep c) ?p" and ?rest = "dropWhile (\<lambda>c. \<not> is_sep c) ?p"
  show ?case
  proof (cases "?p = []")
    case True
    then have "scan v f p = (kOK, (case f of None \<Rightarrow> kOff | Some t \<Rightarrow> t), [])" "tokens p = []"
      unfolding scan.simps [of v f p] tokens.simps [of p] by (simp_all only: Let_def refl if_True)
    then show ?thesis by (cases f) (simp_all add: agree_Nil agreed_def)
  next
    case ne: False
    then have t: "tokens p = ?tok # tokens ?rest" by (simp add: tokens.simps [of p] Let_def)
    show ?thesis
    proof (cases "pc_tier_token ?tok")
      case None
      with ne show ?thesis by (simp add: scan.simps [of v f p] t agree_Cons Let_def)
    next
      case (Some t1)
      note IH = "1.IH" [OF refl ne refl refl Some]
      have sc: "scan v f p = (if f = None \<or> f = Some t1 then scan v (Some t1) ?rest else (kNotExclusive, kOff, v))"
        using ne Some by (cases f) (simp_all add: scan.simps [of v _ p] Let_def del: dropWhile_eq_Nil_conv)
      have "agreed f (tokens p) = agreed (Some t1) (tokens ?rest)" if "f = None \<or> f = Some t1"
        using that by (auto simp: t agreed_def Some)
      moreover have "agree f (tokens p) \<longleftrightarrow> (f = None \<or> f = Some t1) \<and> agree (Some t1) (tokens ?rest)"
        by (simp add: t agree_Cons Some)
      moreover have "(fst (scan v (Some t1) ?rest) = kOK \<longleftrightarrow> agree (Some t1) (tokens ?rest)) \<and>
          fst (snd (scan v (Some t1) ?rest)) = (if agree (Some t1) (tokens ?rest) then agreed (Some t1) (tokens ?rest) else kOff) \<and>
          (agree (Some t1) (tokens ?rest) \<longrightarrow> snd (snd (scan v (Some t1) ?rest)) = [])"
        if "f = None \<or> f = Some t1"
        using that IH by (cases f) simp_all
      ultimately show ?thesis by (cases "f = None \<or> f = Some t1") (auto simp: sc)
    qed
  qed
qed

lemma to_lower_not_sep:
  assumes "is_sep c"
  shows "to_lower c = c"
  using assms by (auto simp: is_sep_def to_lower_def)

lemma no_sep_tokens:
  assumes "\<forall>c \<in> set v. \<not> is_sep c" and "v \<noteq> []"
  shows "tokens v = [v]"
proof -
  have "dropWhile is_sep v = v" "takeWhile (\<lambda>c. \<not> is_sep c) v = v" "dropWhile (\<lambda>c. \<not> is_sep c) v = []"
    using assms by (auto simp: dropWhile_eq_self_iff takeWhile_eq_all_conv)
  moreover have "tokens [] = []" by (simp add: tokens.simps [of "[]"])
  ultimately show ?thesis unfolding tokens.simps [of v] Let_def using assms(2) by presburger
qed

section \<open>The schedule as a list of drains\<close>

datatype drain_op = Due u64 | Force u64 PCDrainReason

fun drain_step :: "drain_op \<Rightarrow> pc_drain \<Rightarrow> pc_drain" where
  "drain_step (Due now) s = snd (due now s)"
| "drain_step (Force now r) s = force now r s"

fun drain_spec :: "u64 \<Rightarrow> drain_op list \<Rightarrow> u64 list \<Rightarrow> u64 list" where
  "drain_spec p [] ds = ds"
| "drain_spec p (Due now # h) ds = drain_spec p h (if ds \<noteq> [] \<and> now - last ds < p then ds else ds @ [now])"
| "drain_spec p (Force now r # h) ds = drain_spec p h (ds @ [now])"

fun ask :: "drain_op \<Rightarrow> u64" where
  "ask (Due now) = 1"
| "ask (Force now r) = 0"

definition drain_sim :: "u64 \<Rightarrow> u64 list \<Rightarrow> pc_drain \<Rightarrow> bool" where
  "drain_sim p ds s \<longleftrightarrow> dr_period_ns s = p \<and> (dr_drained s \<longleftrightarrow> ds \<noteq> []) \<and> (ds \<noteq> [] \<longrightarrow> dr_last_ns s = last ds) \<and>
     drain_total s = of_nat (length ds)"

lemma drain_sim_force: "drain_sim p ds s \<Longrightarrow> drain_sim p (ds @ [now]) (force now r s)"
  by (cases r) (auto simp: drain_sim_def force_def mark_locked_def drain_total_def Let_def algebra_simps)

lemma drain_sim_due:
  "drain_sim p ds s \<Longrightarrow> drain_sim p (if ds \<noteq> [] \<and> now - last ds < p then ds else ds @ [now]) (snd (due now s))"
  by (auto simp: drain_sim_def due_def mark_locked_def drain_total_def Let_def algebra_simps)

lemma drain_sim_run: "drain_sim p ds s \<Longrightarrow> drain_sim p (drain_spec p h ds) (fold drain_step h s)"
proof (induction h arbitrary: ds s)
  case (Cons ev h)
  then show ?case by (cases ev) (simp_all only: drain_spec.simps fold_simps drain_step.simps drain_sim_force drain_sim_due)
qed simp

text \<open>A tick is counted as a periodic drain or as coalesced; a forced drain as neither.\<close>

interpretation ticks: counting_stage drain_step ask dr_periodic dr_coalesced "\<lambda>op. True" "\<lambda>s. True"
proof
  fix s op
  show "dr_periodic (drain_step op s) + dr_coalesced (drain_step op s) = dr_periodic s + dr_coalesced s + ask op"
    by (cases op) (auto simp: due_def force_def mark_locked_def Let_def split: PCDrainReason.split)
qed simp

section \<open>Properties of the tier and its schedule\<close>

text \<open>
  C40: the tier setting falls closed. The parser accepts a setting exactly when all its tokens,
  however separated, repeated or capitalised, name one and the same tier, and then yields that
  tier (off when there is no token); on every other setting, an unknown token or two tiers, it
  reports an error and yields off, never one of the tiers named.
\<close>

theorem pc_tier_parse_falls_closed:
  "case pc_tier_parse (Some v) n of (r, t, bad) \<Rightarrow>
    if agree None (tokens v) then r = kOK \<and> t = agreed None (tokens v) else r \<noteq> kOK \<and> t = kOff"
  using scan_spec [of v None v] by (simp add: pc_tier_parse_def case_prod_unfold)

text \<open>
  What the agent writes the shim reads. Parsing the name of a tier, in any capitalisation,
  gives that tier and no complaint.
\<close>

theorem pc_tier_name_roundtrip:
  assumes "map to_lower v = pc_tier_name t"
  shows "pc_tier_parse (Some v) n = (kOK, t, [])"
proof -
  have "\<not> is_sep c" if "c \<in> set v" for c
  proof
    assume "is_sep c"
    then have "c \<in> set (pc_tier_name t)" using that to_lower_not_sep [of c] by (metis assms image_eqI set_map)
    with \<open>is_sep c\<close> show False by (cases t) (auto simp: is_sep_def)
  qed
  moreover have "v \<noteq> []" using assms by (cases t) auto
  ultimately have tk: "tokens v = [v]" by (intro no_sep_tokens) blast+
  have "pc_tier_token v = Some t" unfolding pc_tier_token_def assms by (cases t) (simp_all add: kNames_def)
  then have "agree None (tokens v)" "agreed None (tokens v) = t" by (simp_all add: tk agree_def agreed_def)
  with scan_spec [of v None v] show ?thesis by (simp add: pc_tier_parse_def case_prod_unfold)
qed

text \<open>
  The drain schedule is the one its specification describes. After any history of timer ticks
  and forced drains a tick is due exactly when nothing has been drained yet or a full period has
  passed since the last drain for whatever reason; the counters add up to the drains that happened
  and every tick is counted as a drain or as coalesced.
\<close>

theorem pc_drain_refines_spec:
  assumes "ds = drain_spec p h []" and "s = fold drain_step h (new_pc_drain p)"
  shows "(fst (due now s) \<longleftrightarrow> ds = [] \<or> p \<le> now - last ds) \<and> drain_total s = of_nat (length ds) \<and>
    dr_periodic s + dr_coalesced s = sum_list (map ask h)"
proof -
  have "drain_sim p [] (new_pc_drain p)" by (simp add: drain_sim_def new_pc_drain_def drain_total_def)
  from drain_sim_run [OF this, of h] have "drain_sim p ds s" by (simp add: assms)
  moreover have "dr_periodic s + dr_coalesced s = sum_list (map ask h)"
    using ticks.conserved [of h "new_pc_drain p"] by (simp add: assms(2) new_pc_drain_def list_all_iff)
  ultimately show ?thesis by (auto simp: drain_sim_def due_def not_less)
qed

text \<open>
  The plan of the merged timer: without a burst poll every tick drains, whatever its jitter, and
  with one the drains are at least the drain period apart.
\<close>

lemma tick_plan_rate:
  assumes "tp_period_ns s = drain_limit_ns d (tick_period_ns d b ta)"
  shows "\<not> ta \<Longrightarrow> fst (drain_due now s)"
    and "tick_period_ns d b ta < d \<Longrightarrow> tp_started s \<Longrightarrow> fst (drain_due now s) \<Longrightarrow> d \<le> now - tp_last_ns s"
  using assms by (auto simp: drain_limit_ns_def tick_period_ns_def drain_due_def Let_def not_less split: if_splits)

section \<open>Concrete runs\<close>

end
