(* ===== verification/Shim_Guard.thy ===== *)
theory Shim_Guard
  imports Prelude
begin

text \<open>
  The lock the shim holds across every call into the vendor library, \<open>src/shim/core/callguard.h\<close>.

  Threads call \<open>enter\<close>, \<open>leave\<close> and \<open>try_enter_uncontended\<close> in any order a block-structured client
  can (a thread leaves only what it entered). The model has one step per access another thread can
  observe: the load of the owner, the operations of the mutex, the store of the owner; the fields
  only the owner touches are written with the step they follow. \<open>try_lock\<close> may fail spuriously, as
  the standard allows.

  The lemmas show that the guard excludes, that its depth is the nesting of the one thread inside,
  that a try is granted only when nobody is inside, the calling thread included, and that no thread
  can wait for itself: whenever a thread waits, the holder can run until the waiter gets the lock.
\<close>

section \<open>State\<close>

datatype guard_pc = Running | Enter_checked | Enter_waiting | Enter_locked | Enter_owned
  | Try_checked | Try_locked | Try_owned | Leaving | Leave_cleared

text \<open>A thread: where it is, and how many scopes it has open.\<close>

record guard_thread =
  pc :: guard_pc
  nest :: nat

record call_guard =
  mu :: "nat option"
  owner :: "nat option"
  depth :: u32
  max_depth :: u32
  entries_cnt :: u64
  reentries :: u64
  waits :: u64
  try_failed_self :: u64
  try_failed_other :: u64
  threads :: "nat \<Rightarrow> guard_thread"

definition new_call_guard :: call_guard where
  "new_call_guard = \<lparr>mu = None, owner = None, depth = 0, max_depth = 0, entries_cnt = 0, reentries = 0, waits = 0,
     try_failed_self = 0, try_failed_other = 0, threads = (\<lambda>t. \<lparr>pc = Running, nest = 0\<rparr>)\<rparr>"

definition held_by :: "nat \<Rightarrow> call_guard \<Rightarrow> bool" where
  "held_by t s \<longleftrightarrow> owner s = Some t"

abbreviation thread_at :: "call_guard \<Rightarrow> nat \<Rightarrow> guard_pc" where
  "thread_at s t \<equiv> pc (threads s t)"

definition goto :: "nat \<Rightarrow> guard_pc \<Rightarrow> nat \<Rightarrow> call_guard \<Rightarrow> call_guard" where
  "goto t p n s = s\<lparr>threads := (threads s)(t := \<lparr>pc = p, nest = n\<rparr>)\<rparr>"

section \<open>Steps\<close>

text \<open>
  A thread nests fewer than \<open>2 ^ 32\<close> scopes, the range of the depth counter.
\<close>

inductive guard_step :: "nat \<Rightarrow> call_guard \<Rightarrow> call_guard \<Rightarrow> bool" for t where
  reenter: "\<lbrakk>thread_at s t = Running; owner s = Some t; Suc (nest (threads s t)) < 2 ^ 32; d = depth s + 1\<rbrakk> \<Longrightarrow>
    guard_step t s (goto t Running (Suc (nest (threads s t)))
      (s\<lparr>depth := d, reentries := reentries s + 1, max_depth := (if d > max_depth s then d else max_depth s)\<rparr>))"
| enter_check: "\<lbrakk>thread_at s t = Running; owner s \<noteq> Some t\<rbrakk> \<Longrightarrow>
    guard_step t s (goto t Enter_checked (nest (threads s t)) s)"
| enter_try_lock: "\<lbrakk>thread_at s t = Enter_checked; mu s = None\<rbrakk> \<Longrightarrow>
    guard_step t s (goto t Enter_locked (nest (threads s t)) (s\<lparr>mu := Some t\<rparr>))"
| enter_busy: "\<lbrakk>thread_at s t = Enter_checked\<rbrakk> \<Longrightarrow>
    guard_step t s (goto t Enter_waiting (nest (threads s t)) (s\<lparr>waits := waits s + 1\<rparr>))"
| enter_lock: "\<lbrakk>thread_at s t = Enter_waiting; mu s = None\<rbrakk> \<Longrightarrow>
    guard_step t s (goto t Enter_locked (nest (threads s t)) (s\<lparr>mu := Some t\<rparr>))"
| enter_own: "\<lbrakk>thread_at s t = Enter_locked\<rbrakk> \<Longrightarrow>
    guard_step t s (goto t Enter_owned (nest (threads s t)) (s\<lparr>owner := Some t\<rparr>))"
| enter_done: "\<lbrakk>thread_at s t = Enter_owned\<rbrakk> \<Longrightarrow>
    guard_step t s (goto t Running 1
      (s\<lparr>depth := 1, max_depth := (if max_depth s < 1 then 1 else max_depth s), entries_cnt := entries_cnt s + 1\<rparr>))"
| leave_inner: "\<lbrakk>thread_at s t = Running; 0 < nest (threads s t); 1 < depth s\<rbrakk> \<Longrightarrow>
    guard_step t s (goto t Running (nest (threads s t) - 1) (s\<lparr>depth := depth s - 1\<rparr>))"
| leave_begin: "\<lbrakk>thread_at s t = Running; 0 < nest (threads s t); \<not> 1 < depth s\<rbrakk> \<Longrightarrow>
    guard_step t s (goto t Leaving (nest (threads s t) - 1) (s\<lparr>depth := 0\<rparr>))"
| leave_disown: "\<lbrakk>thread_at s t = Leaving\<rbrakk> \<Longrightarrow>
    guard_step t s (goto t Leave_cleared (nest (threads s t)) (s\<lparr>owner := None\<rparr>))"
| leave_unlock: "\<lbrakk>thread_at s t = Leave_cleared\<rbrakk> \<Longrightarrow>
    guard_step t s (goto t Running (nest (threads s t)) (s\<lparr>mu := None\<rparr>))"
| try_self: "\<lbrakk>thread_at s t = Running; owner s = Some t\<rbrakk> \<Longrightarrow>
    guard_step t s (s\<lparr>try_failed_self := try_failed_self s + 1\<rparr>)"
| try_check: "\<lbrakk>thread_at s t = Running; owner s \<noteq> Some t\<rbrakk> \<Longrightarrow>
    guard_step t s (goto t Try_checked (nest (threads s t)) s)"
| try_busy: "\<lbrakk>thread_at s t = Try_checked\<rbrakk> \<Longrightarrow>
    guard_step t s (goto t Running (nest (threads s t)) (s\<lparr>try_failed_other := try_failed_other s + 1\<rparr>))"
| try_lock: "\<lbrakk>thread_at s t = Try_checked; mu s = None\<rbrakk> \<Longrightarrow>
    guard_step t s (goto t Try_locked (nest (threads s t)) (s\<lparr>mu := Some t\<rparr>))"
| try_own: "\<lbrakk>thread_at s t = Try_locked\<rbrakk> \<Longrightarrow>
    guard_step t s (goto t Try_owned (nest (threads s t)) (s\<lparr>owner := Some t\<rparr>))"
| try_done: "\<lbrakk>thread_at s t = Try_owned\<rbrakk> \<Longrightarrow>
    guard_step t s (goto t Running 1 (s\<lparr>depth := 1, entries_cnt := entries_cnt s + 1\<rparr>))"

definition guard_any :: "call_guard \<Rightarrow> call_guard \<Rightarrow> bool" where
  "guard_any s s' \<longleftrightarrow> (\<exists>t. guard_step t s s')"

section \<open>The invariant\<close>

definition inside :: "guard_thread \<Rightarrow> bool" where
  "inside p \<longleftrightarrow> pc p = Running \<and> 0 < nest p"

definition holding :: "guard_thread \<Rightarrow> bool" where
  "holding p \<longleftrightarrow> pc p \<in> {Enter_locked, Enter_owned, Try_locked, Try_owned, Leaving, Leave_cleared} \<or> inside p"

definition owning :: "guard_thread \<Rightarrow> bool" where
  "owning p \<longleftrightarrow> pc p \<in> {Enter_owned, Try_owned, Leaving} \<or> inside p"

definition thread_ok :: "call_guard \<Rightarrow> nat \<Rightarrow> bool" where
  "thread_ok s t \<longleftrightarrow> (let p = threads s t in
     (mu s = Some t \<longleftrightarrow> holding p) \<and> (owner s = Some t \<longleftrightarrow> owning p) \<and> (pc p \<noteq> Running \<longrightarrow> nest p = 0) \<and>
     (inside p \<longrightarrow> unat (depth s) = nest p))"

definition guard_inv :: "call_guard \<Rightarrow> bool" where
  "guard_inv s \<longleftrightarrow> (\<forall>t. thread_ok s t)"

lemmas guard_defs = thread_ok_def inside_def holding_def owning_def goto_def Let_def

lemma goto_simps [simp]:
  "mu (goto t p n s) = mu s" "owner (goto t p n s) = owner s" "depth (goto t p n s) = depth s"
  "threads (goto t p n s) = (threads s)(t := \<lparr>pc = p, nest = n\<rparr>)"
  by (simp_all add: goto_def)

lemma guard_inv_new: "guard_inv new_call_guard"
  by (simp add: guard_inv_def guard_defs new_call_guard_def)

text \<open>A step of \<open>t\<close> keeps what the invariant says of \<open>t\<close> and of every other thread.\<close>

lemma guard_step_self:
  assumes "guard_step t s s'" and "thread_ok s t"
  shows "thread_ok s' t"
  using assms
proof cases
  case (reenter d)
  then show ?thesis using assms(2) by (auto simp: guard_defs unat_plus_one_less [of "depth s" "2 ^ 32 - 1"])
next
  case leave_inner
  then show ?thesis using assms(2) unat_diff_no_wrap [of 1 "depth s"] by (auto simp: guard_defs word_less_nat_alt word_le_nat_alt)
next
  case leave_begin
  then show ?thesis using assms(2) by (auto simp: guard_defs word_less_nat_alt)
qed (use assms(2) in \<open>auto simp: guard_defs\<close>)

lemma guard_step_other:
  assumes "guard_step t s s'" and "thread_ok s t" and "thread_ok s u" and "u \<noteq> t"
  shows "thread_ok s' u"
  using assms by cases (auto simp: guard_defs)

lemma guard_inv_step: "guard_inv s \<Longrightarrow> guard_step t s s' \<Longrightarrow> guard_inv s'"
  unfolding guard_inv_def using guard_step_self guard_step_other by metis

lemma guard_inv_reachable:
  assumes "guard_any\<^sup>*\<^sup>* new_call_guard s"
  shows "guard_inv s"
  using assms by induction (auto simp: guard_inv_new guard_any_def intro: guard_inv_step)

section \<open>The holder can always run until it lets go\<close>

text \<open>Thread \<open>t\<close> can run by itself until the mutex is free, and no other thread has moved.\<close>

definition lets_go :: "nat \<Rightarrow> call_guard \<Rightarrow> bool" where
  "lets_go t s \<longleftrightarrow> (\<exists>s'. (guard_step t)\<^sup>*\<^sup>* s s' \<and> mu s' = None \<and> (\<forall>u. u \<noteq> t \<longrightarrow> threads s' u = threads s u))"

lemma guard_step_frame: "guard_step t s s' \<Longrightarrow> u \<noteq> t \<Longrightarrow> threads s' u = threads s u"
  by (cases rule: guard_step.cases) auto

lemma lets_go_step:
  assumes "guard_step t s s1" and "lets_go t s1"
  shows "lets_go t s"
proof -
  obtain s' where "(guard_step t)\<^sup>*\<^sup>* s1 s'" "mu s' = None" "\<forall>u. u \<noteq> t \<longrightarrow> threads s' u = threads s1 u"
    using assms(2) by (auto simp: lets_go_def)
  then show ?thesis
    using assms(1) guard_step_frame [OF assms(1)] by (auto simp: lets_go_def intro: converse_rtranclp_into_rtranclp)
qed

lemma lets_go_cleared: "thread_at s t = Leave_cleared \<Longrightarrow> lets_go t s"
  by (rule lets_go_step [OF leave_unlock]) (auto simp: lets_go_def)

lemma lets_go_leaving: "thread_at s t = Leaving \<Longrightarrow> lets_go t s"
  by (rule lets_go_step [OF leave_disown]) (auto intro: lets_go_cleared)

lemma lets_go_inside: "thread_at s t = Running \<Longrightarrow> nest (threads s t) = Suc n \<Longrightarrow> unat (depth s) = Suc n \<Longrightarrow> lets_go t s"
proof (induction n arbitrary: s)
  case 0
  then have "\<not> 1 < depth s" by (simp add: word_less_nat_alt)
  with 0 have "guard_step t s (goto t Leaving (nest (threads s t) - 1) (s\<lparr>depth := 0\<rparr>))" by (intro leave_begin) simp_all
  then show ?case by (rule lets_go_step) (simp add: lets_go_leaving)
next
  case (Suc n)
  then have d: "1 < depth s" by (simp add: word_less_nat_alt)
  then have "unat (depth s - 1) = Suc n" using unat_diff_no_wrap [of 1 "depth s"] Suc.prems(3) by simp
  then have "lets_go t (goto t Running (nest (threads s t) - 1) (s\<lparr>depth := depth s - 1\<rparr>))"
    using Suc.prems(2) by (intro Suc.IH) simp_all
  moreover have "guard_step t s (goto t Running (nest (threads s t) - 1) (s\<lparr>depth := depth s - 1\<rparr>))"
    using Suc.prems d by (intro leave_inner) simp_all
  ultimately show ?case by (rule lets_go_step [rotated])
qed

lemma lets_go_owned:
  assumes "thread_at s t \<in> {Enter_owned, Try_owned}"
  shows "lets_go t s"
proof -
  have "lets_go t s" if "guard_step t s (goto t Running 1 s1)" "depth s1 = 1" for s1
    using that by (intro lets_go_step [OF that(1)] lets_go_inside [of _ _ 0]) simp_all
  then show ?thesis using assms enter_done [of s t] try_done [of s t] by fastforce
qed

lemma lets_go_locked:
  assumes "thread_at s t \<in> {Enter_locked, Try_locked}"
  shows "lets_go t s"
proof -
  have "lets_go t (goto t p (nest (threads s t)) (s\<lparr>owner := Some t\<rparr>))" if "p \<in> {Enter_owned, Try_owned}" for p
    using that by (intro lets_go_owned) simp
  then show ?thesis using assms lets_go_step [OF enter_own] lets_go_step [OF try_own] by blast
qed

lemma holder_lets_go:
  assumes "thread_ok s t" and "mu s = Some t"
  shows "lets_go t s"
proof -
  have "holding (threads s t)" using assms by (simp add: thread_ok_def Let_def)
  then consider "thread_at s t = Leave_cleared" | "thread_at s t = Leaving" | "thread_at s t \<in> {Enter_owned, Try_owned}"
    | "thread_at s t \<in> {Enter_locked, Try_locked}" | "inside (threads s t)"
    by (auto simp: holding_def)
  then show ?thesis
  proof cases
    case 5
    then show ?thesis
      using assms(1) lets_go_inside [of s t "nest (threads s t) - 1"] by (simp add: inside_def thread_ok_def Let_def)
  qed (auto intro: lets_go_cleared lets_go_leaving lets_go_owned lets_go_locked)
qed

section \<open>Properties of the guard\<close>

text \<open>
  C35: the guard excludes and counts. In every state that any interleaving of any number of threads
  reaches, at most one thread is inside, the depth is exactly its nesting and \<open>held_by_this_thread\<close>
  answers for it and for no other thread inside; and when a teardown's try is granted no thread is
  inside, the calling one included.
\<close>

theorem guard_excludes:
  assumes "guard_any\<^sup>*\<^sup>* new_call_guard s" and "0 < nest (threads s t)"
  shows "held_by t s \<and> unat (depth s) = nest (threads s t) \<and> {u. 0 < nest (threads s u)} = {t} \<and>
    {u. thread_at s u = Try_owned} = {}"
proof -
  have ok: "thread_ok s u" for u using guard_inv_reachable [OF assms(1)] by (simp add: guard_inv_def)
  have i: "inside (threads s t)" using ok [of t] assms(2) by (auto simp: thread_ok_def Let_def inside_def)
  then have m: "mu s = Some t" using ok [of t] by (simp add: thread_ok_def Let_def holding_def)
  have eq: "u = t" if "0 < nest (threads s u) \<or> thread_at s u = Try_owned" for u
  proof -
    have "holding (threads s u)" using that ok [of u] by (auto simp: thread_ok_def Let_def holding_def inside_def)
    then show ?thesis using ok [of u] m by (simp add: thread_ok_def Let_def)
  qed
  have "thread_at s t \<noteq> Try_owned" using i by (simp add: inside_def)
  then have "{u. thread_at s u = Try_owned} = {}" "{u. 0 < nest (threads s u)} = {t}" using eq assms(2) by auto
  then show ?thesis using ok [of t] i by (simp add: thread_ok_def Let_def owning_def held_by_def)
qed

text \<open>
  C34: nobody waits for itself, and nobody waits in vain. Whenever a thread waits for the mutex it
  does not hold it, so re-entry from a vendor callback cannot deadlock the thread; and from every
  such state there are steps of the holder alone (none when the mutex is free) after which the waiter's own next
  step takes the lock.
\<close>

theorem guard_waiter_gets_lock:
  assumes "guard_any\<^sup>*\<^sup>* new_call_guard s" and "thread_at s t = Enter_waiting"
  shows "mu s \<noteq> Some t \<and>
    (\<exists>s1 s'. (case mu s of None \<Rightarrow> s1 = s | Some h \<Rightarrow> (guard_step h)\<^sup>*\<^sup>* s s1) \<and>
      guard_step t s1 s' \<and> mu s' = Some t \<and> thread_at s' t = Enter_locked)"
proof -
  have ok: "thread_ok s u" for u using guard_inv_reachable [OF assms(1)] by (simp add: guard_inv_def)
  have nt: "mu s \<noteq> Some t" using ok [of t] assms(2) by (auto simp: thread_ok_def Let_def holding_def inside_def)
  obtain s1 where s1: "case mu s of None \<Rightarrow> s1 = s | Some h \<Rightarrow> (guard_step h)\<^sup>*\<^sup>* s s1" "mu s1 = None" "thread_at s1 t = Enter_waiting"
  proof (cases "mu s")
    case (Some u)
    with nt have "u \<noteq> t" by auto
    with holder_lets_go [OF ok Some] assms(2) Some that show ?thesis by (auto simp: lets_go_def)
  qed (use assms(2) that in auto)
  let ?s = "goto t Enter_locked (nest (threads s1 t)) (s1\<lparr>mu := Some t\<rparr>)"
  have "guard_step t s1 ?s" by (rule enter_lock [OF s1(3,2)])
  with nt s1(1) show ?thesis by (intro conjI exI [of _ s1] exI [of _ ?s]) simp_all
qed

section \<open>Concrete runs\<close>

definition demo_inside :: call_guard where
  "demo_inside = goto 0 Running 1 ((goto 0 Enter_owned 0 ((goto 0 Enter_locked 0 ((goto 0 Enter_checked 0 new_call_guard)
     \<lparr>mu := Some 0\<rparr>))\<lparr>owner := Some 0\<rparr>))\<lparr>depth := 1, max_depth := 1, entries_cnt := 1\<rparr>)"

definition demo_waiting :: call_guard where
  "demo_waiting = goto 1 Enter_waiting 0 ((goto 1 Enter_checked 0 demo_inside)\<lparr>waits := 1\<rparr>)"

lemma demo_inside_reachable: "guard_any\<^sup>*\<^sup>* new_call_guard demo_inside"
proof -
  let ?s1 = "goto 0 Enter_checked 0 new_call_guard"
  let ?s2 = "goto 0 Enter_locked 0 (?s1\<lparr>mu := Some 0\<rparr>)"
  let ?s3 = "goto 0 Enter_owned 0 (?s2\<lparr>owner := Some 0\<rparr>)"
  have n: "owner new_call_guard = None" "mu new_call_guard = None" "max_depth new_call_guard = 0" "entries_cnt new_call_guard = 0"
    "threads new_call_guard t = \<lparr>pc = Running, nest = 0\<rparr>" for t
    by (simp_all add: new_call_guard_def)
  have "guard_any new_call_guard ?s1" using enter_check [of new_call_guard 0] by (auto simp: guard_any_def n)
  moreover have "guard_any ?s1 ?s2" using enter_try_lock [of ?s1 0] by (auto simp: guard_any_def n)
  moreover have "guard_any ?s2 ?s3" using enter_own [of ?s2 0] by (auto simp: guard_any_def)
  moreover have "guard_any ?s3 demo_inside"
    using enter_done [of ?s3 0] by (auto simp: guard_any_def demo_inside_def goto_def n)
  ultimately show ?thesis by (meson converse_rtranclp_into_rtranclp rtranclp.rtrancl_refl)
qed

lemma demo_waiting_reachable: "guard_any\<^sup>*\<^sup>* new_call_guard demo_waiting"
proof -
  let ?s1 = "goto 1 Enter_checked 0 demo_inside"
  have d: "owner demo_inside = Some 0" "waits demo_inside = 0" "threads demo_inside (Suc 0) = \<lparr>pc = Running, nest = 0\<rparr>"
    by (simp_all add: demo_inside_def new_call_guard_def goto_def)
  have "guard_any demo_inside ?s1" using enter_check [of demo_inside 1] by (auto simp: guard_any_def d)
  moreover have "guard_any ?s1 demo_waiting"
    using enter_busy [of ?s1 1] by (auto simp: guard_any_def demo_waiting_def d goto_def)
  ultimately show ?thesis using demo_inside_reachable by simp
qed

theorem guard_excludes_witness:
  "held_by 0 demo_inside \<and> unat (depth demo_inside) = 1 \<and> {u. 0 < nest (threads demo_inside u)} = {0} \<and>
    {u. thread_at demo_inside u = Try_owned} = {}"
proof -
  have n: "nest (threads demo_inside 0) = 1" by (simp add: demo_inside_def)
  then have "0 < nest (threads demo_inside 0)" by simp
  from guard_excludes [OF demo_inside_reachable this] show ?thesis unfolding n .
qed

theorem guard_waiter_gets_lock_witness:
  "mu demo_waiting = Some 0 \<and> (\<exists>s1 s'. (guard_step 0)\<^sup>*\<^sup>* demo_waiting s1 \<and> guard_step 1 s1 s' \<and> mu s' = Some 1 \<and>
     thread_at s' 1 = Enter_locked)"
proof -
  have w: "thread_at demo_waiting 1 = Enter_waiting" and m: "mu demo_waiting = Some 0"
    by (simp_all add: demo_waiting_def demo_inside_def goto_def)
  from guard_waiter_gets_lock [OF demo_waiting_reachable w] m show ?thesis by auto
qed

end
