(* ===== verification/Shim_Cubin.thy ===== *)
theory Shim_Cubin
  imports Prelude "HOL-Library.Multiset"
begin

text \<open>
  The queue of GPU modules, \<open>src/shim/core/cubinqueue.h\<close> and \<open>cubinqueue.cc\<close>: an application thread
  inside a vendor callback copies the module and parks the copy, the adapter's thread settles it
  (the vendor's CRC over the copy, the module record, the offer queue), and the drain thread offers
  it to the consumer.

  The copies are \<open>malloc\<close>ed buffers: the model has an explicit heap of live buffers, and a read or a
  \<open>free\<close> of a buffer that is not live raises \<open>cq_fault\<close>. The CRC is the vendor's function, a
  parameter. The mutex makes each critical section one step; the two loops hold their entry outside
  it, so they interleave with captures and with each other. Settling one entry is three steps: the CRC and the module
  record on the copy nobody else has, the push under the mutex, and the remembering of the CRC, by which time a drain may
  have freed the copy.

  The lemmas show that no interleaving leaks, double-frees or reads a freed buffer, that both lists
  keep their entry and byte bounds without wrap-around, that every copy made is counted, and that
  what is offered is a module as it was captured, under its CRC, after its record was fired.
\<close>

section \<open>State\<close>

record cubin_queue_limits =
  max_entries_lim :: u64
  max_queued_bytes :: u64
  max_cubin_bytes :: u64
  max_interned :: u64
  max_pending_entries :: u64
  max_pending_bytes :: u64

definition default_limits :: cubin_queue_limits where
  "default_limits = \<lparr>max_entries_lim = 512, max_queued_bytes = 64 * 1024 * 1024, max_cubin_bytes = 8 * 1024 * 1024,
     max_interned = 4096, max_pending_entries = 512, max_pending_bytes = 64 * 1024 * 1024\<rparr>"

record cubin_entry =
  ce_crc :: u64
  ce_module_id :: u64
  ce_load_ns :: u64
  ce_bytes :: nat
  ce_len :: u64

datatype CubinOfferResult = kCubinOfferDisabled | kCubinOfferNoAddress | kCubinOfferNoListener | kCubinOfferAccepted
  | kCubinOfferRefused | kCubinOfferTimedOut | kCubinOfferError

record cubin_queue =
  cq_limits :: cubin_queue_limits
  cq_pending :: "cubin_entry list"
  cq_pending_bytes :: u64
  cq_q :: "cubin_entry list"
  cq_queued_bytes :: u64
  cq_interned :: "u64 set"
  cq_captured :: u64
  cq_reload_skipped :: u64
  cq_queue_full :: u64
  cq_send_failed :: u64
  cq_too_large :: u64
  cq_crc_failed :: u64
  cq_alloc_failed :: u64
  cq_pending_full :: u64
  cq_sent :: u64
  cq_live :: "nat \<rightharpoonup> u8 list"
  cq_next :: nat
  cq_fault :: bool
  cq_records :: "(u64 \<times> u64 \<times> u64 \<times> u8 list) list"
  cq_offers :: "(u8 list \<times> u64) list"

definition new_cubin_queue :: "cubin_queue_limits \<Rightarrow> cubin_queue" where
  "new_cubin_queue l = \<lparr>cq_limits = l, cq_pending = [], cq_pending_bytes = 0, cq_q = [], cq_queued_bytes = 0, cq_interned = {},
     cq_captured = 0, cq_reload_skipped = 0, cq_queue_full = 0, cq_send_failed = 0, cq_too_large = 0, cq_crc_failed = 0,
     cq_alloc_failed = 0, cq_pending_full = 0, cq_sent = 0, cq_live = Map.empty, cq_next = 0, cq_fault = False,
     cq_records = [], cq_offers = []\<rparr>"

section \<open>The heap\<close>

text \<open>\<open>malloc\<close> and \<open>memcpy\<close> of the view: a fresh buffer that holds the bytes.\<close>

definition cq_copy :: "u8 list \<Rightarrow> cubin_queue \<Rightarrow> nat \<times> cubin_queue" where
  "cq_copy bytes s = (cq_next s, s\<lparr>cq_live := (cq_live s)(cq_next s \<mapsto> bytes), cq_next := Suc (cq_next s)\<rparr>)"

definition cq_free :: "nat \<Rightarrow> cubin_queue \<Rightarrow> cubin_queue" where
  "cq_free a s = (if a \<in> dom (cq_live s) then s\<lparr>cq_live := (cq_live s)(a := None)\<rparr> else s\<lparr>cq_fault := True\<rparr>)"

definition cq_read :: "nat \<Rightarrow> cubin_queue \<Rightarrow> u8 list \<times> cubin_queue" where
  "cq_read a s = (case cq_live s a of None \<Rightarrow> ([], s\<lparr>cq_fault := True\<rparr>) | Some bytes \<Rightarrow> (bytes, s))"

section \<open>Operations\<close>

definition capture :: "bool \<Rightarrow> u8 list option \<Rightarrow> u64 \<Rightarrow> u64 \<Rightarrow> cubin_queue \<Rightarrow> bool \<times> cubin_queue" where
  "capture malloc_ok view module_id load_ns s =
     (case view of None \<Rightarrow> (False, s)
      | Some bytes \<Rightarrow>
          if bytes = [] then (False, s)
          else let len = of_nat (length bytes) :: u64; l = cq_limits s
            in if len > max_cubin_bytes l then (False, s\<lparr>cq_too_large := cq_too_large s + 1\<rparr>)
               else if \<not> malloc_ok then (False, s\<lparr>cq_alloc_failed := cq_alloc_failed s + 1\<rparr>)
               else let (copy, s) = cq_copy bytes s
                 in if length (cq_pending s) \<ge> unat (max_pending_entries l) \<or> cq_pending_bytes s + len > max_pending_bytes l
                    then (False, (cq_free copy s)\<lparr>cq_pending_full := cq_pending_full s + 1\<rparr>)
                    else (True, s\<lparr>cq_pending := cq_pending s @ [\<lparr>ce_crc = 0, ce_module_id = module_id, ce_load_ns = load_ns,
                                    ce_bytes = copy, ce_len = len\<rparr>],
                                  cq_pending_bytes := cq_pending_bytes s + len\<rparr>))"

definition settle_take :: "cubin_queue \<Rightarrow> (cubin_entry \<times> cubin_queue) option" where
  "settle_take s =
     (case cq_pending s of [] \<Rightarrow> None
      | e # es \<Rightarrow> Some (e, s\<lparr>cq_pending := es, cq_pending_bytes := cq_pending_bytes s - ce_len e\<rparr>))"

text \<open>
  One entry: the CRC, the checks and the module record, outside the mutex; the push under it; the
  remembering of the CRC, outside it again. The first two say whether the entry goes on.
\<close>

definition settle_key :: "(u8 list \<Rightarrow> u64) \<Rightarrow> bool \<Rightarrow> cubin_entry \<Rightarrow> cubin_queue \<Rightarrow> cubin_entry option \<times> cubin_queue" where
  "settle_key crc on_captured e s =
     (let (bytes, s) = cq_read (ce_bytes e) s; e = e\<lparr>ce_crc := crc bytes\<rparr>
      in if ce_crc e = 0 then (None, (cq_free (ce_bytes e) s)\<lparr>cq_crc_failed := cq_crc_failed s + 1\<rparr>)
         else if ce_crc e \<in> cq_interned s then (None, (cq_free (ce_bytes e) s)\<lparr>cq_reload_skipped := cq_reload_skipped s + 1\<rparr>)
         else if on_captured
         then let (bytes, s) = cq_read (ce_bytes e) s
              in (Some e, s\<lparr>cq_records := cq_records s @ [(ce_module_id e, ce_load_ns e, ce_crc e, bytes)]\<rparr>)
         else (Some e, s))"

definition settle_push :: "cubin_entry \<Rightarrow> cubin_queue \<Rightarrow> bool \<times> cubin_queue" where
  "settle_push e s =
     (let l = cq_limits s
      in if length (cq_q s) \<ge> unat (max_entries_lim l) \<or> cq_queued_bytes s + ce_len e > max_queued_bytes l
         then (False, (cq_free (ce_bytes e) s)\<lparr>cq_queue_full := cq_queue_full s + 1\<rparr>)
         else (True, s\<lparr>cq_q := cq_q s @ [e], cq_queued_bytes := cq_queued_bytes s + ce_len e\<rparr>))"

definition settle_intern :: "u64 \<Rightarrow> cubin_queue \<Rightarrow> cubin_queue" where
  "settle_intern c s =
     s\<lparr>cq_interned := (if card (cq_interned s) < unat (max_interned (cq_limits s)) then insert c (cq_interned s) else cq_interned s),
       cq_captured := cq_captured s + 1\<rparr>"

definition settle_one :: "(u8 list \<Rightarrow> u64) \<Rightarrow> bool \<Rightarrow> cubin_entry \<Rightarrow> cubin_queue \<Rightarrow> cubin_queue" where
  "settle_one crc on_captured e s =
     (case settle_key crc on_captured e s of
        (None, s) \<Rightarrow> s
      | (Some e, s) \<Rightarrow> let (pushed, s) = settle_push e s in if pushed then settle_intern (ce_crc e) s else s)"

fun settle_loop :: "(u8 list \<Rightarrow> u64) \<Rightarrow> bool \<Rightarrow> nat \<Rightarrow> nat \<Rightarrow> cubin_queue \<Rightarrow> nat \<times> cubin_queue" where
  "settle_loop crc cb 0 d s = (d, s)"
| "settle_loop crc cb (Suc n) d s =
     (case settle_take s of None \<Rightarrow> (d, s) | Some (e, s) \<Rightarrow> settle_loop crc cb n (Suc d) (settle_one crc cb e s))"

definition settle :: "(u8 list \<Rightarrow> u64) option \<Rightarrow> bool \<Rightarrow> cubin_queue \<Rightarrow> nat \<times> cubin_queue" where
  "settle crc cb s = (case crc of None \<Rightarrow> (0, s) | Some crc \<Rightarrow> settle_loop crc cb (length (cq_pending s)) 0 s)"

definition drain_take :: "cubin_queue \<Rightarrow> (cubin_entry \<times> cubin_queue) option" where
  "drain_take s =
     (case cq_q s of [] \<Rightarrow> None
      | e # es \<Rightarrow> Some (e, s\<lparr>cq_q := es, cq_queued_bytes := cq_queued_bytes s - ce_len e\<rparr>))"

definition drain_one :: "(u8 list \<Rightarrow> u64 \<Rightarrow> CubinOfferResult) \<Rightarrow> cubin_entry \<Rightarrow> cubin_queue \<Rightarrow> cubin_queue" where
  "drain_one offer e s =
     (let (bytes, s) = cq_read (ce_bytes e) s;
          s = s\<lparr>cq_offers := cq_offers s @ [(bytes, ce_crc e)]\<rparr>;
          r = offer bytes (ce_crc e);
          s = cq_free (ce_bytes e) s
      in if r = kCubinOfferAccepted then s\<lparr>cq_sent := cq_sent s + 1\<rparr> else s\<lparr>cq_send_failed := cq_send_failed s + 1\<rparr>)"

fun drain_loop :: "(u8 list \<Rightarrow> u64 \<Rightarrow> CubinOfferResult) \<Rightarrow> nat \<Rightarrow> nat \<Rightarrow> cubin_queue \<Rightarrow> nat \<times> cubin_queue" where
  "drain_loop offer 0 d s = (d, s)"
| "drain_loop offer (Suc n) d s =
     (case drain_take s of None \<Rightarrow> (d, s) | Some (e, s) \<Rightarrow> drain_loop offer n (Suc d) (drain_one offer e s))"

definition drain :: "(u8 list \<Rightarrow> u64 \<Rightarrow> CubinOfferResult) option \<Rightarrow> cubin_queue \<Rightarrow> nat \<times> cubin_queue" where
  "drain offer s = (case offer of None \<Rightarrow> (0, s) | Some offer \<Rightarrow> drain_loop offer (length (cq_q s)) 0 s)"

definition destroy :: "cubin_queue \<Rightarrow> cubin_queue" where
  "destroy s =
     (let s = fold (\<lambda>e. cq_free (ce_bytes e)) (cq_pending s) s;
          s = s\<lparr>cq_pending := [], cq_pending_bytes := 0\<rparr>;
          s = fold (\<lambda>e. cq_free (ce_bytes e)) (cq_q s) s
      in s\<lparr>cq_q := [], cq_queued_bytes := 0\<rparr>)"

section \<open>Three threads\<close>

text \<open>
  Where the settling thread is: between two entries, with an entry it took, with one whose record it
  fired, or with the CRC of one it pushed.
\<close>

datatype settling = S_idle | S_taken cubin_entry | S_keyed cubin_entry | S_pushed u64

text \<open>The queue, what each loop holds outside the mutex, and the modules captured so far.\<close>

record cubin_sys =
  cs_queue :: cubin_queue
  cs_settling :: settling
  cs_draining :: "cubin_entry option"
  cs_views :: "u8 list list"

definition cubin_start :: "cubin_queue_limits \<Rightarrow> cubin_sys" where
  "cubin_start l = \<lparr>cs_queue = new_cubin_queue l, cs_settling = S_idle, cs_draining = None, cs_views = []\<rparr>"

inductive cubin_step :: "(u8 list \<Rightarrow> u64) \<Rightarrow> cubin_sys \<Rightarrow> cubin_sys \<Rightarrow> bool" for crc where
  captures: "\<lbrakk>length bytes < 2 ^ 64; capture mok (Some bytes) i ns (cs_queue x) = (b, s)\<rbrakk> \<Longrightarrow>
    cubin_step crc x (x\<lparr>cs_queue := s, cs_views := cs_views x @ [bytes]\<rparr>)"
| settle_takes: "\<lbrakk>cs_settling x = S_idle; settle_take (cs_queue x) = Some (e, s)\<rbrakk> \<Longrightarrow>
    cubin_step crc x (x\<lparr>cs_queue := s, cs_settling := S_taken e\<rparr>)"
| settle_keys: "\<lbrakk>cs_settling x = S_taken e; settle_key crc True e (cs_queue x) = (r, s)\<rbrakk> \<Longrightarrow>
    cubin_step crc x (x\<lparr>cs_queue := s, cs_settling := (case r of None \<Rightarrow> S_idle | Some e' \<Rightarrow> S_keyed e')\<rparr>)"
| settle_pushes: "\<lbrakk>cs_settling x = S_keyed e; settle_push e (cs_queue x) = (pushed, s)\<rbrakk> \<Longrightarrow>
    cubin_step crc x (x\<lparr>cs_queue := s, cs_settling := (if pushed then S_pushed (ce_crc e) else S_idle)\<rparr>)"
| settle_interns: "cs_settling x = S_pushed c \<Longrightarrow>
    cubin_step crc x (x\<lparr>cs_queue := settle_intern c (cs_queue x), cs_settling := S_idle\<rparr>)"
| drain_takes: "\<lbrakk>cs_draining x = None; drain_take (cs_queue x) = Some (e, s)\<rbrakk> \<Longrightarrow>
    cubin_step crc x (x\<lparr>cs_queue := s, cs_draining := Some e\<rparr>)"
| drain_ends: "cs_draining x = Some e \<Longrightarrow>
    cubin_step crc x (x\<lparr>cs_queue := drain_one offer e (cs_queue x), cs_draining := None\<rparr>)"

section \<open>Ownership of the buffers\<close>

fun one :: "'a option \<Rightarrow> 'a multiset" where
  "one None = {#}"
| "one (Some e) = {#e#}"

fun in_hand :: "settling \<Rightarrow> cubin_entry multiset" where
  "in_hand (S_taken e) = {#e#}"
| "in_hand (S_keyed e) = {#e#}"
| "in_hand _ = {#}"

fun keyed :: "settling \<Rightarrow> cubin_entry multiset" where
  "keyed (S_keyed e) = {#e#}"
| "keyed _ = {#}"

fun uncounted :: "settling \<Rightarrow> u64" where
  "uncounted (S_pushed c) = 1"
| "uncounted _ = 0"

definition held :: "cubin_sys \<Rightarrow> cubin_entry multiset" where
  "held x = mset (cq_pending (cs_queue x)) + in_hand (cs_settling x) + mset (cq_q (cs_queue x)) + one (cs_draining x)"

text \<open>Every live buffer is the buffer of exactly one entry.\<close>

definition owns :: "(nat \<rightharpoonup> u8 list) \<Rightarrow> cubin_entry multiset \<Rightarrow> bool" where
  "owns live M \<longleftrightarrow> finite (dom live) \<and> image_mset ce_bytes M = mset_set (dom live)"

lemma owns_empty: "owns Map.empty {#}"
  by (simp add: owns_def)

lemma owns_live: "owns live M \<Longrightarrow> e \<in># M \<Longrightarrow> ce_bytes e \<in> dom live"
  unfolding owns_def by (metis finite_set_mset_mset_set image_eqI set_image_mset)

lemma owns_alloc: "owns live M \<Longrightarrow> a \<notin> dom live \<Longrightarrow> ce_bytes e = a \<Longrightarrow> owns (live(a \<mapsto> bs)) (add_mset e M)"
  by (simp add: owns_def)

lemma owns_free:
  assumes "owns live (add_mset e M)"
  shows "owns (live(ce_bytes e := None)) M" and "e' \<in># M \<Longrightarrow> ce_bytes e' \<noteq> ce_bytes e"
proof -
  let ?a = "ce_bytes e"
  have a: "?a \<in> dom live" and f: "finite (dom live)" using owns_live [OF assms, of e] assms by (simp_all add: owns_def)
  have "add_mset ?a (image_mset ce_bytes M) = add_mset ?a (mset_set (dom live - {?a}))"
    using assms f a by (simp add: owns_def mset_set.remove [symmetric])
  then have m: "image_mset ce_bytes M = mset_set (dom live - {?a})" by simp
  then show "owns (live(?a := None)) M" using f by (simp add: owns_def)
  show "ce_bytes e' \<noteq> ?a" if "e' \<in># M"
  proof
    assume "ce_bytes e' = ?a"
    with that have "?a \<in># image_mset ce_bytes M" by (metis imageI set_image_mset)
    with f show False by (simp add: m)
  qed
qed

text \<open>
  An entry's buffer is live, was captured, and its length is the entry's.
\<close>

definition entry_ok :: "cubin_sys \<Rightarrow> cubin_entry \<Rightarrow> bool" where
  "entry_ok x e \<longleftrightarrow> (\<exists>bs. cq_live (cs_queue x) (ce_bytes e) = Some bs \<and> unat (ce_len e) = length bs \<and>
     ce_len e \<le> max_cubin_bytes (cq_limits (cs_queue x)) \<and> bs \<in> set (cs_views x))"

definition heap_ok :: "cubin_sys \<Rightarrow> bool" where
  "heap_ok x \<longleftrightarrow> \<not> cq_fault (cs_queue x) \<and> owns (cq_live (cs_queue x)) (held x) \<and>
     (\<forall>a \<in> dom (cq_live (cs_queue x)). a < cq_next (cs_queue x)) \<and> (\<forall>e \<in># held x. entry_ok x e)"

lemma heap_ok_start: "heap_ok (cubin_start l)"
  by (simp add: heap_ok_def cubin_start_def new_cubin_queue_def held_def owns_empty)

text \<open>Moving entries between the lists keeps the heap in order.\<close>

lemma heap_ok_moved:
  assumes "heap_ok x" and "held y = held x" and "cs_views y = cs_views x" and "cq_fault (cs_queue y) = cq_fault (cs_queue x)"
    and "cq_live (cs_queue y) = cq_live (cs_queue x)" and "cq_next (cs_queue y) = cq_next (cs_queue x)"
    and "cq_limits (cs_queue y) = cq_limits (cs_queue x)"
  shows "heap_ok y"
  using assms by (simp add: heap_ok_def entry_ok_def)

lemma heap_ok_keyed:
  assumes "heap_ok x" and "held x = add_mset e M" and "held y = add_mset (e\<lparr>ce_crc := c\<rparr>) M" and "cs_views y = cs_views x"
    and "cq_fault (cs_queue y) = cq_fault (cs_queue x)" and "cq_live (cs_queue y) = cq_live (cs_queue x)"
    and "cq_next (cs_queue y) = cq_next (cs_queue x)" and "cq_limits (cs_queue y) = cq_limits (cs_queue x)"
  shows "heap_ok y"
  using assms by (simp add: heap_ok_def entry_ok_def owns_def)

lemma heap_ok_freed:
  assumes "heap_ok x" and "held x = add_mset e (held y)" and "cs_views y = cs_views x"
    and "cq_fault (cs_queue y) = cq_fault (cs_queue x)" and "cq_live (cs_queue y) = (cq_live (cs_queue x))(ce_bytes e := None)"
    and "cq_next (cs_queue y) = cq_next (cs_queue x)" and "cq_limits (cs_queue y) = cq_limits (cs_queue x)"
  shows "heap_ok y"
proof -
  have o: "owns (cq_live (cs_queue x)) (add_mset e (held y))" using assms(1,2) by (simp add: heap_ok_def)
  have "entry_ok y e'" if "e' \<in># held y" for e'
    using that assms owns_free(2) [OF o that] by (simp add: heap_ok_def entry_ok_def)
  with owns_free(1) [OF o] show ?thesis using assms by (simp add: heap_ok_def)
qed

lemma heap_ok_alloc:
  assumes "heap_ok x" and "held y = add_mset e (held x)" and "cs_views y = cs_views x @ [bs]"
    and "cq_fault (cs_queue y) = cq_fault (cs_queue x)" and "cq_live (cs_queue y) = (cq_live (cs_queue x))(cq_next (cs_queue x) \<mapsto> bs)"
    and "cq_next (cs_queue y) = Suc (cq_next (cs_queue x))" and "cq_limits (cs_queue y) = cq_limits (cs_queue x)"
    and "ce_bytes e = cq_next (cs_queue x)" and "unat (ce_len e) = length bs" and "ce_len e \<le> max_cubin_bytes (cq_limits (cs_queue x))"
  shows "heap_ok y"
proof -
  have n: "cq_next (cs_queue x) \<notin> dom (cq_live (cs_queue x))" using assms(1) by (auto simp: heap_ok_def)
  have "entry_ok y e'" if "e' \<in># held x" for e'
  proof -
    have ok: "entry_ok x e'" using that assms(1) by (simp add: heap_ok_def)
    then have "ce_bytes e' \<noteq> cq_next (cs_queue x)" using n by (auto simp: entry_ok_def)
    with ok show ?thesis using assms(3,5,7) by (auto simp: entry_ok_def)
  qed
  moreover have "entry_ok y e" using assms(3,5,7-10) by (simp add: entry_ok_def)
  moreover have "owns (cq_live (cs_queue y)) (held y)" unfolding assms(2,5) using assms(1,8) n by (intro owns_alloc) (simp_all add: heap_ok_def)
  ultimately show ?thesis using assms by (auto simp: heap_ok_def less_Suc_eq)
qed

text \<open>The operations on an entry whose buffer is live.\<close>

lemma settle_key_live:
  assumes "cq_live s (ce_bytes e) = Some bs"
  shows "settle_key crc True e s =
    (let c = crc bs; s' = s\<lparr>cq_live := (cq_live s)(ce_bytes e := None)\<rparr>
     in if c = 0 then (None, s'\<lparr>cq_crc_failed := cq_crc_failed s + 1\<rparr>)
        else if c \<in> cq_interned s then (None, s'\<lparr>cq_reload_skipped := cq_reload_skipped s + 1\<rparr>)
        else (Some (e\<lparr>ce_crc := c\<rparr>), s\<lparr>cq_records := cq_records s @ [(ce_module_id e, ce_load_ns e, c, bs)]\<rparr>))"
  using assms by (simp add: settle_key_def cq_read_def cq_free_def Let_def domIff)

lemma settle_push_live:
  assumes "cq_live s (ce_bytes e) = Some bs"
  shows "settle_push e s =
    (if length (cq_q s) \<ge> unat (max_entries_lim (cq_limits s)) \<or> cq_queued_bytes s + ce_len e > max_queued_bytes (cq_limits s)
     then (False, s\<lparr>cq_live := (cq_live s)(ce_bytes e := None), cq_queue_full := cq_queue_full s + 1\<rparr>)
     else (True, s\<lparr>cq_q := cq_q s @ [e], cq_queued_bytes := cq_queued_bytes s + ce_len e\<rparr>))"
  using assms by (simp add: settle_push_def cq_free_def Let_def domIff)

lemma drain_one_live:
  assumes "cq_live s (ce_bytes e) = Some bs"
  shows "drain_one offer e s =
    (let s' = s\<lparr>cq_offers := cq_offers s @ [(bs, ce_crc e)], cq_live := (cq_live s)(ce_bytes e := None)\<rparr>
     in if offer bs (ce_crc e) = kCubinOfferAccepted then s'\<lparr>cq_sent := cq_sent s + 1\<rparr>
        else s'\<lparr>cq_send_failed := cq_send_failed s + 1\<rparr>)"
  using assms by (simp add: drain_one_def cq_read_def cq_free_def Let_def domIff)

lemma capture_cases:
  assumes "capture mok (Some bytes) i ns s = (b, s')" and "cq_next s \<notin> dom (cq_live s)" and "length bytes < 2 ^ 64"
  obtains (rejected) t a where "s' = s\<lparr>cq_too_large := t, cq_alloc_failed := a\<rparr>"
  | (full) "s' = s\<lparr>cq_next := Suc (cq_next s), cq_pending_full := cq_pending_full s + 1\<rparr>"
  | (parked) "s' = s\<lparr>cq_live := (cq_live s)(cq_next s \<mapsto> bytes), cq_next := Suc (cq_next s),
        cq_pending := cq_pending s @ [\<lparr>ce_crc = 0, ce_module_id = i, ce_load_ns = ns, ce_bytes = cq_next s, ce_len = of_nat (length bytes)\<rparr>],
        cq_pending_bytes := cq_pending_bytes s + of_nat (length bytes)\<rparr>"
      "of_nat (length bytes) \<le> max_cubin_bytes (cq_limits s)" "length (cq_pending s) < unat (max_pending_entries (cq_limits s))"
      "cq_pending_bytes s + of_nat (length bytes) \<le> max_pending_bytes (cq_limits s)"
proof -
  let ?len = "of_nat (length bytes) :: u64" and ?l = "cq_limits s"
  have f: "(cq_free (cq_next s) (s\<lparr>cq_live := (cq_live s)(cq_next s \<mapsto> bytes), cq_next := Suc (cq_next s)\<rparr>)) =
      s\<lparr>cq_next := Suc (cq_next s)\<rparr>"
    using assms(2) by (simp add: cq_free_def domIff fun_upd_idem)
  consider "bytes = []" | "bytes \<noteq> []" "max_cubin_bytes ?l < ?len" | "bytes \<noteq> []" "\<not> max_cubin_bytes ?l < ?len" "\<not> mok"
    | "bytes \<noteq> []" "\<not> max_cubin_bytes ?l < ?len" "mok"
        "unat (max_pending_entries ?l) \<le> length (cq_pending s) \<or> cq_pending_bytes s + ?len > max_pending_bytes ?l"
    | "bytes \<noteq> []" "\<not> max_cubin_bytes ?l < ?len" "mok"
        "\<not> (unat (max_pending_entries ?l) \<le> length (cq_pending s) \<or> cq_pending_bytes s + ?len > max_pending_bytes ?l)"
    by blast
  then show ?thesis
  proof cases
    case 1
    then have "s' = s\<lparr>cq_too_large := cq_too_large s, cq_alloc_failed := cq_alloc_failed s\<rparr>" using assms(1) by (auto simp: capture_def)
    then show ?thesis by (rule rejected)
  next
    case 2
    then have "s' = s\<lparr>cq_too_large := cq_too_large s + 1, cq_alloc_failed := cq_alloc_failed s\<rparr>" using assms(1) by (auto simp: capture_def)
    then show ?thesis by (rule rejected)
  next
    case 3
    then have "s' = s\<lparr>cq_too_large := cq_too_large s, cq_alloc_failed := cq_alloc_failed s + 1\<rparr>" using assms(1) by (auto simp: capture_def)
    then show ?thesis by (rule rejected)
  next
    case 4
    then have "s' = s\<lparr>cq_next := Suc (cq_next s), cq_pending_full := cq_pending_full s + 1\<rparr>"
      using assms(1) by (simp add: capture_def cq_copy_def Let_def f)
    then show ?thesis by (rule full)
  next
    case 5
    have "s' = snd (capture mok (Some bytes) i ns s)" using assms(1) by simp
    also have "\<dots> = s\<lparr>cq_live := (cq_live s)(cq_next s \<mapsto> bytes), cq_next := Suc (cq_next s),
        cq_pending := cq_pending s @ [\<lparr>ce_crc = 0, ce_module_id = i, ce_load_ns = ns, ce_bytes = cq_next s, ce_len = ?len\<rparr>],
        cq_pending_bytes := cq_pending_bytes s + ?len\<rparr>"
      using 5 by (simp add: capture_def cq_copy_def Let_def)
    finally show ?thesis using 5 by (intro parked) (simp_all add: not_less not_le)
  qed
qed

lemma heap_ok_step:
  assumes "cubin_step crc x y" and "heap_ok x"
  shows "heap_ok y"
  using assms(1)
proof cases
  case (captures bytes mok i ns b s)
  have n: "cq_next (cs_queue x) \<notin> dom (cq_live (cs_queue x))" using assms(2) by (auto simp: heap_ok_def)
  show ?thesis
    using captures(3) n captures(2)
  proof (cases rule: capture_cases)
    case parked
    let ?e = "\<lparr>ce_crc = 0, ce_module_id = i, ce_load_ns = ns, ce_bytes = cq_next (cs_queue x), ce_len = of_nat (length bytes)\<rparr>"
    from parked captures(1,2) show ?thesis
      by (intro heap_ok_alloc [OF assms(2), of y ?e bytes]) (simp_all add: held_def unsigned_of_nat take_bit_nat_eq_self)
  qed (use assms(2) captures(1) in \<open>auto simp: heap_ok_def held_def entry_ok_def less_Suc_eq\<close>)
next
  case (settle_takes e s)
  then show ?thesis
    by (intro heap_ok_moved [OF assms(2)]) (auto simp: settle_take_def held_def split: list.splits)
next
  case (settle_keys e r s)
  then have "e \<in># held x" by (simp add: held_def)
  then obtain bs where bs: "cq_live (cs_queue x) (ce_bytes e) = Some bs" using assms(2) by (auto simp: heap_ok_def entry_ok_def)
  let ?s = "cs_queue x"
  show ?thesis
  proof (cases r)
    case (Some e')
    then show ?thesis
      using settle_keys
      by (intro heap_ok_keyed [OF assms(2), of e "mset (cq_pending ?s) + mset (cq_q ?s) + one (cs_draining x)" _ "crc bs"])
        (auto simp: settle_key_live [OF bs] Let_def held_def split: if_splits)
  next
    case None
    then show ?thesis
      using settle_keys
      by (intro heap_ok_freed [OF assms(2), of e]) (auto simp: settle_key_live [OF bs] Let_def held_def split: if_splits)
  qed
next
  case (settle_pushes e pushed s)
  then have "e \<in># held x" by (simp add: held_def)
  then obtain bs where bs: "cq_live (cs_queue x) (ce_bytes e) = Some bs" using assms(2) by (auto simp: heap_ok_def entry_ok_def)
  show ?thesis
  proof (cases pushed)
    case True
    then show ?thesis
      using settle_pushes by (intro heap_ok_moved [OF assms(2)]) (auto simp: settle_push_live [OF bs] held_def split: if_splits)
  next
    case False
    then show ?thesis
      using settle_pushes by (intro heap_ok_freed [OF assms(2), of e]) (auto simp: settle_push_live [OF bs] held_def split: if_splits)
  qed
next
  case (settle_interns c)
  then show ?thesis by (intro heap_ok_moved [OF assms(2)]) (auto simp: settle_intern_def held_def)
next
  case (drain_takes e s)
  then show ?thesis
    by (intro heap_ok_moved [OF assms(2)]) (auto simp: drain_take_def held_def split: list.splits)
next
  case (drain_ends e offer)
  then have "e \<in># held x" by (simp add: held_def)
  then obtain bs where bs: "cq_live (cs_queue x) (ce_bytes e) = Some bs" using assms(2) by (auto simp: heap_ok_def entry_ok_def)
  show ?thesis
    by (rule heap_ok_freed [OF assms(2), of e]) (simp_all add: drain_ends drain_one_live [OF bs] Let_def held_def)
qed

section \<open>Bounds\<close>

definition lens :: "cubin_entry list \<Rightarrow> nat" where
  "lens es = sum_list (map (\<lambda>e. unat (ce_len e)) es)"

lemma lens_simps [simp]: "lens [] = 0" "lens (e # es) = unat (ce_len e) + lens es" "lens (es @ fs) = lens es + lens fs"
  by (simp_all add: lens_def)

definition list_bounded :: "cubin_entry list \<Rightarrow> u64 \<Rightarrow> u64 \<Rightarrow> u64 \<Rightarrow> bool" where
  "list_bounded es bytes max_n max_b \<longleftrightarrow> length es \<le> unat max_n \<and> unat bytes = lens es \<and> bytes \<le> max_b"

definition bounds_ok :: "cubin_sys \<Rightarrow> bool" where
  "bounds_ok x \<longleftrightarrow> (let s = cs_queue x; l = cq_limits s in
     list_bounded (cq_pending s) (cq_pending_bytes s) (max_pending_entries l) (max_pending_bytes l) \<and>
     list_bounded (cq_q s) (cq_queued_bytes s) (max_entries_lim l) (max_queued_bytes l) \<and>
     finite (cq_interned s) \<and> card (cq_interned s) \<le> unat (max_interned l))"

text \<open>The limits leave room for one more module, so that the byte counts cannot wrap.\<close>

definition limits_ok :: "cubin_queue_limits \<Rightarrow> bool" where
  "limits_ok l \<longleftrightarrow> unat (max_pending_bytes l) + unat (max_cubin_bytes l) < 2 ^ 64 \<and>
     unat (max_queued_bytes l) + unat (max_cubin_bytes l) < 2 ^ 64"

lemma list_bounded_take:
  assumes "list_bounded (e # es) bytes n b"
  shows "list_bounded es (bytes - ce_len e) n b"
proof -
  have "ce_len e \<le> bytes" using assms by (simp add: list_bounded_def word_le_nat_alt)
  then show ?thesis using assms unat_diff_no_wrap [of "ce_len e" bytes] by (simp add: list_bounded_def word_le_nat_alt)
qed

lemma list_bounded_put:
  assumes "list_bounded es bytes n b" and "length es < unat n" and "bytes + ce_len e \<le> b" and "ce_len e \<le> m"
    and "unat b + unat m < 2 ^ 64"
  shows "list_bounded (es @ [e]) (bytes + ce_len e) n b"
proof -
  have "unat bytes + unat (ce_len e) < 2 ^ 64" using assms(1,4,5) by (simp add: list_bounded_def word_le_nat_alt)
  then have "unat (bytes + ce_len e) = unat bytes + unat (ce_len e)" by (simp add: unat_word_ariths)
  then show ?thesis using assms by (simp add: list_bounded_def)
qed

lemma bounds_ok_start: "bounds_ok (cubin_start l)"
  by (simp add: bounds_ok_def cubin_start_def new_cubin_queue_def list_bounded_def)

lemma cq_free_limits [simp]: "cq_limits (cq_free a s) = cq_limits s"
  by (simp add: cq_free_def)

lemma op_limits:
  "capture mok (Some bytes) i ns s = (b, s') \<Longrightarrow> cq_limits s' = cq_limits s" "settle_take s = Some (e, s') \<Longrightarrow> cq_limits s' = cq_limits s"
  "cq_limits (drain_one offer e s) = cq_limits s" "drain_take s = Some (e, s') \<Longrightarrow> cq_limits s' = cq_limits s"
  "cq_limits (settle_intern c s) = cq_limits s" "settle_key crc cb e s = (r, s') \<Longrightarrow> cq_limits s' = cq_limits s"
  "settle_push e s = (b, s') \<Longrightarrow> cq_limits s' = cq_limits s"
  by (auto simp: capture_def cq_copy_def Let_def settle_take_def settle_key_def settle_push_def settle_intern_def drain_take_def
      drain_one_def cq_read_def split: option.splits list.splits if_splits)

lemma limits_constant: "cubin_step crc x y \<Longrightarrow> cq_limits (cs_queue y) = cq_limits (cs_queue x)"
  by (cases rule: cubin_step.cases) (auto simp: op_limits(3,5) dest: op_limits(1,2,4,6,7))

lemma bounds_ok_step:
  assumes "cubin_step crc x y" and "heap_ok x" and "bounds_ok x" and "limits_ok (cq_limits (cs_queue x))"
  shows "bounds_ok y"
  using assms(1)
proof cases
  case (captures bytes mok i ns b s)
  have n: "cq_next (cs_queue x) \<notin> dom (cq_live (cs_queue x))" using assms(2) by (auto simp: heap_ok_def)
  show ?thesis
    using captures(3) n captures(2)
  proof (cases rule: capture_cases)
    case parked
    let ?e = "\<lparr>ce_crc = 0, ce_module_id = i, ce_load_ns = ns, ce_bytes = cq_next (cs_queue x), ce_len = of_nat (length bytes)\<rparr>"
    from parked assms(3,4) captures(1) show ?thesis
      using list_bounded_put [of "cq_pending (cs_queue x)" "cq_pending_bytes (cs_queue x)" _ _ ?e]
      by (simp add: bounds_ok_def limits_ok_def Let_def)
  qed (use assms(3) captures(1) in \<open>auto simp: bounds_ok_def Let_def\<close>)
next
  case (settle_takes e s)
  then show ?thesis using assms(3) list_bounded_take [of e]
    by (auto simp: settle_take_def bounds_ok_def Let_def split: list.splits)
next
  case (settle_keys e r s)
  then have "entry_ok x e" using assms(2) by (simp add: held_def heap_ok_def)
  then obtain bs where bs: "cq_live (cs_queue x) (ce_bytes e) = Some bs" by (auto simp: entry_ok_def)
  then show ?thesis
    using settle_keys assms(3) by (auto simp: settle_key_live [OF bs] bounds_ok_def Let_def split: if_splits)
next
  case (settle_pushes e pushed s)
  then have "entry_ok x e" using assms(2) by (simp add: held_def heap_ok_def)
  then obtain bs where bs: "cq_live (cs_queue x) (ce_bytes e) = Some bs" "ce_len e \<le> max_cubin_bytes (cq_limits (cs_queue x))"
    by (auto simp: entry_ok_def)
  show ?thesis
    using settle_pushes assms(3,4) bs(2) list_bounded_put [of "cq_q (cs_queue x)" "cq_queued_bytes (cs_queue x)" _ _ e]
    by (auto simp: settle_push_live [OF bs(1)] bounds_ok_def limits_ok_def Let_def not_less not_le split: if_splits)
next
  case (settle_interns c)
  then show ?thesis
    using assms(3) by (auto simp: settle_intern_def bounds_ok_def Let_def card_insert_if Suc_le_eq)
next
  case (drain_takes e s)
  then show ?thesis using assms(3) list_bounded_take [of e]
    by (auto simp: drain_take_def bounds_ok_def Let_def split: list.splits)
next
  case (drain_ends e offer)
  then have "entry_ok x e" using assms(2) by (simp add: held_def heap_ok_def)
  then obtain bs where bs: "cq_live (cs_queue x) (ce_bytes e) = Some bs" by (auto simp: entry_ok_def)
  show ?thesis using assms(3) by (simp add: drain_ends drain_one_live [OF bs] bounds_ok_def Let_def)
qed

section \<open>Counters and contents\<close>

definition counts_ok :: "cubin_sys \<Rightarrow> bool" where
  "counts_ok x \<longleftrightarrow> (let s = cs_queue x in
     of_nat (cq_next s) = cq_pending_full s + cq_crc_failed s + cq_reload_skipped s + cq_queue_full s + cq_captured s +
       uncounted (cs_settling x) + of_nat (length (cq_pending s) + size (in_hand (cs_settling x))) \<and>
     cq_captured s + uncounted (cs_settling x) = cq_sent s + cq_send_failed s + of_nat (length (cq_q s) + size (one (cs_draining x))))"

lemma counts_ok_step:
  assumes "cubin_step crc x y" and "heap_ok x" and "counts_ok x"
  shows "counts_ok y"
  using assms(1)
proof cases
  case (captures bytes mok i ns b s)
  have n: "cq_next (cs_queue x) \<notin> dom (cq_live (cs_queue x))" using assms(2) by (auto simp: heap_ok_def)
  show ?thesis
    using captures(3) n captures(2)
    by (cases rule: capture_cases) (use assms(3) captures(1) in \<open>simp_all add: counts_ok_def Let_def\<close>)
next
  case (settle_takes e s)
  then show ?thesis using assms(3) by (auto simp: settle_take_def counts_ok_def Let_def split: list.splits)
next
  case (settle_keys e r s)
  then have "entry_ok x e" using assms(2) by (simp add: held_def heap_ok_def)
  then obtain bs where bs: "cq_live (cs_queue x) (ce_bytes e) = Some bs" by (auto simp: entry_ok_def)
  show ?thesis
    using assms(3) settle_keys by (auto simp: settle_key_live [OF bs] counts_ok_def Let_def split: if_splits)
next
  case (settle_pushes e pushed s)
  then have "entry_ok x e" using assms(2) by (simp add: held_def heap_ok_def)
  then obtain bs where bs: "cq_live (cs_queue x) (ce_bytes e) = Some bs" by (auto simp: entry_ok_def)
  show ?thesis
    using assms(3) settle_pushes by (auto simp: settle_push_live [OF bs] counts_ok_def Let_def split: if_splits)
next
  case (settle_interns c)
  then show ?thesis using assms(3) by (auto simp: settle_intern_def counts_ok_def Let_def)
next
  case (drain_takes e s)
  then show ?thesis using assms(3) by (auto simp: drain_take_def counts_ok_def Let_def split: list.splits)
next
  case (drain_ends e offer)
  then have "entry_ok x e" using assms(2) by (simp add: held_def heap_ok_def)
  then obtain bs where bs: "cq_live (cs_queue x) (ce_bytes e) = Some bs" by (auto simp: entry_ok_def)
  show ?thesis using assms(3) drain_ends(2) by (simp add: drain_ends(1) drain_one_live [OF bs] counts_ok_def Let_def)
qed

text \<open>A module that may be offered: captured as it is, under its CRC, after its record was fired.\<close>

definition announced :: "(u8 list \<Rightarrow> u64) \<Rightarrow> cubin_sys \<Rightarrow> u8 list \<times> u64 \<Rightarrow> bool" where
  "announced crc x = (\<lambda>(bs, c). c \<noteq> 0 \<and> c = crc bs \<and> bs \<in> set (cs_views x) \<and>
     (c, bs) \<in> (\<lambda>(m, ns, r). r) ` set (cq_records (cs_queue x)))"

definition content_ok :: "(u8 list \<Rightarrow> u64) \<Rightarrow> cubin_sys \<Rightarrow> bool" where
  "content_ok crc x \<longleftrightarrow> (\<forall>o' \<in> set (cq_offers (cs_queue x)). announced crc x o') \<and>
     (\<forall>e \<in># mset (cq_q (cs_queue x)) + one (cs_draining x) + keyed (cs_settling x). \<forall>bs. cq_live (cs_queue x) (ce_bytes e) = Some bs \<longrightarrow>
        announced crc x (bs, ce_crc e))"

lemma announced_mono:
  assumes "announced crc x r" and "set (cs_views x) \<subseteq> set (cs_views y)"
    and "set (cq_records (cs_queue x)) \<subseteq> set (cq_records (cs_queue y))"
  shows "announced crc y r"
  using assms(1,2) image_mono [OF assms(3), of "\<lambda>(m, ns, r). r"] unfolding announced_def case_prod_unfold by blast

lemma content_ok_mono:
  assumes "content_ok crc x" and "set (cs_views x) \<subseteq> set (cs_views y)"
    and "set (cq_records (cs_queue x)) \<subseteq> set (cq_records (cs_queue y))"
    and "\<And>r. r \<in> set (cq_offers (cs_queue y)) \<Longrightarrow> r \<in> set (cq_offers (cs_queue x)) \<or> announced crc y r"
    and "\<And>e bs. e \<in># mset (cq_q (cs_queue y)) + one (cs_draining y) + keyed (cs_settling y) \<Longrightarrow> cq_live (cs_queue y) (ce_bytes e) = Some bs \<Longrightarrow>
      (e \<in># mset (cq_q (cs_queue x)) + one (cs_draining x) + keyed (cs_settling x) \<and> cq_live (cs_queue x) (ce_bytes e) = Some bs) \<or> announced crc y (bs, ce_crc e)"
  shows "content_ok crc y"
  unfolding content_ok_def using assms(1,4,5) announced_mono [OF _ assms(2,3)] by (metis (no_types, lifting) content_ok_def)

lemma keyed_held: "e \<in># keyed (cs_settling x) \<Longrightarrow> e \<in># held x"
  by (cases "cs_settling x") (simp_all add: held_def)

lemma content_ok_step:
  assumes "cubin_step crc x y" and "heap_ok x" and "content_ok crc x"
  shows "content_ok crc y"
  using assms(1)
proof cases
  case (captures bytes mok i ns b s)
  have n: "cq_next (cs_queue x) \<notin> dom (cq_live (cs_queue x))" using assms(2) by (auto simp: heap_ok_def)
  have l: "ce_bytes e \<noteq> cq_next (cs_queue x)" if "e \<in># mset (cq_q (cs_queue x)) + one (cs_draining x) + keyed (cs_settling x)" for e
    using that keyed_held [of e x] n owns_live [of "cq_live (cs_queue x)" "held x" e] assms(2) by (auto simp: heap_ok_def held_def)
  show ?thesis
    using captures(3) n captures(2)
    by (cases rule: capture_cases; intro content_ok_mono [OF assms(3)]) (use captures(1) l in \<open>auto split: if_splits\<close>)
next
  case (settle_takes e s)
  then show ?thesis by (intro content_ok_mono [OF assms(3)]) (auto simp: settle_take_def split: list.splits)
next
  case (settle_keys e r s)
  then have "entry_ok x e" using assms(2) by (simp add: held_def heap_ok_def)
  then obtain bs where bs: "cq_live (cs_queue x) (ce_bytes e) = Some bs" "bs \<in> set (cs_views x)" by (auto simp: entry_ok_def)
  then show ?thesis
    using settle_keys by (intro content_ok_mono [OF assms(3)])
      (auto simp: settle_key_live [OF bs(1)] Let_def announced_def image_iff split: if_splits)
next
  case (settle_pushes e pushed s)
  then have "entry_ok x e" using assms(2) by (simp add: held_def heap_ok_def)
  then obtain bs where bs: "cq_live (cs_queue x) (ce_bytes e) = Some bs" by (auto simp: entry_ok_def)
  then show ?thesis
    using settle_pushes by (intro content_ok_mono [OF assms(3)]) (auto simp: settle_push_live [OF bs] split: if_splits)
next
  case (settle_interns c)
  then show ?thesis by (intro content_ok_mono [OF assms(3)]) (auto simp: settle_intern_def)
next
  case (drain_takes e s)
  then show ?thesis by (intro content_ok_mono [OF assms(3)]) (auto simp: drain_take_def split: list.splits)
next
  case (drain_ends e offer)
  then have "entry_ok x e" using assms(2) by (simp add: held_def heap_ok_def)
  then obtain bs where bs: "cq_live (cs_queue x) (ce_bytes e) = Some bs" by (auto simp: entry_ok_def)
  then have "announced crc x (bs, ce_crc e)" using assms(3) drain_ends by (simp add: content_ok_def)
  then have "announced crc y (bs, ce_crc e)"
    by (rule announced_mono) (simp_all add: drain_ends drain_one_live [OF bs] Let_def)
  then show ?thesis
    by (intro content_ok_mono [OF assms(3)]) (auto simp: drain_ends drain_one_live [OF bs] Let_def split: if_splits)
qed

section \<open>Reachable states\<close>

definition cubin_ok :: "(u8 list \<Rightarrow> u64) \<Rightarrow> cubin_queue_limits \<Rightarrow> cubin_sys \<Rightarrow> bool" where
  "cubin_ok crc l x \<longleftrightarrow> heap_ok x \<and> bounds_ok x \<and> counts_ok x \<and> content_ok crc x \<and> cq_limits (cs_queue x) = l"

lemma cubin_ok_reachable:
  assumes "(cubin_step crc)\<^sup>*\<^sup>* (cubin_start l) x" and "limits_ok l"
  shows "cubin_ok crc l x"
  using assms(1)
proof induction
  case base
  show ?case
    using heap_ok_start bounds_ok_start
    by (simp add: cubin_ok_def counts_ok_def content_ok_def cubin_start_def new_cubin_queue_def)
next
  case (step x y)
  then show ?case
    using heap_ok_step bounds_ok_step counts_ok_step content_ok_step limits_constant assms(2) by (simp add: cubin_ok_def)
qed

section \<open>The loops as steps, and the destructor\<close>

lemma settle_one_pending [simp]: "cq_pending (settle_one crc cb e s) = cq_pending s"
  by (simp add: settle_one_def settle_key_def settle_push_def settle_intern_def cq_read_def cq_free_def Let_def split: option.split)

lemma drain_one_q [simp]: "cq_q (drain_one offer e s) = cq_q s"
  by (simp add: drain_one_def cq_read_def cq_free_def Let_def split: option.split)

lemma settle_one_steps:
  assumes "cs_settling x = S_taken e"
  shows "(cubin_step crc)\<^sup>*\<^sup>* x (x\<lparr>cs_queue := settle_one crc True e (cs_queue x), cs_settling := S_idle\<rparr>)"
proof -
  obtain r s where k: "settle_key crc True e (cs_queue x) = (r, s)" by fastforce
  note 1 = settle_keys [OF assms k]
  show ?thesis
  proof (cases r)
    case None
    with 1 k show ?thesis by (simp add: settle_one_def r_into_rtranclp)
  next
    case (Some e')
    let ?y = "x\<lparr>cs_queue := s, cs_settling := S_keyed e'\<rparr>"
    obtain b t where p: "settle_push e' s = (b, t)" by fastforce
    then have 2: "cubin_step crc ?y (x\<lparr>cs_queue := t, cs_settling := (if b then S_pushed (ce_crc e') else S_idle)\<rparr>)"
      using settle_pushes [of ?y e' b t crc] by simp
    have 3: "cubin_step crc (x\<lparr>cs_queue := t, cs_settling := S_pushed (ce_crc e')\<rparr>)
        (x\<lparr>cs_queue := settle_intern (ce_crc e') t, cs_settling := S_idle\<rparr>)"
      using settle_interns [of "x\<lparr>cs_queue := t, cs_settling := S_pushed (ce_crc e')\<rparr>" "ce_crc e'" crc] by simp
    have 0: "cubin_step crc x ?y" using 1 Some by simp
    show ?thesis
    proof (cases b)
      case True
      have "(cubin_step crc)\<^sup>*\<^sup>* x ?y" using 0 by (rule r_into_rtranclp)
      also have "cubin_step crc ?y (x\<lparr>cs_queue := t, cs_settling := S_pushed (ce_crc e')\<rparr>)" using 2 True by simp
      also note 3
      finally have "(cubin_step crc)\<^sup>*\<^sup>* x (x\<lparr>cs_queue := settle_intern (ce_crc e') t, cs_settling := S_idle\<rparr>)" .
      then show ?thesis using True by (simp add: settle_one_def k p Some)
    next
      case False
      have "(cubin_step crc)\<^sup>*\<^sup>* x (x\<lparr>cs_queue := t, cs_settling := S_idle\<rparr>)"
        using 0 2 False by (simp add: converse_rtranclp_into_rtranclp r_into_rtranclp)
      then show ?thesis using False by (simp add: settle_one_def k p Some)
    qed
  qed
qed

lemma settle_loop_steps:
  assumes "cs_settling x = S_idle"
  shows "(cubin_step crc)\<^sup>*\<^sup>* x (x\<lparr>cs_queue := snd (settle_loop crc True n d (cs_queue x))\<rparr>)"
  using assms
proof (induction n arbitrary: d x)
  case (Suc n)
  show ?case
  proof (cases "settle_take (cs_queue x)")
    case (Some es)
    obtain e s where es: "es = (e, s)" by (cases es)
    let ?y = "x\<lparr>cs_queue := s, cs_settling := S_taken e\<rparr>" and ?z = "x\<lparr>cs_queue := settle_one crc True e s, cs_settling := S_idle\<rparr>"
    have "cubin_step crc x ?y" using settle_takes [OF Suc.prems] Some es by simp
    moreover have "(cubin_step crc)\<^sup>*\<^sup>* ?y ?z" using settle_one_steps [of ?y e crc] by simp
    moreover have "(cubin_step crc)\<^sup>*\<^sup>* ?z (x\<lparr>cs_queue := snd (settle_loop crc True (Suc n) d (cs_queue x))\<rparr>)"
      using Suc.IH [of ?z "Suc d"] Suc.prems Some es by (cases x) simp
    ultimately show ?thesis by (meson converse_rtranclp_into_rtranclp rtranclp_trans)
  qed simp
qed simp

lemma drain_loop_steps:
  assumes "cs_draining x = None"
  shows "(cubin_step crc)\<^sup>*\<^sup>* x (x\<lparr>cs_queue := snd (drain_loop offer n d (cs_queue x))\<rparr>)"
  using assms
proof (induction n arbitrary: d x)
  case (Suc n)
  show ?case
  proof (cases "drain_take (cs_queue x)")
    case (Some es)
    obtain e s where es: "es = (e, s)" by (cases es)
    let ?y = "x\<lparr>cs_queue := s, cs_draining := Some e\<rparr>" and ?z = "x\<lparr>cs_queue := drain_one offer e s, cs_draining := None\<rparr>"
    have "cubin_step crc x ?y" using drain_takes [OF Suc.prems] Some es by simp
    moreover have "cubin_step crc ?y ?z" using drain_ends [of ?y e crc offer] by simp
    moreover have "(cubin_step crc)\<^sup>*\<^sup>* ?z (x\<lparr>cs_queue := snd (drain_loop offer (Suc n) d (cs_queue x))\<rparr>)"
      using Suc.IH [of ?z "Suc d"] Suc.prems Some es by (cases x) simp
    ultimately show ?thesis by (meson converse_rtranclp_into_rtranclp)
  qed simp
qed simp

text \<open>Alone, each half works off everything that was there on entry.\<close>

lemma settle_takes_all: "settle_loop crc cb (length (cq_pending s)) d s = (d', s') \<Longrightarrow> cq_pending s' = [] \<and> d' = d + length (cq_pending s)"
proof (induction "length (cq_pending s)" arbitrary: d s)
  case (Suc n)
  from Suc.hyps(2) obtain e es where p: "cq_pending s = e # es" by (cases "cq_pending s") simp_all
  with Suc.hyps(2) have n: "n = length es" by simp
  let ?s = "settle_one crc cb e (s\<lparr>cq_pending := es, cq_pending_bytes := cq_pending_bytes s - ce_len e\<rparr>)"
  have "settle_loop crc cb (length (cq_pending ?s)) (Suc d) ?s = (d', s')"
    using Suc.prems by (simp add: p settle_take_def)
  from Suc.hyps(1) [OF _ this] show ?case by (simp add: n p)
qed simp

lemma drain_takes_all: "drain_loop offer (length (cq_q s)) d s = (d', s') \<Longrightarrow> cq_q s' = [] \<and> d' = d + length (cq_q s)"
proof (induction "length (cq_q s)" arbitrary: d s)
  case (Suc n)
  from Suc.hyps(2) obtain e es where p: "cq_q s = e # es" by (cases "cq_q s") simp_all
  with Suc.hyps(2) have n: "n = length es" by simp
  let ?s = "drain_one offer e (s\<lparr>cq_q := es, cq_queued_bytes := cq_queued_bytes s - ce_len e\<rparr>)"
  have "drain_loop offer (length (cq_q ?s)) (Suc d) ?s = (d', s')"
    using Suc.prems by (simp add: p drain_take_def)
  from Suc.hyps(1) [OF _ this] show ?case by (simp add: n p)
qed simp

lemma free_all:
  assumes "owns (cq_live s) (mset es + M)" and "\<not> cq_fault s"
  shows "\<not> cq_fault (fold (\<lambda>e. cq_free (ce_bytes e)) es s) \<and> owns (cq_live (fold (\<lambda>e. cq_free (ce_bytes e)) es s)) M \<and>
    cq_q (fold (\<lambda>e. cq_free (ce_bytes e)) es s) = cq_q s"
  using assms
proof (induction es arbitrary: s)
  case (Cons e es)
  have o: "owns (cq_live s) (add_mset e (mset es + M))" using Cons.prems(1) by simp
  then have "ce_bytes e \<in> dom (cq_live s)" by (rule owns_live) simp
  then have "cq_live (cq_free (ce_bytes e) s) = (cq_live s)(ce_bytes e := None)" "\<not> cq_fault (cq_free (ce_bytes e) s)"
    "cq_q (cq_free (ce_bytes e) s) = cq_q s"
    using Cons.prems(2) by (simp_all add: cq_free_def)
  moreover from this(1) have "owns (cq_live (cq_free (ce_bytes e) s)) (mset es + M)" using owns_free(1) [OF o] by (simp only:)
  ultimately show ?case using Cons.IH [of "cq_free (ce_bytes e) s"] by (simp only: fold_simps comp_apply simp_thms)
qed simp

lemma destroy_frees_all:
  assumes "heap_ok x" and "cs_settling x = S_idle" and "cs_draining x = None"
  shows "\<not> cq_fault (destroy (cs_queue x)) \<and> dom (cq_live (destroy (cs_queue x))) = {}"
proof -
  let ?s = "cs_queue x" and ?f = "fold (\<lambda>e. cq_free (ce_bytes e))"
  define s1 where "s1 = (?f (cq_pending ?s) ?s)\<lparr>cq_pending := [], cq_pending_bytes := 0\<rparr>"
  have "owns (cq_live ?s) (mset (cq_pending ?s) + mset (cq_q ?s))" "\<not> cq_fault ?s" using assms by (simp_all add: heap_ok_def held_def)
  from free_all [OF this] have s1: "\<not> cq_fault s1" "owns (cq_live s1) (mset (cq_q s1) + {#})" by (simp_all add: s1_def)
  from free_all [OF s1(2,1)] have "\<not> cq_fault (?f (cq_q s1) s1)" "owns (cq_live (?f (cq_q s1) s1)) {#}" by simp_all
  moreover have "destroy ?s = (?f (cq_q s1) s1)\<lparr>cq_q := [], cq_queued_bytes := 0\<rparr>" by (simp add: destroy_def s1_def Let_def)
  ultimately show ?thesis by (auto simp: owns_def mset_set_empty_iff)
qed

section \<open>Properties of the queue\<close>

text \<open>
  C36: no interleaving of captures, settling and draining misuses a buffer or outgrows a bound. No
  buffer is freed twice or read after it was freed, every live buffer belongs to exactly one entry
  (of a list or in a loop's hand), so nothing leaks; both lists keep their limits on entries and
  bytes, the byte counts are exact and never wrap, and the set of remembered CRCs keeps its limit.
\<close>

theorem cubin_queue_safe:
  assumes "limits_ok l" and "(cubin_step crc)\<^sup>*\<^sup>* (cubin_start l) x" and "s = cs_queue x"
  shows "\<not> cq_fault s \<and> image_mset ce_bytes (held x) = mset_set (dom (cq_live s)) \<and>
    length (cq_pending s) \<le> unat (max_pending_entries l) \<and> unat (cq_pending_bytes s) = lens (cq_pending s) \<and>
    cq_pending_bytes s \<le> max_pending_bytes l \<and>
    length (cq_q s) \<le> unat (max_entries_lim l) \<and> unat (cq_queued_bytes s) = lens (cq_q s) \<and> cq_queued_bytes s \<le> max_queued_bytes l \<and>
    card (cq_interned s) \<le> unat (max_interned l)"
  using cubin_ok_reachable [OF assms(2,1)]
  by (auto simp: cubin_ok_def heap_ok_def owns_def bounds_ok_def list_bounded_def Let_def assms(3))

text \<open>
  No module disappears uncounted. In every reachable state the copies made are those dropped
  for a full pending list, a failed CRC, a reload or a full queue, those captured and those still
  pending; and those captured are those sent, failed and still queued. A module that was pushed and not yet counted
  as captured stands beside the counter.
\<close>

theorem cubin_copies_accounted:
  assumes "limits_ok l" and "(cubin_step crc)\<^sup>*\<^sup>* (cubin_start l) x" and "s = cs_queue x"
  shows "of_nat (cq_next s) = cq_pending_full s + cq_crc_failed s + cq_reload_skipped s + cq_queue_full s + cq_captured s +
      uncounted (cs_settling x) + of_nat (length (cq_pending s) + size (in_hand (cs_settling x))) \<and>
    cq_captured s + uncounted (cs_settling x) = cq_sent s + cq_send_failed s + of_nat (length (cq_q s) + size (one (cs_draining x)))"
  using cubin_ok_reachable [OF assms(2,1)] by (simp add: cubin_ok_def counts_ok_def Let_def assms(3))

text \<open>
  The consumer is only ever offered what it can join. Every offer carries the bytes of a module
  exactly as the callback saw them, with the non-zero CRC of those bytes, and only after the module
  record with the same CRC and the same bytes was fired.
\<close>

theorem cubin_offers_announced:
  assumes "limits_ok l" and "(cubin_step crc)\<^sup>*\<^sup>* (cubin_start l) x" and "(bytes, c) \<in> set (cq_offers (cs_queue x))"
  shows "c \<noteq> 0 \<and> c = crc bytes \<and> bytes \<in> set (cs_views x) \<and> (\<exists>m ns. (m, ns, c, bytes) \<in> set (cq_records (cs_queue x)))"
  using cubin_ok_reachable [OF assms(2,1)] assms(3) by (force simp: cubin_ok_def content_ok_def announced_def)

section \<open>A concrete run\<close>

text \<open>One module of three bytes is captured, settled and offered; a second capture of it is parked.\<close>

definition demo_crc :: "u8 list \<Rightarrow> u64" where
  "demo_crc bs = of_nat (length bs)"

definition demo_park :: "cubin_sys \<Rightarrow> cubin_sys" where
  "demo_park x = x\<lparr>cs_queue := snd (capture True (Some [1, 2, 3]) 7 9 (cs_queue x)), cs_views := cs_views x @ [[1, 2, 3]]\<rparr>"

definition demo_settle :: "cubin_sys \<Rightarrow> cubin_sys" where
  "demo_settle x = x\<lparr>cs_queue := snd (the (settle_take (cs_queue x))), cs_settling := S_taken (fst (the (settle_take (cs_queue x))))\<rparr>"

definition demo_settled :: "cubin_sys \<Rightarrow> cubin_sys" where
  "demo_settled x = (case cs_settling x of S_taken e \<Rightarrow>
     x\<lparr>cs_queue := settle_one demo_crc True e (cs_queue x), cs_settling := S_idle\<rparr> | _ \<Rightarrow> x)"

definition demo_drain :: "cubin_sys \<Rightarrow> cubin_sys" where
  "demo_drain x = x\<lparr>cs_queue := snd (the (drain_take (cs_queue x))), cs_draining := Some (fst (the (drain_take (cs_queue x))))\<rparr>"

definition demo_drained :: "cubin_sys \<Rightarrow> cubin_sys" where
  "demo_drained x = x\<lparr>cs_queue := drain_one (\<lambda>bs c. kCubinOfferAccepted) (the (cs_draining x)) (cs_queue x), cs_draining := None\<rparr>"

lemma demo_steps:
  "cubin_step demo_crc x (demo_park x)"
  "cs_settling x = S_idle \<Longrightarrow> settle_take (cs_queue x) \<noteq> None \<Longrightarrow> cubin_step demo_crc x (demo_settle x)"
  "cs_draining x = None \<Longrightarrow> drain_take (cs_queue x) \<noteq> None \<Longrightarrow> cubin_step demo_crc x (demo_drain x)"
  "cs_draining x \<noteq> None \<Longrightarrow> cubin_step demo_crc x (demo_drained x)"
proof -
  have "capture True (Some [1, 2, 3]) 7 9 (cs_queue x) = (b, s) \<Longrightarrow>
      cubin_step demo_crc x (x\<lparr>cs_queue := s, cs_views := cs_views x @ [[1, 2, 3]]\<rparr>)" for b s
    by (rule captures) simp_all
  then show "cubin_step demo_crc x (demo_park x)" unfolding demo_park_def by (metis prod.collapse)
qed (auto simp: demo_settle_def demo_drain_def demo_drained_def intro: settle_takes drain_takes drain_ends)

lemma demo_settled_steps: "(cubin_step demo_crc)\<^sup>*\<^sup>* x (demo_settled x)"
  using settle_one_steps [of x _ demo_crc] by (simp add: demo_settled_def split: settling.split)

lemmas demo_eval = demo_park_def demo_settle_def demo_settled_def demo_drain_def demo_drained_def cubin_start_def new_cubin_queue_def
  default_limits_def capture_def cq_copy_def cq_free_def cq_read_def settle_take_def settle_one_def settle_key_def settle_push_def settle_intern_def drain_take_def drain_one_def
  demo_crc_def Let_def

definition demo_x :: cubin_sys where
  "demo_x = demo_park (demo_drained (demo_drain (demo_settled (demo_settle (demo_park (cubin_start default_limits))))))"

lemma demo_x_reachable: "(cubin_step demo_crc)\<^sup>*\<^sup>* (cubin_start default_limits) demo_x"
proof -
  define x1 where "x1 = demo_park (cubin_start default_limits)"
  define x3 where "x3 = demo_settled (demo_settle x1)"
  have "cs_settling x1 = S_idle" "settle_take (cs_queue x1) \<noteq> None" by (simp_all add: x1_def demo_eval)
  then have "cubin_step demo_crc x1 (demo_settle x1)" by (rule demo_steps)
  moreover have "(cubin_step demo_crc)\<^sup>*\<^sup>* (demo_settle x1) x3" unfolding x3_def by (rule demo_settled_steps)
  moreover have "cs_draining x3 = None" "drain_take (cs_queue x3) \<noteq> None" by (simp_all add: x3_def x1_def demo_eval)
  then have "cubin_step demo_crc x3 (demo_drain x3)" by (rule demo_steps)
  moreover have "cubin_step demo_crc (demo_drain x3) (demo_drained (demo_drain x3))" by (rule demo_steps) (simp add: demo_drain_def)
  moreover have "cubin_step demo_crc (demo_drained (demo_drain x3)) demo_x"
    unfolding demo_x_def x3_def x1_def by (rule demo_steps)
  moreover have "cubin_step demo_crc (cubin_start default_limits) x1" unfolding x1_def by (rule demo_steps)
  ultimately show ?thesis by (meson converse_rtranclp_into_rtranclp rtranclp.rtrancl_refl rtranclp_trans)
qed

lemma default_limits_ok: "limits_ok default_limits"
  by (simp add: limits_ok_def default_limits_def)

theorem cubin_queue_safe_witness:
  "case cs_queue demo_x of s \<Rightarrow> \<not> cq_fault s \<and> image_mset ce_bytes (held demo_x) = mset_set (dom (cq_live s)) \<and>
    length (cq_pending s) \<le> 512 \<and> unat (cq_pending_bytes s) = lens (cq_pending s) \<and> cq_queued_bytes s \<le> 67108864"
  using cubin_queue_safe [OF default_limits_ok demo_x_reachable refl] by (simp add: default_limits_def)

end
