(* ===== verification/Shim_Burst.thy ===== *)
theory Shim_Burst
  imports Complex_Main Prelude
begin

text \<open>
  The duty-cycle controller of the serialized PC-sampling tier, \<open>src/shim/core/burst.h\<close>: the
  smallest gap the duty ceiling permits, the damped update of the gap, and the state machine that
  opens and closes bursts.

  A \<open>double\<close> is a not-a-number, an infinity or a finite real; the rounding of finite results is a
  parameter \<open>rnd\<close> (the rounding mode belongs to the environment), of which the lemmas use that it is
  monotone and, where they compute, that it is exact on small integers. The sign of a zero is kept
  only where it can be observed, in a divisor.

  The lemmas show that the gap always lies between the floor of the nominal burst and the
  configured maximum, for every configuration and input, not-a-number included; that consecutive
  bursts are at least the floor of the burst that ran apart, in any history of calls; that a
  refused controller opens nothing more; and that the floor is cut at the maximum gap, where the
  duty ceiling does not hold.
\<close>

section \<open>Doubles\<close>

datatype dbl = Nan | Pinf | Ninf | Nzero | Fin real

definition dbl_max :: real where
  "dbl_max = (2 - 1 / 2 ^ 52) * 2 ^ 1023"

definition fin :: "(real \<Rightarrow> real) \<Rightarrow> real \<Rightarrow> dbl" where
  "fin rnd x = (let y = rnd x in if y > dbl_max then Pinf else if y < - dbl_max then Ninf else Fin y)"

fun val :: "dbl \<Rightarrow> real" where
  "val (Fin x) = x"
| "val _ = 0"

definition is_fin :: "dbl \<Rightarrow> bool" where
  "is_fin a \<longleftrightarrow> a \<notin> {Nan, Pinf, Ninf}"

definition d_neg :: "dbl \<Rightarrow> bool" where
  "d_neg a \<longleftrightarrow> a = Ninf \<or> a = Nzero \<or> (a \<noteq> Pinf \<and> val a < 0)"

definition inf_of :: "bool \<Rightarrow> dbl" where
  "inf_of neg = (if neg then Ninf else Pinf)"

definition d_add :: "(real \<Rightarrow> real) \<Rightarrow> dbl \<Rightarrow> dbl \<Rightarrow> dbl" where
  "d_add rnd a b =
     (if a = Nan \<or> b = Nan \<or> (a = Pinf \<and> b = Ninf) \<or> (a = Ninf \<and> b = Pinf) then Nan
      else if \<not> is_fin a then a else if \<not> is_fin b then b
      else fin rnd (val a + val b))"

definition d_minus :: "dbl \<Rightarrow> dbl" where
  "d_minus a = (case a of Nan \<Rightarrow> Nan | Pinf \<Rightarrow> Ninf | Ninf \<Rightarrow> Pinf | Nzero \<Rightarrow> Fin 0 | Fin x \<Rightarrow> if x = 0 then Nzero else Fin (- x))"

definition d_sub :: "(real \<Rightarrow> real) \<Rightarrow> dbl \<Rightarrow> dbl \<Rightarrow> dbl" where
  "d_sub rnd a b = d_add rnd a (d_minus b)"

definition d_mul :: "(real \<Rightarrow> real) \<Rightarrow> dbl \<Rightarrow> dbl \<Rightarrow> dbl" where
  "d_mul rnd a b =
     (if a = Nan \<or> b = Nan then Nan
      else if is_fin a \<and> is_fin b then fin rnd (val a * val b)
      else if (is_fin a \<and> val a = 0) \<or> (is_fin b \<and> val b = 0) then Nan
      else inf_of (d_neg a \<noteq> d_neg b))"

definition d_div :: "(real \<Rightarrow> real) \<Rightarrow> dbl \<Rightarrow> dbl \<Rightarrow> dbl" where
  "d_div rnd a b =
     (if a = Nan \<or> b = Nan \<or> (\<not> is_fin a \<and> \<not> is_fin b) then Nan
      else if \<not> is_fin b then Fin 0
      else if val b = 0 then (if is_fin a \<and> val a = 0 then Nan else inf_of (d_neg a \<noteq> d_neg b))
      else if \<not> is_fin a then inf_of (d_neg a \<noteq> d_neg b)
      else fin rnd (val a / val b))"

definition d_gt :: "dbl \<Rightarrow> dbl \<Rightarrow> bool" where
  "d_gt a b \<longleftrightarrow> a \<noteq> Nan \<and> b \<noteq> Nan \<and>
     (if a = Pinf then b \<noteq> Pinf else if a = Ninf then False else if b = Pinf then False else if b = Ninf then True else val a > val b)"

definition d_ge :: "dbl \<Rightarrow> dbl \<Rightarrow> bool" where
  "d_ge a b \<longleftrightarrow> a \<noteq> Nan \<and> b \<noteq> Nan \<and> \<not> d_gt b a"

definition of_u64 :: "(real \<Rightarrow> real) \<Rightarrow> u64 \<Rightarrow> dbl" where
  "of_u64 rnd n = Fin (rnd (real (unat n)))"

text \<open>The conversion cuts towards zero; the code makes it only on values between two converted words.\<close>

definition to_u64 :: "dbl \<Rightarrow> u64" where
  "to_u64 a = of_nat (nat \<lfloor>val a\<rfloor>)"

section \<open>The gap\<close>

record burst_config =
  bc_burst_ns :: u64
  bc_target_rate :: dbl
  bc_max_duty :: dbl
  bc_max_gap_ns :: u64
  bc_gain :: dbl

definition burst_min_gap_for_ns :: "(real \<Rightarrow> real) \<Rightarrow> burst_config \<Rightarrow> u64 \<Rightarrow> u64" where
  "burst_min_gap_for_ns rnd cfg dur_ns =
     (let duty = bc_max_duty cfg;
          duty = (if \<not> d_gt duty (Fin 0) then Fin (rnd 0.001) else duty);
          duty = (if d_gt duty (Fin 1) then Fin 1 else duty);
          g = d_mul rnd (of_u64 rnd dur_ns) (d_sub rnd (d_div rnd (Fin 1) duty) (Fin 1))
      in if \<not> d_gt g (Fin 0) then 0
         else if d_ge g (of_u64 rnd (bc_max_gap_ns cfg)) then bc_max_gap_ns cfg
         else to_u64 g)"

definition burst_min_gap_ns :: "(real \<Rightarrow> real) \<Rightarrow> burst_config \<Rightarrow> u64" where
  "burst_min_gap_ns rnd cfg = burst_min_gap_for_ns rnd cfg (bc_burst_ns cfg)"

definition burst_next_gap_ns :: "(real \<Rightarrow> real) \<Rightarrow> burst_config \<Rightarrow> u64 \<Rightarrow> u64 \<Rightarrow> u64 \<Rightarrow> u64" where
  "burst_next_gap_ns rnd cfg prev_gap_ns pairs elapsed_ns =
     (let lo = burst_min_gap_ns rnd cfg;
          hi = (if bc_max_gap_ns cfg > lo then bc_max_gap_ns cfg else lo);
          gap =
            (if elapsed_ns = 0 then of_u64 rnd prev_gap_ns
             else
               let observed_rate = d_div rnd (d_mul rnd (of_u64 rnd pairs) (Fin 1000000000)) (of_u64 rnd elapsed_ns);
                   ratio = d_div rnd observed_rate (bc_target_rate cfg);
                   cycle = d_mul rnd (of_u64 rnd elapsed_ns) ratio;
                   raw_gap = d_sub rnd cycle (of_u64 rnd (bc_burst_ns cfg));
                   raw_gap = (if \<not> d_gt raw_gap (Fin 0) then Fin 0 else raw_gap);
                   gain = bc_gain cfg;
                   gain = (if \<not> d_gt gain (Fin 0) then Fin 0 else gain);
                   gain = (if d_gt gain (Fin 1) then Fin 1 else gain)
               in d_add rnd (of_u64 rnd prev_gap_ns) (d_mul rnd gain (d_sub rnd raw_gap (of_u64 rnd prev_gap_ns))))
      in if \<not> d_gt gap (of_u64 rnd lo) then lo
         else if d_ge gap (of_u64 rnd hi) then hi
         else to_u64 gap)"

section \<open>The controller\<close>

datatype BurstAction = kNone | kStart | kStop
datatype BurstStopReason = kDutyCycle | kGraph | kShutdown

record burst_controller =
  bu_cfg :: burst_config
  bu_sampling :: bool
  bu_started :: bool
  bu_refused :: bool
  bu_have_open_yield :: bool
  bu_burst_start_ns :: u64
  bu_last_burst_end_ns :: u64
  bu_last_burst_dur :: u64
  bu_first_start_ns :: u64
  bu_next_start_ns :: u64
  bu_pairs_at_last_close :: u64
  bu_gap_ns :: u64
  bu_bursts :: u64
  bu_burst_ns :: u64
  bu_pairs :: u64
  bu_graph_refusals :: u64
  bu_last_stop :: BurstStopReason

definition new_burst_controller :: "(real \<Rightarrow> real) \<Rightarrow> burst_config \<Rightarrow> burst_controller" where
  "new_burst_controller rnd cfg = \<lparr>bu_cfg = cfg, bu_sampling = False, bu_started = False, bu_refused = False, bu_have_open_yield = False,
     bu_burst_start_ns = 0, bu_last_burst_end_ns = 0, bu_last_burst_dur = 0, bu_first_start_ns = 0, bu_next_start_ns = 0,
     bu_pairs_at_last_close = 0, bu_gap_ns = burst_min_gap_ns rnd cfg, bu_bursts = 0, bu_burst_ns = 0, bu_pairs = 0,
     bu_graph_refusals = 0, bu_last_stop = kDutyCycle\<rparr>"

definition gap_for_duration_locked :: "(real \<Rightarrow> real) \<Rightarrow> u64 \<Rightarrow> burst_controller \<Rightarrow> u64" where
  "gap_for_duration_locked rnd dur_ns s =
     (let floor_ns = burst_min_gap_for_ns rnd (bu_cfg s) dur_ns in if bu_gap_ns s > floor_ns then bu_gap_ns s else floor_ns)"

definition note_graphs_locked :: "bool \<Rightarrow> burst_controller \<Rightarrow> burst_controller" where
  "note_graphs_locked graphs_observed s =
     (if graphs_observed \<and> \<not> bu_refused s then s\<lparr>bu_refused := True, bu_graph_refusals := bu_graph_refusals s + 1\<rparr> else s)"

definition open_locked :: "u64 \<Rightarrow> burst_controller \<Rightarrow> BurstAction \<times> burst_controller" where
  "open_locked now s =
     (if bu_refused s then (kNone, s)
      else if bu_started s \<and> now < bu_next_start_ns s then (kNone, s)
      else
        let s = s\<lparr>bu_sampling := True\<rparr>;
            s = (if \<not> bu_started s then s\<lparr>bu_started := True, bu_first_start_ns := now\<rparr> else s)
        in (kStart, s\<lparr>bu_burst_start_ns := now, bu_bursts := bu_bursts s + 1\<rparr>))"

definition stop_locked :: "(real \<Rightarrow> real) \<Rightarrow> u64 \<Rightarrow> BurstStopReason \<Rightarrow> burst_controller \<Rightarrow> BurstAction \<times> burst_controller" where
  "stop_locked rnd now why s =
     (let dur = (if now > bu_burst_start_ns s then now - bu_burst_start_ns s else 0);
          s = s\<lparr>bu_sampling := False, bu_last_stop := why, bu_burst_ns := bu_burst_ns s + dur, bu_last_burst_dur := dur,
                bu_last_burst_end_ns := now, bu_have_open_yield := True\<rparr>;
          s = s\<lparr>bu_gap_ns := gap_for_duration_locked rnd dur s\<rparr>
      in (kStop, s\<lparr>bu_next_start_ns := now + bu_gap_ns s\<rparr>))"

definition close_locked :: "(real \<Rightarrow> real) \<Rightarrow> u64 \<Rightarrow> burst_controller \<Rightarrow> BurstAction \<times> burst_controller" where
  "close_locked rnd now s =
     (if bu_refused s then stop_locked rnd now kGraph s
      else if now - bu_burst_start_ns s < bc_burst_ns (bu_cfg s) then (kNone, s)
      else stop_locked rnd now kDutyCycle s)"

definition poll :: "(real \<Rightarrow> real) \<Rightarrow> u64 \<Rightarrow> bool \<Rightarrow> burst_controller \<Rightarrow> BurstAction \<times> burst_controller" where
  "poll rnd now graphs s =
     (let s = note_graphs_locked graphs s in if bu_sampling s then close_locked rnd now s else open_locked now s)"

definition poll_open :: "u64 \<Rightarrow> bool \<Rightarrow> burst_controller \<Rightarrow> BurstAction \<times> burst_controller" where
  "poll_open now graphs s =
     (let s = note_graphs_locked graphs s in if bu_sampling s then (kNone, s) else open_locked now s)"

definition poll_close :: "(real \<Rightarrow> real) \<Rightarrow> u64 \<Rightarrow> bool \<Rightarrow> burst_controller \<Rightarrow> BurstAction \<times> burst_controller" where
  "poll_close rnd now graphs s =
     (let s = note_graphs_locked graphs s in if \<not> bu_sampling s then (kNone, s) else close_locked rnd now s)"

definition closed_burst :: "(real \<Rightarrow> real) \<Rightarrow> u64 \<Rightarrow> burst_controller \<Rightarrow> burst_controller" where
  "closed_burst rnd pairs_total s =
     (if \<not> bu_have_open_yield s then s
      else
        let s = s\<lparr>bu_have_open_yield := False\<rparr>;
            pairs = (if pairs_total > bu_pairs_at_last_close s then pairs_total - bu_pairs_at_last_close s else 0);
            s = s\<lparr>bu_pairs_at_last_close := pairs_total, bu_pairs := bu_pairs s + pairs\<rparr>;
            elapsed = bu_last_burst_dur s + bu_gap_ns s;
            s = s\<lparr>bu_gap_ns := burst_next_gap_ns rnd (bu_cfg s) (bu_gap_ns s) pairs elapsed\<rparr>;
            s = s\<lparr>bu_gap_ns := gap_for_duration_locked rnd (bu_last_burst_dur s) s\<rparr>
        in s\<lparr>bu_next_start_ns := bu_last_burst_end_ns s + bu_gap_ns s\<rparr>)"

definition shutdown :: "(real \<Rightarrow> real) \<Rightarrow> u64 \<Rightarrow> burst_controller \<Rightarrow> BurstAction \<times> burst_controller" where
  "shutdown rnd now s =
     (let s = s\<lparr>bu_refused := True\<rparr> in if \<not> bu_sampling s then (kNone, s) else stop_locked rnd now kShutdown s)"

definition duty :: "(real \<Rightarrow> real) \<Rightarrow> u64 \<Rightarrow> burst_controller \<Rightarrow> dbl" where
  "duty rnd now s =
     (if \<not> bu_started s \<or> now \<le> bu_first_start_ns s then Fin 0
      else d_div rnd (of_u64 rnd (bu_burst_ns s)) (of_u64 rnd (now - bu_first_start_ns s)))"

section \<open>Rounding\<close>

definition rounding :: "(real \<Rightarrow> real) \<Rightarrow> bool" where
  "rounding rnd \<longleftrightarrow> mono rnd \<and> (\<forall>x. rnd (rnd x) = rnd x) \<and> (\<forall>i. \<bar>i\<bar> \<le> 2 ^ 53 \<longrightarrow> rnd (real_of_int i) = real_of_int i)"

lemma rounding_zero: "rounding rnd \<Longrightarrow> rnd 0 = 0"
  unfolding rounding_def by (drule conjunct2, drule conjunct2, drule spec [of _ 0]) simp

lemma rounding_int: "rounding rnd \<Longrightarrow> \<bar>i\<bar> \<le> 2 ^ 53 \<Longrightarrow> rnd (real_of_int i) = real_of_int i"
  by (simp add: rounding_def)

lemma rounding_ge_zero: "rounding rnd \<Longrightarrow> 0 \<le> x \<Longrightarrow> 0 \<le> rnd x"
  using rounding_zero [of rnd] unfolding rounding_def mono_def by metis

text \<open>A finite result of an operation is representable.\<close>

definition rounded :: "(real \<Rightarrow> real) \<Rightarrow> dbl \<Rightarrow> bool" where
  "rounded rnd a \<longleftrightarrow> (case a of Fin x \<Rightarrow> rnd x = x | _ \<Rightarrow> True)"

lemma rounded_fin: "rounding rnd \<Longrightarrow> rounded rnd (fin rnd x)"
  by (simp add: rounded_def fin_def rounding_def Let_def)

lemma rounded_of_u64: "rounding rnd \<Longrightarrow> rounded rnd (of_u64 rnd n)"
  by (simp add: rounded_def of_u64_def rounding_def)

lemma rounded_add: "rounding rnd \<Longrightarrow> rounded rnd (d_add rnd a b)"
  using rounded_fin by (auto simp: d_add_def is_fin_def rounded_def [of rnd Nan] rounded_def [of rnd Pinf] rounded_def [of rnd Ninf])

lemma rounded_mul: "rounding rnd \<Longrightarrow> rounded rnd (d_mul rnd a b)"
  using rounded_fin by (auto simp: d_mul_def inf_of_def rounded_def [of rnd Nan] rounded_def [of rnd Pinf] rounded_def [of rnd Ninf])

text \<open>
  A representable value strictly between two converted words converts back to a word between them.
\<close>

lemma real_between:
  assumes "rounding rnd" and "rnd x = x" and "rnd (real (unat lo)) < x" and "x < rnd (real (unat (hi :: u64)))"
  shows "lo \<le> to_u64 (Fin x)" and "to_u64 (Fin x) \<le> hi"
proof -
  have m: "a \<le> b \<Longrightarrow> rnd a \<le> rnd b" for a b using assms(1) by (simp add: rounding_def mono_def)
  have l: "real (unat lo) \<le> x" using assms(2,3) m [of x "real (unat lo)"] by linarith
  have h: "x \<le> real (unat hi)" using assms(2,4) m [of "real (unat hi)" x] by linarith
  let ?n = "nat \<lfloor>x\<rfloor>"
  have n: "unat lo \<le> ?n" "?n \<le> unat hi" using l h by (simp_all add: le_nat_floor floor_le_iff nat_le_iff)
  then have "?n < 18446744073709551616" using unat_u64_lt [of hi] by linarith
  then have "unat (of_nat ?n :: u64) = ?n" by (simp add: unsigned_of_nat take_bit_nat_eq_self)
  then show "lo \<le> to_u64 (Fin x)" "to_u64 (Fin x) \<le> hi" using n by (simp_all add: to_u64_def word_le_nat_alt)
qed

lemma clamp_between:
  assumes "rounding rnd" and "rounded rnd a" and "lo \<le> hi"
  shows "(if \<not> d_gt a (of_u64 rnd lo) then lo else if d_ge a (of_u64 rnd hi) then hi else to_u64 a) \<in> {lo .. hi}"
proof (cases a)
  case (Fin x)
  then show ?thesis
    using assms real_between [OF assms(1), of x lo hi] by (auto simp: rounded_def d_gt_def d_ge_def of_u64_def not_less)
next
  case Nzero
  have "0 \<le> rnd (real (unat lo))" by (rule rounding_ge_zero [OF assms(1) of_nat_0_le_iff])
  with Nzero show ?thesis using assms(3) by (simp add: d_gt_def of_u64_def)
qed (use assms in \<open>simp_all add: d_gt_def d_ge_def of_u64_def\<close>)

section \<open>The gap is bounded\<close>

lemma min_gap_le: "rounding rnd \<Longrightarrow> burst_min_gap_for_ns rnd cfg dur \<le> bc_max_gap_ns cfg"
proof -
  assume r: "rounding rnd"
  have z: "of_u64 rnd 0 = Fin 0" using rounding_zero [OF r] by (simp add: of_u64_def)
  define duty where "duty = (let duty = if \<not> d_gt (bc_max_duty cfg) (Fin 0) then Fin (rnd 0.001) else bc_max_duty cfg
      in if d_gt duty (Fin 1) then Fin 1 else duty)"
  define g where "g = d_mul rnd (of_u64 rnd dur) (d_sub rnd (d_div rnd (Fin 1) duty) (Fin 1))"
  have "burst_min_gap_for_ns rnd cfg dur =
      (if \<not> d_gt g (of_u64 rnd 0) then 0 else if d_ge g (of_u64 rnd (bc_max_gap_ns cfg)) then bc_max_gap_ns cfg else to_u64 g)"
    unfolding z burst_min_gap_for_ns_def Let_def g_def duty_def by (rule refl)
  moreover have "rounded rnd g" unfolding g_def by (rule rounded_mul [OF r])
  ultimately show ?thesis using clamp_between [OF r, of g 0 "bc_max_gap_ns cfg"] by simp
qed

lemma next_gap_between:
  assumes "rounding rnd"
  shows "burst_next_gap_ns rnd cfg prev pairs elapsed \<in> {burst_min_gap_ns rnd cfg .. bc_max_gap_ns cfg}"
proof -
  let ?lo = "burst_min_gap_ns rnd cfg"
  have lo: "?lo \<le> bc_max_gap_ns cfg" unfolding burst_min_gap_ns_def by (rule min_gap_le [OF assms])
  then have hi: "(if bc_max_gap_ns cfg > ?lo then bc_max_gap_ns cfg else ?lo) = bc_max_gap_ns cfg" by auto
  show ?thesis
    unfolding burst_next_gap_ns_def Let_def hi
    by (rule clamp_between [OF assms _ lo]) (auto intro: rounded_add [OF assms] rounded_of_u64 [OF assms])
qed

section \<open>Histories\<close>

datatype burst_op = Poll u64 bool | Poll_open u64 bool | Poll_close u64 bool | Closed u64 | Shutdown u64

text \<open>The bursts so far, latest first: when each was opened and, if it was, closed.\<close>

fun burst_log :: "BurstAction \<Rightarrow> u64 \<Rightarrow> (u64 \<times> u64 option) list \<Rightarrow> (u64 \<times> u64 option) list" where
  "burst_log kNone now bs = bs"
| "burst_log kStart now bs = (now, None) # bs"
| "burst_log kStop now bs = (case bs of [] \<Rightarrow> [(0, Some now)] | (s, _) # bs \<Rightarrow> (s, Some now) # bs)"

fun burst_run :: "(real \<Rightarrow> real) \<Rightarrow> burst_op \<Rightarrow> burst_controller \<times> (u64 \<times> u64 option) list \<Rightarrow> burst_controller \<times> (u64 \<times> u64 option) list" where
  "burst_run rnd (Poll now g) (s, bs) = (let (a, s) = poll rnd now g s in (s, burst_log a now bs))"
| "burst_run rnd (Poll_open now g) (s, bs) = (let (a, s) = poll_open now g s in (s, burst_log a now bs))"
| "burst_run rnd (Poll_close now g) (s, bs) = (let (a, s) = poll_close rnd now g s in (s, burst_log a now bs))"
| "burst_run rnd (Closed p) (s, bs) = (closed_burst rnd p s, bs)"
| "burst_run rnd (Shutdown now) (s, bs) = (let (a, s) = shutdown rnd now s in (s, burst_log a now bs))"

fun op_time :: "burst_op \<Rightarrow> u64" where
  "op_time (Poll now g) = now"
| "op_time (Poll_open now g) = now"
| "op_time (Poll_close now g) = now"
| "op_time (Closed p) = 0"
| "op_time (Shutdown now) = now"

definition dur_of :: "u64 \<Rightarrow> u64 \<Rightarrow> u64" where
  "dur_of s e = (if e > s then e - s else 0)"

text \<open>Every burst but the latest is closed, and opens no earlier than the one before it owes.\<close>

fun spaced :: "(u64 \<Rightarrow> u64) \<Rightarrow> (u64 \<times> u64 option) list \<Rightarrow> bool" where
  "spaced f [] = True"
| "spaced f ((t, oe) # bs) =
     ((case bs of [] \<Rightarrow> True | (s, None) # _ \<Rightarrow> False | (s, Some e) # _ \<Rightarrow> unat e + unat (f (dur_of s e)) \<le> unat t) \<and> spaced f bs)"

definition burst_inv :: "(real \<Rightarrow> real) \<Rightarrow> burst_config \<Rightarrow> burst_controller \<Rightarrow> (u64 \<times> u64 option) list \<Rightarrow> bool" where
  "burst_inv rnd cfg s bs \<longleftrightarrow> bu_cfg s = cfg \<and> bu_gap_ns s \<le> bc_max_gap_ns cfg \<and> spaced (burst_min_gap_for_ns rnd cfg) bs \<and>
     unat (bu_last_burst_end_ns s) + unat (bc_max_gap_ns cfg) < 2 ^ 64 \<and>
     (bu_started s \<longleftrightarrow> bs \<noteq> []) \<and>
     (case bs of [] \<Rightarrow> \<not> bu_have_open_yield s \<and> \<not> bu_sampling s
      | (t, None) # _ \<Rightarrow> bu_sampling s \<and> bu_burst_start_ns s = t
      | (t, Some e) # _ \<Rightarrow> \<not> bu_sampling s \<and> bu_last_burst_end_ns s = e \<and> bu_last_burst_dur s = dur_of t e \<and>
          unat e + unat (burst_min_gap_for_ns rnd cfg (dur_of t e)) \<le> unat (bu_next_start_ns s))"

lemma burst_inv_new: "rounding rnd \<Longrightarrow> burst_inv rnd cfg (new_burst_controller rnd cfg) []"
  by (simp add: burst_inv_def new_burst_controller_def burst_min_gap_ns_def min_gap_le)

lemma burst_inv_note: "burst_inv rnd cfg (note_graphs_locked g s) bs \<longleftrightarrow> burst_inv rnd cfg s bs"
  by (cases bs) (auto simp: burst_inv_def note_graphs_locked_def split: option.splits)

lemma sampling_note [simp]: "bu_sampling (note_graphs_locked g s) = bu_sampling s"
  by (simp add: note_graphs_locked_def)

lemma gap_for_duration_bounds:
  assumes "rounding rnd" and "bu_gap_ns s \<le> bc_max_gap_ns (bu_cfg s)"
  shows "gap_for_duration_locked rnd d s \<le> bc_max_gap_ns (bu_cfg s)"
    and "burst_min_gap_for_ns rnd (bu_cfg s) d \<le> gap_for_duration_locked rnd d s"
  using assms min_gap_le [OF assms(1), of "bu_cfg s" d] by (auto simp: gap_for_duration_locked_def Let_def)

lemma owed_no_wrap:
  assumes "(f :: u64) \<le> g" and "g \<le> m" and "unat (e :: u64) + unat m < 2 ^ 64"
  shows "unat e + unat f \<le> unat (e + g)"
proof -
  have "unat e + unat g < 2 ^ 64" using assms(2,3) by (simp add: word_le_nat_alt)
  then have "unat (e + g) = unat e + unat g" by (simp add: unat_word_ariths)
  then show ?thesis using assms(1) by (simp add: word_le_nat_alt)
qed

lemma burst_inv_open:
  assumes "burst_inv rnd cfg s bs" and "\<not> bu_sampling s" and "open_locked now s = (a, s')"
  shows "burst_inv rnd cfg s' (burst_log a now bs)"
proof (cases "bu_refused s \<or> (bu_started s \<and> now < bu_next_start_ns s)")
  case True
  then have "open_locked now s = (kNone, s)" by (auto simp: open_locked_def)
  with assms show ?thesis by simp
next
  case False
  then have a: "a = kStart" "s' = s\<lparr>bu_sampling := True, bu_started := True,
      bu_first_start_ns := (if bu_started s then bu_first_start_ns s else now), bu_burst_start_ns := now, bu_bursts := bu_bursts s + 1\<rparr>"
    using assms(3) by (auto simp: open_locked_def Let_def)
  show ?thesis
    using assms(1,2) False
    by (cases bs) (auto simp: a burst_inv_def word_le_nat_alt not_less split: option.splits)
qed

lemma burst_inv_stop:
  assumes "rounding rnd" and "burst_inv rnd cfg s bs" and "bu_sampling s" and "unat now + unat (bc_max_gap_ns cfg) < 2 ^ 64"
    and "stop_locked rnd now why s = (a, s')"
  shows "burst_inv rnd cfg s' (burst_log a now bs)"
proof -
  obtain t bs' where bs: "bs = (t, None) # bs'" "bu_burst_start_ns s = t"
    using assms(2,3) by (cases bs) (auto simp: burst_inv_def split: option.splits)
  let ?d = "dur_of t now"
  let ?s = "s\<lparr>bu_sampling := False, bu_last_stop := why, bu_burst_ns := bu_burst_ns s + ?d, bu_last_burst_dur := ?d,
      bu_last_burst_end_ns := now, bu_have_open_yield := True\<rparr>"
  let ?g = "gap_for_duration_locked rnd ?d ?s"
  have c: "bu_cfg s = cfg" "bu_gap_ns s \<le> bc_max_gap_ns cfg" using assms(2) by (simp_all add: burst_inv_def)
  have g: "?g \<le> bc_max_gap_ns cfg" "burst_min_gap_for_ns rnd cfg ?d \<le> ?g"
    using gap_for_duration_bounds [OF assms(1), of ?s ?d] c by simp_all
  have s': "a = kStop" "s' = ?s\<lparr>bu_gap_ns := ?g, bu_next_start_ns := now + ?g\<rparr>"
    using assms(5) unfolding stop_locked_def bs(2) dur_of_def [symmetric] Let_def by simp_all
  show ?thesis
    using assms(2,4) owed_no_wrap [OF g(2,1) assms(4)] g(1) by (simp add: s' bs(1) burst_inv_def)
qed

lemma burst_inv_close:
  assumes "rounding rnd" and "burst_inv rnd cfg s bs" and "bu_sampling s" and "unat now + unat (bc_max_gap_ns cfg) < 2 ^ 64"
    and "close_locked rnd now s = (a, s')"
  shows "burst_inv rnd cfg s' (burst_log a now bs)"
  using assms(5) burst_inv_stop [OF assms(1-4)] assms(2) by (auto simp: close_locked_def split: if_splits)

lemma burst_inv_closed:
  assumes "rounding rnd" and "burst_inv rnd cfg s bs"
  shows "burst_inv rnd cfg (closed_burst rnd p s) bs"
proof (cases "bu_have_open_yield s")
  case True
  define s1 where "s1 = s\<lparr>bu_have_open_yield := False, bu_pairs_at_last_close := p,
      bu_pairs := bu_pairs s + (if p > bu_pairs_at_last_close s then p - bu_pairs_at_last_close s else 0),
      bu_gap_ns := burst_next_gap_ns rnd cfg (bu_gap_ns s) (if p > bu_pairs_at_last_close s then p - bu_pairs_at_last_close s else 0)
        (bu_last_burst_dur s + bu_gap_ns s)\<rparr>"
  let ?g = "gap_for_duration_locked rnd (bu_last_burst_dur s) s1"
  have c: "bu_cfg s1 = cfg" "bu_gap_ns s1 \<le> bc_max_gap_ns cfg" "bu_last_burst_dur s1 = bu_last_burst_dur s" "bu_last_burst_end_ns s1 = bu_last_burst_end_ns s"
    using assms(2) next_gap_between [OF assms(1), of cfg] by (simp_all add: burst_inv_def s1_def)
  have g: "?g \<le> bc_max_gap_ns cfg" "burst_min_gap_for_ns rnd cfg (bu_last_burst_dur s) \<le> ?g"
    using gap_for_duration_bounds [OF assms(1), of s1 "bu_last_burst_dur s"] c by simp_all
  have e: "unat (bu_last_burst_end_ns s) + unat (bc_max_gap_ns cfg) < 2 ^ 64" using assms(2) by (simp add: burst_inv_def)
  have "closed_burst rnd p s = s1\<lparr>bu_gap_ns := ?g, bu_next_start_ns := bu_last_burst_end_ns s + ?g\<rparr>"
    using True assms(2) by (simp add: closed_burst_def s1_def burst_inv_def Let_def)
  then have cl: "closed_burst rnd p s = s1\<lparr>bu_gap_ns := ?g, bu_next_start_ns := bu_last_burst_end_ns s + ?g\<rparr>" .
  obtain t oe bs' where bs: "bs = (t, oe) # bs'" using assms(2) True by (cases bs) (auto simp: burst_inv_def)
  show ?thesis
    using assms(2) owed_no_wrap [OF g(2,1) e] g(1) unfolding cl bs burst_inv_def
    by (cases oe) (simp_all add: s1_def)
qed (use assms in \<open>simp add: closed_burst_def\<close>)

lemma burst_inv_run:
  assumes "rounding rnd" and "burst_inv rnd cfg s bs" and "unat (op_time op) + unat (bc_max_gap_ns cfg) < 2 ^ 64"
  shows "burst_inv rnd cfg (fst (burst_run rnd op (s, bs))) (snd (burst_run rnd op (s, bs)))"
proof -
  let ?n = "\<lambda>g. note_graphs_locked g s"
  have n: "burst_inv rnd cfg (?n g) bs" for g using assms(2) by (simp add: burst_inv_note)
  have o: "burst_inv rnd cfg (snd (open_locked now (?n g))) (burst_log (fst (open_locked now (?n g))) now bs)"
    if "\<not> bu_sampling s" for now g
    using burst_inv_open [OF n [of g], of now] that by (metis prod.collapse sampling_note)
  have c: "burst_inv rnd cfg (snd (close_locked rnd now (?n g))) (burst_log (fst (close_locked rnd now (?n g))) now bs)"
    if "bu_sampling s" "unat now + unat (bc_max_gap_ns cfg) < 2 ^ 64" for now g
    using burst_inv_close [OF assms(1) n [of g] _ that(2)] that(1) by (metis prod.collapse sampling_note)
  have r: "burst_inv rnd cfg (s\<lparr>bu_refused := True\<rparr>) bs" using assms(2) by (cases bs) (auto simp: burst_inv_def split: option.splits)
  show ?thesis
  proof (cases op)
    case (Shutdown now)
    then show ?thesis
      using r burst_inv_stop [OF assms(1) r, of now kShutdown] assms(3)
      by (cases "bu_sampling s") (auto simp: shutdown_def case_prod_unfold Let_def)
  qed (use assms o c n burst_inv_closed in \<open>auto simp: poll_def poll_open_def poll_close_def case_prod_unfold Let_def\<close>)
qed

lemma burst_inv_runs:
  assumes "rounding rnd" and "burst_inv rnd cfg s bs" and "list_all (\<lambda>op. unat (op_time op) + unat (bc_max_gap_ns cfg) < 2 ^ 64) ops"
  shows "burst_inv rnd cfg (fst (fold (burst_run rnd) ops (s, bs))) (snd (fold (burst_run rnd) ops (s, bs)))"
  using assms(2,3)
proof (induction ops arbitrary: s bs)
  case (Cons op ops)
  obtain s' bs' where r: "burst_run rnd op (s, bs) = (s', bs')" by fastforce
  with burst_inv_run [OF assms(1) Cons.prems(1), of op] Cons.prems(2) have "burst_inv rnd cfg s' bs'" by simp
  with Cons.IH [of s' bs'] Cons.prems(2) show ?case by (simp add: r)
qed simp

text \<open>Once refused, for a graph or for shutdown, the controller opens no burst.\<close>

lemma refused_run:
  assumes "bu_refused s"
  shows "bu_refused (fst (burst_run rnd op (s, bs)))"
    and "bs \<noteq> [] \<Longrightarrow> map fst (snd (burst_run rnd op (s, bs))) = map fst bs"
    and "\<not> bu_sampling s \<Longrightarrow> snd (burst_run rnd op (s, bs)) = bs \<and> \<not> bu_sampling (fst (burst_run rnd op (s, bs)))"
  using assms
  by (cases op; auto simp: poll_def poll_open_def poll_close_def shutdown_def closed_burst_def note_graphs_locked_def open_locked_def
      close_locked_def stop_locked_def Let_def split: list.splits)+

section \<open>Exact cases\<close>

lemma dbl_max_large: "x \<le> 2 ^ 64 \<Longrightarrow> x \<le> dbl_max"
proof -
  assume "x \<le> 2 ^ 64"
  also have "(2 :: real) ^ 64 \<le> 1 * 2 ^ 1023" by simp
  also have "\<dots> \<le> dbl_max" unfolding dbl_max_def by (rule mult_right_mono) simp_all
  finally show ?thesis .
qed

lemma fin_int:
  assumes "rounding rnd" and "\<bar>i\<bar> \<le> 2 ^ 53"
  shows "fin rnd (real_of_int i) = Fin (real_of_int i)"
proof -
  have "real_of_int i \<le> dbl_max" "- real_of_int i \<le> dbl_max" using assms(2) by (auto intro!: dbl_max_large)
  then show ?thesis by (simp add: fin_def rounding_int [OF assms])
qed

lemmas fin_exact = fin_int [of _ "numeral k" for k, simplified] fin_int [of _ "- numeral k" for k, simplified] fin_int [of _ 0, simplified]
  fin_int [of _ 1, simplified] fin_int [of _ "- 1", simplified]

lemma of_u64_exact:
  assumes "rounding rnd" and "unat n \<le> 2 ^ 53"
  shows "of_u64 rnd n = Fin (real (unat n))"
proof -
  have "\<bar>int (unat n)\<bar> \<le> 2 ^ 53" using assms(2) by (metis abs_of_nat of_nat_le_iff of_nat_numeral of_nat_power)
  from rounding_int [OF assms(1) this] show ?thesis by (simp only: of_u64_def of_int_of_nat_eq)
qed

lemmas dbl_defs = d_gt_def d_ge_def d_div_def d_sub_def d_minus_def d_add_def d_mul_def is_fin_def inf_of_def d_neg_def

text \<open>
  A negative target rate does not send the gap to the maximum: the ratio is negative and finite, the
  wanted gap is cut at zero and the gap falls to the floor.
\<close>

lemma negative_target_rate_lowers_gap:
  assumes "rounding rnd" and "cfg = \<lparr>bc_burst_ns = 50000000, bc_target_rate = Fin (- 100), bc_max_duty = Fin 1,
      bc_max_gap_ns = 10000000000, bc_gain = Fin 1\<rparr>"
  shows "burst_next_gap_ns rnd cfg 1000000000 100 1000000000 = 0"
proof -
  have u: "of_u64 rnd 1000000000 = Fin 1000000000" "of_u64 rnd 100 = Fin 100" "of_u64 rnd 50000000 = Fin 50000000" "of_u64 rnd 0 = Fin 0"
    by (simp_all add: of_u64_exact [OF assms(1)])
  note f = fin_exact [OF assms(1)]
  have "d_div rnd (Fin 1) (Fin 1) = Fin 1" by (simp add: d_div_def is_fin_def f)
  moreover have "d_sub rnd (Fin 1) (Fin 1) = Fin 0" by (simp add: d_sub_def d_minus_def d_add_def is_fin_def f)
  moreover have "d_mul rnd (Fin 50000000) (Fin 0) = Fin 0" by (simp add: d_mul_def is_fin_def f)
  ultimately have lo: "burst_min_gap_ns rnd cfg = 0"
    unfolding burst_min_gap_ns_def burst_min_gap_for_ns_def by (simp add: assms(2) u d_gt_def Let_def)
  have "d_mul rnd (Fin 100) (Fin 1000000000) = Fin 100000000000" by (simp add: d_mul_def is_fin_def f)
  moreover have "d_div rnd (Fin 100000000000) (Fin 1000000000) = Fin 100" by (simp add: d_div_def is_fin_def f)
  moreover have "d_div rnd (Fin 100) (Fin (- 100)) = Fin (- 1)" by (simp add: d_div_def is_fin_def f)
  moreover have "d_mul rnd (Fin 1000000000) (Fin (- 1)) = Fin (- 1000000000)" by (simp add: d_mul_def is_fin_def f)
  moreover have "d_sub rnd (Fin (- 1000000000)) (Fin 50000000) = Fin (- 1050000000)" by (simp add: d_sub_def d_minus_def d_add_def is_fin_def f)
  moreover have "d_sub rnd (Fin 0) (Fin 1000000000) = Fin (- 1000000000)" by (simp add: d_sub_def d_minus_def d_add_def is_fin_def f)
  moreover have "d_mul rnd (Fin 1) (Fin (- 1000000000)) = Fin (- 1000000000)" by (simp add: d_mul_def is_fin_def f)
  moreover have "d_add rnd (Fin 1000000000) (Fin (- 1000000000)) = Fin 0" by (simp add: d_add_def is_fin_def f)
  ultimately show ?thesis unfolding burst_next_gap_ns_def lo by (simp add: assms(2) u d_gt_def Let_def)
qed

section \<open>Properties of the controller\<close>

text \<open>
  The gap of the duty cycle is always within its bounds. For every configuration, every
  previous gap, yield and elapsed time, not-a-number and infinities included, and every rounding,
  the new gap is at least the floor of the duty ceiling for a nominal burst and at most the
  configured maximum.
\<close>

theorem burst_gap_bounded:
  assumes "rounding rnd"
  shows "burst_min_gap_ns rnd cfg \<le> burst_next_gap_ns rnd cfg prev pairs elapsed \<and>
    burst_next_gap_ns rnd cfg prev pairs elapsed \<le> bc_max_gap_ns cfg"
  using next_gap_between [OF assms, of cfg prev pairs elapsed] by simp

text \<open>
  C38: bursts keep their distance. In any history of polls, range-end reports and shutdowns, called
  from any threads in any order, bursts alternate with gaps: a burst opens only after the previous
  one was closed, and no earlier than its end plus the floor the duty ceiling demands for the time
  that burst really ran, whether or not its yield was reported.
\<close>

theorem bursts_spaced:
  assumes "rounding rnd" and "list_all (\<lambda>op. unat (op_time op) + unat (bc_max_gap_ns cfg) < 2 ^ 64) ops"
    and "(s, bs) = fold (burst_run rnd) ops (new_burst_controller rnd cfg, [])"
  shows "spaced (burst_min_gap_for_ns rnd cfg) bs \<and> bu_gap_ns s \<le> bc_max_gap_ns cfg \<and>
    (bu_sampling s \<longleftrightarrow> (\<exists>t bs'. bs = (t, None) # bs'))"
  using burst_inv_runs [OF assms(1) burst_inv_new [OF assms(1)] assms(2)]
  by (cases bs) (auto simp: assms(3) [symmetric] burst_inv_def split: option.splits)

text \<open>
  The floor for a ceiling of one in \<open>N\<close>, on durations for which the doubles are exact: the gap that meets the
  ceiling with equality, cut at the configured maximum.
\<close>

lemma min_gap_exact:
  assumes r: "rounding rnd" and duty: "bc_max_duty cfg = Fin (1 / real N)" and N: "1 \<le> N" and small: "unat dur * N < 2 ^ 53"
    and pos: "0 < dur"
  shows "unat (burst_min_gap_for_ns rnd cfg dur) = min (unat dur * (N - 1)) (unat (bc_max_gap_ns cfg))"
proof -
  let ?g = "unat dur * (N - 1)" and ?cap = "bc_max_gap_ns cfg"
  have f: "fin rnd (real n) = Fin (real n)" if "n \<le> 2 ^ 53" for n
    using fin_int [OF r, of "int n"] that by (simp add: nat_le_iff)
  have d0: "0 < unat dur" using pos by (simp add: word_less_nat_alt)
  then have "N \<le> unat dur * N" "unat dur \<le> unat dur * N" "?g \<le> unat dur * N"
    using N by simp_all
  then have le: "N \<le> 2 ^ 53" "unat dur \<le> 2 ^ 53" "?g < 2 ^ 53" "N - 1 \<le> 2 ^ 53" using small by linarith+
  have "d_div rnd (Fin 1) (Fin (1 / real N)) = Fin (real N)"
    using N f [OF le(1)] by (simp add: d_div_def is_fin_def)
  moreover have "d_sub rnd (Fin (real N)) (Fin 1) = Fin (real (N - 1))"
    using N f [OF le(4)] by (simp add: d_sub_def d_minus_def d_add_def is_fin_def of_nat_diff)
  moreover have "d_mul rnd (Fin (real (unat dur))) (Fin (real (N - 1))) = Fin (real ?g)"
    using f [of ?g] le(3) by (simp add: d_mul_def is_fin_def)
  ultimately have g: "d_mul rnd (of_u64 rnd dur) (d_sub rnd (d_div rnd (Fin 1) (Fin (1 / real N))) (Fin 1)) = Fin (real ?g)"
    using of_u64_exact [OF r le(2)] by simp
  have c: "rnd (real (unat ?cap)) \<le> real ?g \<longleftrightarrow> unat ?cap \<le> ?g"
  proof (cases "unat ?cap \<le> 2 ^ 53")
    case True
    then have "rnd (real (unat ?cap)) = real (unat ?cap)" using of_u64_exact [OF r True] by (simp only: of_u64_def dbl.inject)
    then show ?thesis by (simp only: of_nat_le_iff)
  next
    case False
    then have "2 ^ 53 \<le> real (unat ?cap)" by (metis nat_le_linear of_nat_le_iff of_nat_numeral of_nat_power)
    then have "rnd (real_of_int (2 ^ 53)) \<le> rnd (real (unat ?cap))" using r monoD [of rnd] by (simp add: rounding_def del: of_nat_unat)
    then have "2 ^ 53 \<le> rnd (real (unat ?cap))" using rounding_int [OF r, of "2 ^ 53"] by simp
    moreover have "real ?g < 2 ^ 53" using le(3) by (metis of_nat_less_iff of_nat_numeral of_nat_power)
    ultimately show ?thesis using False le(3) by linarith
  qed
  define m where "m = ?g"
  have "d_gt (Fin (1 / real N)) (Fin 0)" "\<not> d_gt (Fin (1 / real N)) (Fin 1)" using N by (simp_all add: d_gt_def)
  then have "burst_min_gap_for_ns rnd cfg dur =
      (if \<not> d_gt (Fin (real m)) (Fin 0) then 0 else if d_ge (Fin (real m)) (of_u64 rnd ?cap) then ?cap else to_u64 (Fin (real m)))"
    using g by (simp only: burst_min_gap_for_ns_def duty Let_def m_def if_False if_True simp_thms)
  moreover have "d_ge (Fin (real m)) (of_u64 rnd ?cap) \<longleftrightarrow> unat ?cap \<le> m"
    using c by (simp only: d_ge_def d_gt_def of_u64_def dbl.distinct if_False simp_thms val.simps not_less m_def)
  ultimately have b: "burst_min_gap_for_ns rnd cfg dur = (if ?g = 0 then 0 else if unat ?cap \<le> ?g then ?cap else of_nat ?g)"
    unfolding m_def [symmetric] by (simp add: d_gt_def to_u64_def)
  have "m < 18446744073709551616" using le(3) by (simp add: m_def)
  then have "unat (of_nat m :: u64) = m" by (simp add: unsigned_of_nat take_bit_nat_eq_self)
  then show ?thesis unfolding b m_def [symmetric] by (simp add: min_def)
qed

text \<open>
  C39: the duty ceiling does not hold at the maximum gap. For every ceiling \<open>d\<close>, every burst and every
  rounding: when the gap the ceiling demands of the burst exceeds the configured maximum, the floor is cut there and burst
  and gap together exceed the ceiling. On bursts for which the doubles are exact and a ceiling of one in \<open>N\<close>, the floor is
  exactly the gap that meets the ceiling as long as that is at most the maximum, and the maximum beyond.
\<close>

theorem duty_ceiling_exceeded_at_cap:
  assumes "rounding rnd" and "bc_max_duty cfg = Fin d" and "0 < d" and "0 < dur"
  shows "(real (unat (bc_max_gap_ns cfg)) < real (unat dur) * (1 / d - 1) \<longrightarrow>
      real (unat dur) / (real (unat dur) + real (unat (burst_min_gap_for_ns rnd cfg dur))) > d) \<and>
    (\<forall>N. 1 \<le> N \<and> d = 1 / real N \<and> unat dur * N < 2 ^ 53 \<longrightarrow>
      unat (burst_min_gap_for_ns rnd cfg dur) = min (unat dur * (N - 1)) (unat (bc_max_gap_ns cfg)))"
proof (intro conjI impI allI)
  let ?u = "real (unat dur)" and ?g = "real (unat (burst_min_gap_for_ns rnd cfg dur))"
  assume "real (unat (bc_max_gap_ns cfg)) < ?u * (1 / d - 1)"
  moreover have "?g \<le> real (unat (bc_max_gap_ns cfg))" using min_gap_le [OF assms(1), of cfg dur] by (simp only: word_le_nat_alt of_nat_le_iff)
  ultimately have "?u + ?g < ?u / d" by (simp add: right_diff_distrib)
  moreover have "0 < ?u" using assms(4) by (simp only: word_less_nat_alt unat_0 of_nat_0_less_iff)
  moreover have "0 \<le> ?g" by (rule of_nat_0_le_iff)
  ultimately show "d < ?u / (?u + ?g)" using assms(3) by (simp add: field_simps del: of_nat_unat)
next
  fix N assume "1 \<le> N \<and> d = 1 / real N \<and> unat dur * N < 2 ^ 53"
  with min_gap_exact [OF assms(1), of cfg N dur] assms(2,4)
  show "unat (burst_min_gap_for_ns rnd cfg dur) = min (unat dur * (N - 1)) (unat (bc_max_gap_ns cfg))" by simp
qed

section \<open>Concrete runs\<close>

lemma rounding_exact: "rounding (\<lambda>x. x)"
  by (simp add: rounding_def mono_def)

definition demo_burst_cfg :: burst_config where
  "demo_burst_cfg = \<lparr>bc_burst_ns = 50000000, bc_target_rate = Fin 100, bc_max_duty = Fin (1 / 16), bc_max_gap_ns = 10000000000,
     bc_gain = Fin (1 / 2)\<rparr>"

theorem bursts_spaced_witness:
  "case fold (burst_run (\<lambda>x. x)) [Poll 0 False, Poll 60000000 False, Closed 3, Poll_open 99 False, Poll_open 2000000000 False]
     (new_burst_controller (\<lambda>x. x) demo_burst_cfg, []) of (s, bs) \<Rightarrow>
    spaced (burst_min_gap_for_ns (\<lambda>x. x) demo_burst_cfg) bs \<and> bu_gap_ns s \<le> 10000000000"
proof -
  let ?ops = "[Poll 0 False, Poll 60000000 False, Closed 3, Poll_open 99 False, Poll_open 2000000000 False]"
  have t: "list_all (\<lambda>op. unat (op_time op) + unat (bc_max_gap_ns demo_burst_cfg) < 2 ^ 64) ?ops" by (simp add: demo_burst_cfg_def)
  obtain s bs where r: "(s, bs) = fold (burst_run (\<lambda>x. x)) ?ops (new_burst_controller (\<lambda>x. x) demo_burst_cfg, [])"
    by (metis prod.collapse)
  from bursts_spaced [OF rounding_exact t r] show ?thesis unfolding r [symmetric] by (simp add: demo_burst_cfg_def)
qed

theorem duty_ceiling_exceeded_at_cap_witness:
  "unat (burst_min_gap_for_ns (\<lambda>x. x) demo_burst_cfg 1000000000) = 10000000000 \<and> 1000000000 / (1000000000 + 10000000000) > (1 / 16 :: real) \<and>
   unat (burst_min_gap_for_ns (\<lambda>x. x) demo_burst_cfg 50000000) = 750000000"
proof -
  have d: "bc_max_duty demo_burst_cfg = Fin (1 / 16)" "bc_max_gap_ns demo_burst_cfg = 10000000000" by (simp_all add: demo_burst_cfg_def)
  note at = duty_ceiling_exceeded_at_cap [OF rounding_exact d(1)]
  have "unat (burst_min_gap_for_ns (\<lambda>x. x) demo_burst_cfg 1000000000) = 10000000000"
    using at [of 1000000000, THEN conjunct2, THEN spec, of 16] by (simp add: d word_less_nat_alt)
  moreover have "unat (burst_min_gap_for_ns (\<lambda>x. x) demo_burst_cfg 50000000) = 750000000"
    using at [of 50000000, THEN conjunct2, THEN spec, of 16] by (simp add: d word_less_nat_alt)
  ultimately show ?thesis
    using at [of 1000000000] by (simp add: d word_less_nat_alt)
qed

end
