(* ===== verification/Gpu_Pipeline.thy ===== *)
theory Gpu_Pipeline
  imports Gpu_Usdt Shim_Transport
begin

text \<open>
  The shim and the kernel put together: a batch of the shim (\<open>src/shim/core/batch.h\<close>) wired to a
  probe, whose every emission fires the kernel's consumer (\<open>src/bpf/gpu_usdt.bpf.c\<close>) with the
  address of the buffer, the number of records in it and the sequence number.

  The lemmas show that for every kind but the sampled launch, which is never batched, an emission
  within the kernel's cap for its kind is delivered whole or added whole to the drop counter of the
  kind, and that over a run the counters of both sides account for every record.
\<close>

section \<open>Firing the probe\<close>

text \<open>
  What is around one fire and outside the batch: the helpers' answers, the process's memory, where
  the buffer is, and the registers at the probe.
\<close>

record surround =
  o_genv :: gpu_env
  o_env :: walk_env
  o_ptr :: u64
  o_regs :: user_regs

definition fire_args :: "u32 \<Rightarrow> surround \<Rightarrow> 'a list \<times> u64 \<Rightarrow> probe_args" where
  "fire_args kind w e =
     \<lparr>a_cookie = ucast kind, a_ptr = o_ptr w, a_count = of_nat (length (fst e)), a_seq = snd e, a_regs = o_regs w\<rparr>"

definition fire ::
  "'m module_fn \<Rightarrow> (u32 \<Rightarrow> interp_prog option) \<Rightarrow> u32 \<Rightarrow> surround \<times> 'a list \<times> u64
    \<Rightarrow> ('m, gpu_drv) world \<Rightarrow> ('m, gpu_drv) world" where
  "fire seg progs kind we x = gpu_usdt_batch (o_genv (fst we)) (o_env (fst we)) seg progs (fire_args kind (fst we) (snd we)) x"

section \<open>One emission\<close>

definition fits :: "u32 \<Rightarrow> surround \<times> 'a list \<times> u64 \<Rightarrow> bool" where
  "fits kind we \<longleftrightarrow> 0 < length (fst (snd we)) \<and> length (fst (snd we)) \<le> unat (max_records kind)"

definition plain_kind :: "u32 \<Rightarrow> bool" where
  "plain_kind kind \<longleftrightarrow> record_size kind \<noteq> 0 \<and> kind \<noteq> KIND_LAUNCH_SAMPLED"

lemma max_records_small: "unat (max_records kind) \<le> 64"
  by (simp add: max_records_def BATCH_CAP_def)

lemma of_nat_small:
  assumes "n \<le> 64"
  shows "unat (of_nat n :: u64) = n" "unat (of_nat n :: u32) = n" "ucast (of_nat n :: u64) = (of_nat n :: u32)"
    "ucast (of_nat n :: u32) = (of_nat n :: u64)"
  using assms by (simp_all add: unsigned_of_nat take_bit_nat_eq_self)

text \<open>
  The emission is delivered whole, with its sequence number, or its records are added to the drop
  counter of the kind; nothing else moves the counter or the messages.
\<close>

lemma fire_outcome:
  assumes "plain_kind kind" and "fits kind (w, rs, q)" and "y = fire seg progs kind (w, rs, q) x"
  shows "(\<exists>m. g_events (x_drv y) = g_events (x_drv x) @ [m] \<and> b_kind m = kind \<and> b_seq m = q \<and>
        unat (b_count m) = length rs \<and> unat (b_bytes m) = length rs * unat (record_size kind) \<and>
        probe_read_user (e_umem (o_env w)) (o_ptr w) (length rs * unat (record_size kind)) = Some (b_payload m) \<and>
        g_dropped (x_drv y) = g_dropped (x_drv x)) \<or>
      (g_events (x_drv y) = g_events (x_drv x) \<and> g_dropped (x_drv y) = bump kind (of_nat (length rs)) (g_dropped (x_drv x)))"
proof -
  let ?a = "fire_args kind w (rs, q)" and ?d = "x_drv x"
  have k: "ucast (a_cookie ?a) = kind" "a_seq ?a = q" "a_count ?a = of_nat (length rs)" "a_ptr ?a = o_ptr w"
    by (simp_all add: fire_args_def unsigned_ucast_eq take_bit_word_eq_self)
  have n: "0 < length rs" "length rs \<le> 64" "length rs \<le> unat (max_records kind)"
    using assms(2) max_records_small [of kind] by (simp_all add: fits_def)
  note c = of_nat_small [OF n(2)]
  have pos: "a_count ?a \<noteq> 0" using n(1) c(1) by (auto simp: k(3))
  have cl: "clamped ?a = of_nat (length rs)" "clamp_drv ?a ?d = ?d"
    using n(3) c(1) by (auto simp: clamped_def clamp_drv_def k Let_def word_less_nat_alt)
  have r: "record_size kind \<noteq> 0" "kind \<noteq> KIND_LAUNCH_SAMPLED" using assms(1) by (simp_all add: plain_kind_def)
  have km: "kind < KIND_MAX" using max_records_sizes(4) [OF r(1)] .
  have le: "(of_nat (length rs) :: u64) \<le> ucast (max_records kind)" using n(3) c(1) by (simp add: word_le_nat_alt)
  note b = batch_bytes [OF r(1) le, unfolded c]
  have e: "x_drv y = gpu_emit_plain (o_genv w) (o_env w) kind (of_nat (length rs)) q
      (of_nat (length rs) * record_size kind) (o_ptr w) ?d"
    unfolding assms(3) fire_def fst_conv snd_conv
    using r by (subst gpu_usdt_batch_eq) (simp_all add: k pos [unfolded k(3)] cl c Let_def)
  have "batch_outcome (o_genv w) (o_env w) kind (of_nat (length rs)) q (of_nat (length rs) * record_size kind) (o_ptr w) ?d (x_drv y)"
    unfolding e by (rule emit_plain_outcome [OF km])
  then show ?thesis
    using b c by (auto simp: batch_outcome_def batch_of_def)
qed

section \<open>A run\<close>

definition delivered :: "u32 \<Rightarrow> ('m, gpu_drv) world \<Rightarrow> u64" where
  "delivered kind x = sum_list (map (\<lambda>m. ucast (b_count m)) (filter (\<lambda>m. b_kind m = kind) (g_events (x_drv x))))"

definition kernel_dropped :: "u32 \<Rightarrow> ('m, gpu_drv) world \<Rightarrow> u64" where
  "kernel_dropped kind x = g_dropped (x_drv x) ! unat kind"

definition records_in :: "surround \<times> 'a list \<times> u64 \<Rightarrow> u64" where
  "records_in we = of_nat (length (fst (snd we)))"

interpretation consumer: counting_stage "fire seg progs kind" records_in "delivered kind" "kernel_dropped kind"
  "\<lambda>we. plain_kind kind \<and> fits kind we" "\<lambda>x. unat kind < length (g_dropped (x_drv x))"
proof
  fix x :: "('a, gpu_drv) world" and we :: "surround \<times> 'b list \<times> u64"
  assume i: "unat kind < length (g_dropped (x_drv x))" and "plain_kind kind \<and> fits kind we"
  moreover obtain w rs q where we: "we = (w, rs, q)" by (cases we)
  ultimately have f: "plain_kind kind" "fits kind (w, rs, q)" by simp_all
  note o = fire_outcome [OF f refl, of seg progs x]
  show "unat kind < length (g_dropped (x_drv (fire seg progs kind we x)))"
    using o i by (auto simp: we)
  have "length rs \<le> 64" using f(2) max_records_small [of kind] by (simp add: fits_def)
  then have "ucast (b_count m) = (of_nat (length rs) :: u64)" if "unat (b_count m) = length rs" for m
    using word_eq_of_nat [OF that] by (simp add: unsigned_of_nat take_bit_nat_eq_self)
  then show "delivered kind (fire seg progs kind we x) + kernel_dropped kind (fire seg progs kind we x) =
      delivered kind x + kernel_dropped kind x + records_in we"
    using o i by (auto simp: we delivered_def kernel_dropped_def records_in_def bump_def)
qed

lemma fires_in_order:
  assumes "plain_kind kind" and "list_all (fits kind) wes"
  shows "\<exists>ms. g_events (x_drv (fold (fire seg progs kind) wes x)) = g_events (x_drv x) @ ms \<and>
    list_all (\<lambda>m. b_kind m = kind) ms \<and>
    subseq (map (\<lambda>m. (b_seq m, unat (b_count m))) ms) (map (\<lambda>(w, rs, q). (q, length rs)) wes)"
  using assms(2)
proof (induction wes arbitrary: x)
  case (Cons we wes)
  obtain w rs q where we: "we = (w, rs, q)" by (cases we)
  let ?y = "fire seg progs kind we x"
  from Cons obtain ms where ms: "g_events (x_drv (fold (fire seg progs kind) wes ?y)) = g_events (x_drv ?y) @ ms"
      "list_all (\<lambda>m. b_kind m = kind) ms"
      "subseq (map (\<lambda>m. (b_seq m, unat (b_count m))) ms) (map (\<lambda>(w, rs, q). (q, length rs)) wes)"
    by fastforce
  have "fits kind (w, rs, q)" using Cons.prems by (simp add: we)
  from fire_outcome [OF assms(1) this refl, of seg progs x] show ?case
  proof (elim disjE exE conjE, goal_cases)
    case (1 m)
    then show ?case using ms by (intro exI [of _ "m # ms"]) (simp add: we)
  next
    case 2
    then show ?case using ms by (intro exI [of _ ms]) (simp add: we list_emb_Cons)
  qed
qed simp

lemma delivered_append:
  assumes "g_events (x_drv y) = g_events (x_drv x) @ ms" and "list_all (\<lambda>m. b_kind m = kind) ms"
  shows "delivered kind y = delivered kind x + sum_list (map (\<lambda>m. ucast (b_count m)) ms)"
proof -
  have "filter (\<lambda>m. b_kind m = kind) ms = ms" using assms(2) by (simp add: list_all_iff)
  then show ?thesis by (simp add: delivered_def assms(1))
qed

lemma emissions_zip:
  assumes "length ws = length es"
  shows "map (\<lambda>(w, rs, q). (q, length rs)) (zip ws es) = map (\<lambda>(rs, q). (q, length rs)) es"
    and "sum_list (map records_in (zip ws es)) = of_nat (length (concat (map fst es)))"
  using assms by (induction ws es rule: list_induct2) (auto simp: records_in_def)

end
