(* ===== verification/C_Strings.thy ===== *)
theory C_Strings
  imports Prelude
begin

text \<open>
  What the shim uses of the C library's text functions: digits in a base, \<open>strtol\<close>, \<open>strtoul\<close> and
  \<open>strtoull\<close>, the conversions of \<open>sscanf\<close> and \<open>snprintf\<close>, and \<open>fgets\<close>. A C string is the list of its
  characters without the terminating zero.

  The lemmas show that a number printed in a base is read back by the conversion of that base, that
  printing is injective, and that \<open>fgets\<close> splits a file of short lines into these lines.
\<close>

section \<open>Numbers\<close>

definition is_space :: "char \<Rightarrow> bool" where
  "is_space c \<longleftrightarrow> c \<in> {CHR '' '', CHR 0x09, CHR 0x0A, CHR 0x0B, CHR 0x0C, CHR 0x0D}"

definition digit_val :: "char \<Rightarrow> nat" where
  "digit_val c =
     (let n = of_char c :: nat
      in if 48 \<le> n \<and> n \<le> 57 then n - 48 else if 97 \<le> n \<and> n \<le> 122 then n - 87 else if 65 \<le> n \<and> n \<le> 90 then n - 55 else 255)"

definition is_digit :: "nat \<Rightarrow> char \<Rightarrow> bool" where
  "is_digit base c \<longleftrightarrow> digit_val c < base"

definition num_of :: "nat \<Rightarrow> string \<Rightarrow> nat" where
  "num_of base ds = foldl (\<lambda>n c. base * n + digit_val c) 0 ds"

definition digit_char :: "nat \<Rightarrow> char" where
  "digit_char d = char_of (if d < 10 then 48 + d else 87 + d)"

fun print_num :: "nat \<Rightarrow> nat \<Rightarrow> string" where
  "print_num base n = (if base < 2 \<or> n < base then [digit_char n] else print_num base (n div base) @ [digit_char (n mod base)])"

declare print_num.simps [simp del]

definition pad :: "nat \<Rightarrow> string \<Rightarrow> string" where
  "pad k s = replicate (k - length s) (CHR ''0'') @ s"

section \<open>Reading numbers\<close>

text \<open>White space, a sign, the prefix of a hexadecimal number, digits; \<open>None\<close> when no digit follows.\<close>

fun sign_of :: "string \<Rightarrow> bool \<times> string" where
  "sign_of (c # s) = (if c = CHR ''-'' then (True, s) else if c = CHR ''+'' then (False, s) else (False, c # s))"
| "sign_of [] = (False, [])"

fun skip_0x :: "nat \<Rightarrow> string \<Rightarrow> string" where
  "skip_0x base (a # x # d # s) =
     (if base = 16 \<and> a = CHR ''0'' \<and> x \<in> {CHR ''x'', CHR ''X''} \<and> is_digit 16 d then d # s else a # x # d # s)"
| "skip_0x base s = s"

definition scan_num :: "nat \<Rightarrow> string \<Rightarrow> (bool \<times> nat \<times> string) option" where
  "scan_num base s =
     (let (neg, s) = sign_of (dropWhile is_space s); s = skip_0x base s; ds = takeWhile (is_digit base) s
      in if ds = [] then None else Some (neg, num_of base ds, dropWhile (is_digit base) s))"

text \<open>\<open>strtol\<close>: value, whether \<open>ERANGE\<close> was raised, and the rest of the string.\<close>

definition strtol :: "nat \<Rightarrow> string \<Rightarrow> int \<times> bool \<times> string" where
  "strtol base s =
     (case scan_num base s of None \<Rightarrow> (0, False, s)
      | Some (neg, n, rest) \<Rightarrow>
          if neg then (if int n > 2 ^ 63 then (- (2 ^ 63), True, rest) else (- int n, False, rest))
          else (if int n > 2 ^ 63 - 1 then (2 ^ 63 - 1, True, rest) else (int n, False, rest)))"

text \<open>The unsigned conversions saturate and negate at their width.\<close>

definition unsigned_val :: "bool \<Rightarrow> nat \<Rightarrow> u64" where
  "unsigned_val neg n = (if n \<ge> 2 ^ 64 then - 1 else if neg then - of_nat n else of_nat n)"

definition base_of :: "string \<Rightarrow> nat" where
  "base_of s =
     (case snd (sign_of (dropWhile is_space s)) of a # r \<Rightarrow>
        if a \<noteq> CHR ''0'' then 10 else if skip_0x 16 (a # r) \<noteq> a # r then 16 else 8
      | [] \<Rightarrow> 10)"

text \<open>\<open>strtoull\<close> with base 0: the prefix decides the base.\<close>

definition strtoull0 :: "string \<Rightarrow> u64 \<times> string" where
  "strtoull0 s = (case scan_num (base_of s) s of None \<Rightarrow> (0, s) | Some (neg, n, rest) \<Rightarrow> (unsigned_val neg n, rest))"

text \<open>The conversions of \<open>sscanf\<close>: an unsigned number, a literal character, a word of bounded width.\<close>

definition sc_num :: "nat \<Rightarrow> string \<Rightarrow> (u64 \<times> string) option" where
  "sc_num base s = (case scan_num base s of None \<Rightarrow> None | Some (neg, n, rest) \<Rightarrow> Some (unsigned_val neg n, rest))"

fun sc_lit :: "char \<Rightarrow> string \<Rightarrow> string option" where
  "sc_lit c (a # s) = (if a = c then Some s else None)"
| "sc_lit c [] = None"

definition sc_word :: "nat \<Rightarrow> string \<Rightarrow> (string \<times> string) option" where
  "sc_word k s =
     (let s = dropWhile is_space s; w = take k (takeWhile (\<lambda>c. \<not> is_space c) s)
      in if w = [] then None else Some (w, drop (length w) s))"

section \<open>Lines\<close>

fun fgets :: "nat \<Rightarrow> string \<Rightarrow> string" where
  "fgets 0 s = []"
| "fgets (Suc k) [] = []"
| "fgets (Suc k) (c # s) = c # (if c = CHR 0x0A then [] else fgets k s)"

text \<open>All lines a loop over \<open>fgets\<close> with a buffer of \<open>k + 2\<close> bytes sees.\<close>

function file_lines :: "nat \<Rightarrow> string \<Rightarrow> string list" where
  "file_lines k s = (if s = [] then [] else fgets (Suc k) s # file_lines k (drop (length (fgets (Suc k) s)) s))"
  by pat_completeness auto

termination
  by (relation "measure (\<lambda>(k, s). length s)") (auto simp: neq_Nil_conv)

declare file_lines.simps [simp del]

section \<open>Printing and reading\<close>

lemma list_all_replicateI [intro]: "P x \<Longrightarrow> list_all P (replicate n x)"
  by (induction n) simp_all

lemma list_all_impI: "list_all P xs \<Longrightarrow> (\<And>x. P x \<Longrightarrow> Q x) \<Longrightarrow> list_all Q xs"
  by (induction xs) simp_all

lemma not_in_list_all: "list_all P xs \<Longrightarrow> \<not> P x \<Longrightarrow> x \<notin> set xs"
  by (induction xs) auto

lemma digit_val_char: "d < 36 \<Longrightarrow> digit_val (digit_char d) = d"
  by (auto simp: digit_val_def digit_char_def Let_def)

lemma num_of_append: "num_of b (xs @ [c]) = b * num_of b xs + digit_val c"
  by (simp add: num_of_def)

lemma num_of_zeros: "num_of b (replicate k (CHR ''0'') @ ds) = num_of b ds"
  by (induction k) (simp_all add: num_of_def digit_val_def)

lemma print_num_ne [simp]: "print_num b n \<noteq> []"
  by (subst print_num.simps) simp

lemma print_num_digits:
  assumes "2 \<le> b" and "b \<le> 36"
  shows "list_all (is_digit b) (print_num b n) \<and> num_of b (print_num b n) = n"
  using assms
proof (induction b n rule: print_num.induct)
  case (1 b n)
  show ?case
  proof (cases "n < b")
    case True
    then show ?thesis using 1 by (subst (1 2) print_num.simps) (simp add: is_digit_def digit_val_char num_of_def)
  next
    case False
    then have "print_num b n = print_num b (n div b) @ [digit_char (n mod b)]" using 1 by (subst print_num.simps) simp
    moreover have "n mod b < b" "n mod b < 36" using 1 by (simp_all add: less_le_trans [OF mod_less_divisor])
    ultimately show ?thesis using 1 False by (simp add: num_of_append is_digit_def digit_val_char)
  qed
qed

lemma print_num_inj: "2 \<le> b \<Longrightarrow> b \<le> 36 \<Longrightarrow> print_num b m = print_num b n \<Longrightarrow> m = n"
  using print_num_digits [of b m] print_num_digits [of b n] by metis

lemma print_num_length:
  assumes "2 \<le> b" and "n < b ^ k" and "0 < k"
  shows "length (print_num b n) \<le> k"
  using assms
proof (induction k arbitrary: n)
  case (Suc k)
  show ?case
  proof (cases "n < b")
    case False
    then have k: "0 < k" using Suc.prems by (cases k) auto
    have "n div b < b ^ k" using Suc.prems by (simp add: less_mult_imp_div_less mult.commute)
    with Suc.IH k Suc.prems(1) have "length (print_num b (n div b)) \<le> k" by simp
    moreover have "print_num b n = print_num b (n div b) @ [digit_char (n mod b)]" using False Suc.prems by (subst print_num.simps) simp
    ultimately show ?thesis by simp
  qed (subst print_num.simps; simp)
qed simp

definition no_digit :: "nat \<Rightarrow> string \<Rightarrow> bool" where
  "no_digit b s \<longleftrightarrow> (s = [] \<or> \<not> is_digit b (hd s))"

lemma digit_not_special:
  assumes "is_digit b c" and "b \<le> 36"
  shows "\<not> is_space c" and "c \<noteq> CHR ''-''" and "c \<noteq> CHR ''+''"
  using assms by (auto simp: is_digit_def digit_val_def is_space_def Let_def split: if_splits)

lemma x_no_digit: "b \<le> 33 \<Longrightarrow> is_digit b c \<Longrightarrow> c \<noteq> CHR ''x'' \<and> c \<noteq> CHR ''X''"
  by (auto simp: is_digit_def digit_val_def)

lemma skip_0x_digits:
  assumes "list_all (is_digit b) ds" and "b \<le> 16" and "ds \<noteq> []" and "rest = [] \<or> hd rest \<notin> {CHR ''x'', CHR ''X''}"
  shows "skip_0x b (ds @ rest) = ds @ rest"
proof (cases "\<exists>a x d s. ds @ rest = a # x # d # s")
  case True
  then obtain a x d s where e: "ds @ rest = a # x # d # s" by blast
  have "x \<notin> {CHR ''x'', CHR ''X''}"
  proof (cases "length ds = 1")
    case True
    then have "rest = x # d # s" using e by (cases ds) auto
    then show ?thesis using assms(4) by simp
  next
    case False
    then have "x \<in> set ds" using e assms(3) by (cases ds; cases "tl ds") auto
    then show ?thesis using x_no_digit [of b x] assms(1,2) by (auto simp: list_all_iff)
  qed
  then show ?thesis by (simp add: e)
next
  case False
  then show ?thesis by (cases "(b, ds @ rest)" rule: skip_0x.cases) auto
qed

text \<open>A number printed in a base, with any number of leading zeros, is read back.\<close>

lemma scan_num_print:
  assumes "2 \<le> b" and "b \<le> 16" and "no_digit b rest" and "rest = [] \<or> hd rest \<notin> {CHR ''x'', CHR ''X''}"
  shows "scan_num b (pad k (print_num b n) @ rest) = Some (False, n, rest)"
proof -
  let ?ds = "pad k (print_num b n)"
  have z: "is_digit b (CHR ''0'')" using assms(1) by (simp add: is_digit_def digit_val_def)
  have d: "list_all (is_digit b) ?ds" and v: "num_of b ?ds = n"
    using print_num_digits [of b n] assms(1,2) z by (auto simp: pad_def num_of_zeros list_all_iff)
  have ne: "?ds \<noteq> []" by (simp add: pad_def)
  then obtain c cs where c: "?ds = c # cs" by (cases ?ds) auto
  then have c': "\<not> is_space c" "c \<noteq> CHR ''-''" "c \<noteq> CHR ''+''" using digit_not_special [of b c] d assms(2) by simp_all
  have "takeWhile (is_digit b) (?ds @ rest) = ?ds" "dropWhile (is_digit b) (?ds @ rest) = rest"
    using d assms(3) by (auto simp: no_digit_def list_all_iff takeWhile_append2 dropWhile_append2 takeWhile_eq_Nil_iff dropWhile_eq_self_iff)
  then show ?thesis
    using skip_0x_digits [OF d assms(2) ne assms(4)] c c' v ne
    by (simp add: scan_num_def)
qed

lemma pad_0 [simp]: "pad 0 s = s"
  by (simp add: pad_def)

lemma unsigned_val_word: "unsigned_val False (unat (w :: u64)) = w"
proof -
  have "\<not> 18446744073709551616 \<le> unat w" by (simp only: not_le unat_u64_lt)
  then show ?thesis by (simp add: unsigned_val_def)
qed

lemma sc_num_print:
  assumes "2 \<le> b" and "b \<le> 16" and "no_digit b rest" and "rest = [] \<or> hd rest \<notin> {CHR ''x'', CHR ''X''}"
  shows "sc_num b (pad k (print_num b (unat (w :: u64))) @ rest) = Some (w, rest)"
  using scan_num_print [OF assms] by (simp add: sc_num_def unsigned_val_word)

lemma scan_num_space: "scan_num b (CHR '' '' # s) = scan_num b s"
  by (simp add: scan_num_def is_space_def)

lemma sc_num_space [simp]: "sc_num b (CHR '' '' # s) = sc_num b s"
  by (simp add: sc_num_def scan_num_space)

lemma sc_word_space [simp]: "sc_word k (CHR '' '' # s) = sc_word k s"
  by (simp add: sc_word_def is_space_def)

lemma sc_word_exact:
  assumes "w \<noteq> []" and "length w \<le> k" and "list_all (\<lambda>c. \<not> is_space c) w" and "rest = [] \<or> is_space (hd rest)"
  shows "sc_word k (w @ rest) = Some (w, rest)"
proof -
  have "dropWhile is_space (w @ rest) = w @ rest" using assms(1,3) by (cases w) simp_all
  moreover have "takeWhile (\<lambda>c. \<not> is_space c) (w @ rest) = w"
    using assms(3,4) by (auto simp: takeWhile_append list_all_iff takeWhile_eq_Nil_iff)
  moreover have "0 < k" using assms(1,2) by (cases w) simp_all
  ultimately show ?thesis using assms(1,2) by (simp add: sc_word_def)
qed

section \<open>Lines of a file\<close>

lemma fgets_line:
  assumes "CHR 0x0A \<notin> set l" and "length l < k"
  shows "fgets k (l @ CHR 0x0A # s) = l @ [CHR 0x0A]"
  using assms
proof (induction l arbitrary: k)
  case Nil
  then show ?case by (cases k) simp_all
next
  case (Cons c l)
  then show ?case by (cases k) auto
qed

lemma file_lines_concat:
  assumes "list_all (\<lambda>l. CHR 0x0A \<notin> set l \<and> length l \<le> k) ls"
  shows "file_lines k (concat (map (\<lambda>l. l @ [CHR 0x0A]) ls)) = map (\<lambda>l. l @ [CHR 0x0A]) ls"
  using assms
proof (induction ls)
  case Nil
  show ?case by (simp add: file_lines.simps)
next
  case (Cons l ls)
  let ?r = "concat (map (\<lambda>l. l @ [CHR 0x0A]) ls)"
  have "fgets (Suc k) (l @ CHR 0x0A # ?r) = l @ [CHR 0x0A]" using Cons.prems by (intro fgets_line) auto
  then show ?case using Cons by (subst file_lines.simps) simp
qed

end
