(* ===== verification/Shim_Enroll.thy ===== *)
theory Shim_Enroll
  imports C_Strings "HOL-Library.Monad_Syntax"
begin

text \<open>
  The startup rendezvous of the shim, \<open>src/shim/core/enroll.h\<close> and \<open>src/shim/core/enroll.cc\<close>: the
  name of the socket from the process's own mappings, the one deadline of an exchange, the retry
  loops around blocking calls, and the wait for the consumer's status byte.

  The kernel is a parameter \<open>os\<close>: what each system call answers and how long it takes, as a function
  of the number of the call. A loop that a signal can send round again is a partial function; the
  lemmas show that it returns.

  The lemmas show that the name is the device and inode of the mapping that holds the address, that
  different images have different names, that an exchange ends within its budget whatever signals
  arrive, closes its descriptor, and is confirmed only by the byte the consumer sends.
\<close>

section \<open>The name of the rendezvous\<close>

text \<open>One line of \<open>/proc/<pid>/maps\<close>: the conversions of the format \<open>%lx-%lx %7s %lx %x:%x %lu\<close>.\<close>

definition sscanf_maps :: "string \<Rightarrow> (u64 \<times> u64 \<times> u32 \<times> u32 \<times> u64) option" where
  "sscanf_maps line = do {
     (lo, s) \<leftarrow> sc_num 16 (takeWhile (\<lambda>c. c \<noteq> CHR 0x00) line);
     s \<leftarrow> sc_lit (CHR ''-'') s;
     (hi, s) \<leftarrow> sc_num 16 s;
     (perms, s) \<leftarrow> sc_word 7 s;
     (off, s) \<leftarrow> sc_num 16 s;
     (maj, s) \<leftarrow> sc_num 16 s;
     s \<leftarrow> sc_lit (CHR '':'') s;
     (minr, s) \<leftarrow> sc_num 16 s;
     (ino, s) \<leftarrow> sc_num 10 s;
     Some (lo, hi, ucast maj, ucast minr, ino) }"

definition enroll_name :: "u32 \<Rightarrow> u32 \<Rightarrow> u64 \<Rightarrow> string" where
  "enroll_name maj minr ino =
     ''perfagent-gpu-enroll.v1.'' @ print_num 10 (unat maj) @ ''.'' @ print_num 10 (unat minr) @ ''.'' @ print_num 10 (unat ino)"

fun name_of_lines :: "u64 \<Rightarrow> nat \<Rightarrow> string list \<Rightarrow> string option" where
  "name_of_lines addr outsz [] = None"
| "name_of_lines addr outsz (line # ls) =
     (case sscanf_maps line of None \<Rightarrow> name_of_lines addr outsz ls
      | Some (lo, hi, maj, minr, ino) \<Rightarrow>
          if addr < lo \<or> addr \<ge> hi then name_of_lines addr outsz ls
          else if ino = 0 then None
          else let n = enroll_name maj minr ino in if length n < outsz then Some n else None)"

text \<open>
  \<open>None\<close> is the result false, with the empty string in the buffer. The file is \<open>None\<close> when it cannot
  be opened; the line buffer has 4096 bytes.
\<close>

definition enroll_name_from_maps :: "string option \<Rightarrow> u64 \<Rightarrow> nat \<Rightarrow> string option" where
  "enroll_name_from_maps maps addr outsz =
     (if outsz = 0 then None
      else case maps of None \<Rightarrow> None | Some text_of \<Rightarrow> name_of_lines addr outsz (file_lines 4094 text_of))"

definition enroll_self_name :: "string option \<Rightarrow> u64 \<Rightarrow> nat \<Rightarrow> string option" where
  "enroll_self_name self_maps self outsz = enroll_name_from_maps self_maps self outsz"

section \<open>System calls\<close>

datatype errno = EINTR | EISCONN | EAGAIN | EWOULDBLOCK | EINPROGRESS | ECONNREFUSED | ENOENT | EOther int

type_synonym timeval = "int \<times> int"

text \<open>
  What the kernel does at call number \<open>n\<close>: its answers, the nanoseconds a call takes, and the
  nanoseconds a blocking call takes under the timeout in force. A read gives an error, the end of
  the stream or one byte; \<open>o_write\<close> and \<open>o_sendmsg\<close> give the number of bytes taken; \<open>o_add_seals\<close>
  the seals it applied.
\<close>

record os =
  o_cost :: "nat \<Rightarrow> int"
  o_wait :: "nat \<Rightarrow> timeval \<Rightarrow> int"
  o_socket :: "nat \<Rightarrow> int"
  o_setsockopt :: "nat \<Rightarrow> bool"
  o_connect :: "nat \<Rightarrow> errno option"
  o_read :: "nat \<Rightarrow> errno + u8 option"
  o_sendmsg :: "nat \<Rightarrow> errno + nat"
  o_memfd :: "nat \<Rightarrow> int"
  o_write :: "nat \<Rightarrow> errno + nat"
  o_add_seals :: "nat \<Rightarrow> u32 option"
  o_get_seals :: "nat \<Rightarrow> bool"

text \<open>
  The process: calls made, the monotonic clock, the timeouts of the socket in use, open
  descriptors, memory files with their contents and seals, the whole headers the peer was sent with
  the file passed along, the last status byte read, and the counters of the offers.
\<close>

record proc =
  p_calls :: nat
  p_ns :: int
  p_snd :: timeval
  p_rcv :: timeval
  p_fds :: "int list"
  p_mem :: "int \<rightharpoonup> u8 list \<times> u32"
  p_sent :: "(u8 list \<times> (u8 list \<times> u32) option) list"
  p_reply :: "u8 option"
  p_offered :: u64
  p_send_failed :: u64

definition sys_call :: "os \<Rightarrow> proc \<Rightarrow> proc" where
  "sys_call os s = s\<lparr>p_calls := Suc (p_calls s), p_ns := p_ns s + o_cost os (p_calls s)\<rparr>"

definition sys_block :: "os \<Rightarrow> timeval \<Rightarrow> proc \<Rightarrow> proc" where
  "sys_block os tv s = s\<lparr>p_calls := Suc (p_calls s), p_ns := p_ns s + o_wait os (p_calls s) tv\<rparr>"

definition sys_socket :: "os \<Rightarrow> proc \<Rightarrow> int \<times> proc" where
  "sys_socket os s =
     (let fd = o_socket os (p_calls s); s = sys_call os s
      in (fd, if fd < 0 then s else s\<lparr>p_fds := fd # p_fds s, p_snd := (0, 0), p_rcv := (0, 0)\<rparr>))"

definition sys_close :: "os \<Rightarrow> int \<Rightarrow> proc \<Rightarrow> proc" where
  "sys_close os fd s = (sys_call os s)\<lparr>p_fds := remove1 fd (p_fds s)\<rparr>"

section \<open>One deadline\<close>

definition now_ms :: "os \<Rightarrow> proc \<Rightarrow> int \<times> proc" where
  "now_ms os s =
     (let s = sys_call os s; tv_sec = p_ns s div 1000000000; tv_nsec = p_ns s mod 1000000000
      in (tv_sec * 1000 + tv_nsec div 1000000, s))"

definition deadline_in :: "os \<Rightarrow> u32 \<Rightarrow> proc \<Rightarrow> int \<times> proc" where
  "deadline_in os budget_ms s = (let (t, s) = now_ms os s in (t + int (unat budget_ms), s))"

definition deadline_left :: "os \<Rightarrow> int \<Rightarrow> proc \<Rightarrow> int \<times> proc" where
  "deadline_left os dl s = (let (t, s) = now_ms os s; d = dl - t in (if d > 0 then d else 0, s))"

definition arm :: "os \<Rightarrow> int \<Rightarrow> proc \<Rightarrow> bool \<times> proc" where
  "arm os dl s =
     (let (left, s) = deadline_left os dl s
      in if left \<le> 0 then (False, s)
         else
           let tv = (left div 1000, (left mod 1000) * 1000); ok = o_setsockopt os (p_calls s); s = sys_call os s
           in if \<not> ok then (False, s)
              else
                let s = s\<lparr>p_snd := tv\<rparr>; ok = o_setsockopt os (p_calls s); s = sys_call os s
                in if \<not> ok then (False, s) else (True, s\<lparr>p_rcv := tv\<rparr>))"

text \<open>
  The loop around a blocking call: the timeouts are armed from what is left, then the call is made;
  \<open>None\<close> from the attempt is the interrupted call that is made again.
\<close>

partial_function (option) retry_loop :: "os \<Rightarrow> 'r \<Rightarrow> (proc \<Rightarrow> 'r option \<times> proc) \<Rightarrow> int \<Rightarrow> proc \<Rightarrow> ('r \<times> proc) option" where
  "retry_loop os timed_out attempt dl s =
     (case arm os dl s of (armed, s) \<Rightarrow>
        if \<not> armed then Some (timed_out, s)
        else (case attempt s of (r, s) \<Rightarrow> (case r of Some r \<Rightarrow> Some (r, s) | None \<Rightarrow> retry_loop os timed_out attempt dl s)))"

text \<open>The result of a connect, by the values the caller gives its outcomes.\<close>

definition try_connect :: "os \<Rightarrow> 'r \<Rightarrow> 'r \<Rightarrow> 'r \<Rightarrow> 'r \<Rightarrow> proc \<Rightarrow> 'r option \<times> proc" where
  "try_connect os connected timed_out no_listener error s =
     (let r = o_connect os (p_calls s); s = sys_block os (p_snd s) s
      in (case r of None \<Rightarrow> Some connected
          | Some e \<Rightarrow>
              if e = EISCONN then Some connected
              else if e = EINTR then None
              else if e = EAGAIN \<or> e = EWOULDBLOCK \<or> e = EINPROGRESS then Some timed_out
              else if e = ECONNREFUSED \<or> e = ENOENT then Some no_listener
              else Some error, s))"

definition try_reply :: "os \<Rightarrow> (u8 \<Rightarrow> 'r) \<Rightarrow> 'r \<Rightarrow> 'r \<Rightarrow> proc \<Rightarrow> 'r option \<times> proc" where
  "try_reply os judge timed_out error s =
     (let r = o_read os (p_calls s); s = sys_block os (p_rcv s) s
      in case r of
           Inr (Some b) \<Rightarrow> (Some (judge b), s\<lparr>p_reply := Some b\<rparr>)
         | Inr None \<Rightarrow> (Some error, s)
         | Inl e \<Rightarrow> (if e = EINTR then None else if e = EAGAIN \<or> e = EWOULDBLOCK then Some timed_out else Some error, s))"

section \<open>The rendezvous\<close>

datatype EnrollResult =
  kEnrollDisabled | kEnrollNoAddress | kEnrollNoListener | kEnrollConfirmed | kEnrollRefused | kEnrollTimedOut | kEnrollError

fun enroll_result_name :: "EnrollResult \<Rightarrow> string" where
  "enroll_result_name kEnrollDisabled = ''disabled''"
| "enroll_result_name kEnrollNoAddress = ''no-address''"
| "enroll_result_name kEnrollNoListener = ''no-listener''"
| "enroll_result_name kEnrollConfirmed = ''confirmed''"
| "enroll_result_name kEnrollRefused = ''refused''"
| "enroll_result_name kEnrollTimedOut = ''timed-out''"
| "enroll_result_name kEnrollError = ''error''"

abbreviation sun_path_size :: nat where "sun_path_size \<equiv> 108"

abbreviation reply_ok :: u8 where "reply_ok \<equiv> 75"

definition enroll_connect :: "os \<Rightarrow> string \<Rightarrow> u32 \<Rightarrow> proc \<Rightarrow> (EnrollResult \<times> proc) option" where
  "enroll_connect os name timeout_ms s =
     (if name = [] then Some (kEnrollNoAddress, s)
      else if length name + 1 > sun_path_size then Some (kEnrollNoAddress, s)
      else
        let (fd, s) = sys_socket os s
        in if fd < 0 then Some (kEnrollError, s)
           else
             let (dl, s) = deadline_in os timeout_ms s
             in do {
               (res, s) \<leftarrow> retry_loop os kEnrollTimedOut (try_connect os kEnrollConfirmed kEnrollTimedOut kEnrollNoListener kEnrollError) dl s;
               if res \<noteq> kEnrollConfirmed then Some (res, sys_close os fd s)
               else do {
                 (res, s) \<leftarrow> retry_loop os kEnrollTimedOut
                   (try_reply os (\<lambda>b. if b = reply_ok then kEnrollConfirmed else kEnrollRefused) kEnrollTimedOut kEnrollError) dl s;
                 Some (res, sys_close os fd s) } })"

definition enroll_with_consumer :: "os \<Rightarrow> string option \<Rightarrow> u64 \<Rightarrow> u32 \<Rightarrow> proc \<Rightarrow> (EnrollResult \<times> proc) option" where
  "enroll_with_consumer os self_maps self timeout_ms s =
     (if timeout_ms = 0 then Some (kEnrollDisabled, s)
      else case enroll_name_from_maps self_maps self sun_path_size of
        None \<Rightarrow> Some (kEnrollNoAddress, s)
      | Some name \<Rightarrow> enroll_connect os name timeout_ms s)"

text \<open>The budget from the environment; \<open>v\<close> is the variable's value.\<close>

definition enroll_timeout_ms :: "string option \<Rightarrow> u32 \<Rightarrow> u32" where
  "enroll_timeout_ms v dflt =
     (case v of None \<Rightarrow> dflt
      | Some v \<Rightarrow>
          if v = [] then dflt
          else case strtol 10 v of (n, erange, rest) \<Rightarrow>
            if erange \<or> rest = v \<or> rest \<noteq> [] \<or> n < 0 \<or> n > 600000 then dflt else of_int n)"

section \<open>The name identifies the image\<close>

text \<open>A mapping as the kernel prints it.\<close>

record mapping =
  vm_start :: u64
  vm_end :: u64
  vm_perms :: string
  vm_off :: u64
  vm_maj :: u32
  vm_min :: u32
  vm_ino :: u64
  vm_tail :: string

definition hex :: "nat \<Rightarrow> u64 \<Rightarrow> string" where
  "hex k w = pad k (print_num 16 (unat w))"

definition maps_line :: "mapping \<Rightarrow> string" where
  "maps_line m = hex 8 (vm_start m) @ ''-'' @ hex 8 (vm_end m) @ '' '' @ vm_perms m @ '' '' @ hex 8 (vm_off m) @ '' '' @
     hex 2 (ucast (vm_maj m)) @ '':'' @ hex 2 (ucast (vm_min m)) @ '' '' @ print_num 10 (unat (vm_ino m)) @ vm_tail m"

definition maps_file :: "mapping list \<Rightarrow> string" where
  "maps_file ms = concat (map (\<lambda>m. maps_line m @ [CHR 0x0A]) ms)"

definition plain :: "char \<Rightarrow> bool" where
  "plain c \<longleftrightarrow> c \<noteq> CHR 0x00 \<and> c \<noteq> CHR 0x0A"

definition mapping_ok :: "mapping \<Rightarrow> bool" where
  "mapping_ok m \<longleftrightarrow> length (vm_perms m) = 4 \<and> list_all (\<lambda>c. \<not> is_space c \<and> plain c) (vm_perms m) \<and>
     (vm_tail m = [] \<or> hd (vm_tail m) = CHR '' '') \<and> list_all plain (vm_tail m) \<and> length (vm_tail m) \<le> 3900"

definition covers :: "u64 \<Rightarrow> mapping \<Rightarrow> bool" where
  "covers addr m \<longleftrightarrow> vm_start m \<le> addr \<and> addr < vm_end m"

lemma digits_plain: "b \<le> 36 \<Longrightarrow> list_all (is_digit b) ds \<Longrightarrow> list_all plain ds"
  by (auto simp: list_all_iff plain_def is_digit_def digit_val_def)

lemma print_num_plain: "2 \<le> b \<Longrightarrow> b \<le> 36 \<Longrightarrow> list_all plain (print_num b n)"
  using print_num_digits [of b n] digits_plain [of b] by blast

lemma hex_plain: "list_all plain (hex k w)"
  using print_num_plain [of 16 "unat w"] list_all_replicateI [of plain "CHR ''0''"] by (simp add: hex_def pad_def plain_def)

lemma hex_length: "k \<le> 16 \<Longrightarrow> length (hex k w) \<le> 16"
  using print_num_length [of 16 "unat w" 16] unat_u64_lt [of w] by (simp add: hex_def pad_def)

lemma mapping_ok_line: "list_all plain (maps_line m) \<and> length (maps_line m) \<le> 4094" if "mapping_ok m"
proof
  show "list_all plain (maps_line m)"
    using that print_num_plain [of 10 "unat (vm_ino m)"] list_all_impI [of "\<lambda>c. \<not> is_space c \<and> plain c" "vm_perms m" plain]
    by (simp add: maps_line_def mapping_ok_def hex_plain) (simp add: plain_def)
  have "unat (vm_ino m) < 10 ^ 20" by (rule less_trans [OF unsigned_less], simp)
  from print_num_length [OF _ this] show "length (maps_line m) \<le> 4094"
    using that hex_length [of 8 "vm_start m"] hex_length [of 8 "vm_end m"] hex_length [of 8 "vm_off m"]
      hex_length [of 2 "ucast (vm_maj m)"] hex_length [of 2 "ucast (vm_min m)"]
    by (simp add: maps_line_def mapping_ok_def)
qed

lemma sc_num_hex:
  "no_digit 16 rest \<Longrightarrow> rest = [] \<or> hd rest \<notin> {CHR ''x'', CHR ''X''} \<Longrightarrow> sc_num 16 (hex k w @ rest) = Some (w, rest)"
  by (simp add: hex_def sc_num_print)

lemma sc_num_dec:
  "no_digit 10 rest \<Longrightarrow> rest = [] \<or> hd rest \<notin> {CHR ''x'', CHR ''X''} \<Longrightarrow> sc_num 10 (print_num 10 (unat (w :: u64)) @ rest) = Some (w, rest)"
  using sc_num_print [of 10 rest 0 w] by simp

lemma ucast_ucast_u32: "ucast (ucast (w :: u32) :: u64) = w"
  by (rule bit_word_eqI) (simp add: bit_simps)

lemma separators_no_digit: "no_digit b (CHR ''-'' # s)" "b \<le> 36 \<Longrightarrow> no_digit b (CHR '' '' # s)" "b \<le> 36 \<Longrightarrow> no_digit b (CHR '':'' # s)"
  "b \<le> 36 \<Longrightarrow> no_digit b (CHR 0x0A # s)"
  if "b \<le> 36"
  using that by (simp_all add: no_digit_def is_digit_def digit_val_def)

lemma sscanf_maps_line:
  assumes "mapping_ok m"
  shows "sscanf_maps (maps_line m @ [CHR 0x0A]) = Some (vm_start m, vm_end m, vm_maj m, vm_min m, vm_ino m)"
proof -
  let ?tail = "vm_tail m @ [CHR 0x0A]"
  have nul: "takeWhile (\<lambda>c. c \<noteq> CHR 0x00) (maps_line m @ [CHR 0x0A]) = maps_line m @ [CHR 0x0A]"
    using not_in_list_all [of plain "maps_line m" "CHR 0x00"] mapping_ok_line [OF assms] by (intro takeWhile_eq_all_conv [THEN iffD2]) (auto simp: plain_def)
  have t: "no_digit 10 ?tail" "hd ?tail \<notin> {CHR ''x'', CHR ''X''}"
    using assms separators_no_digit [of 10] by (cases "vm_tail m"; auto simp: mapping_ok_def)+
  have w: "sc_word 7 (vm_perms m @ CHR '' '' # r) = Some (vm_perms m, CHR '' '' # r)" for r
    using assms by (intro sc_word_exact) (auto simp: mapping_ok_def is_space_def intro: list_all_impI)
  have p: "sc_num 10 (print_num 10 (unat (vm_ino m)) @ ?tail) = Some (vm_ino m, ?tail)" by (rule sc_num_dec) (use t in auto)
  show ?thesis
    unfolding sscanf_maps_def nul
    by (simp add: maps_line_def sc_num_hex separators_no_digit w p ucast_ucast_u32)
qed

lemma name_of_maps_lines:
  assumes "list_all mapping_ok ms"
  shows "name_of_lines addr outsz (map (\<lambda>m. maps_line m @ [CHR 0x0A]) ms) =
    (case find (covers addr) ms of None \<Rightarrow> None
     | Some m \<Rightarrow> if vm_ino m = 0 then None
         else let n = enroll_name (vm_maj m) (vm_min m) (vm_ino m) in if length n < outsz then Some n else None)"
  using assms by (induction ms) (auto simp: sscanf_maps_line covers_def not_le)

lemma name_from_maps:
  assumes "list_all mapping_ok ms" and "0 < outsz"
  shows "enroll_name_from_maps (Some (maps_file ms)) addr outsz =
    (case find (covers addr) ms of None \<Rightarrow> None
     | Some m \<Rightarrow> if vm_ino m = 0 then None
         else let n = enroll_name (vm_maj m) (vm_min m) (vm_ino m) in if length n < outsz then Some n else None)"
proof -
  have "list_all (\<lambda>l. CHR 0x0A \<notin> set l \<and> length l \<le> 4094) (map maps_line ms)"
    unfolding list_all_iff set_map
  proof (rule ballI, erule imageE)
    fix l m
    assume "l = maps_line m" "m \<in> set ms"
    moreover from this(2) assms(1) have "mapping_ok m" by (simp only: list_all_iff)
    ultimately show "CHR 0x0A \<notin> set l \<and> length l \<le> 4094" using mapping_ok_line [of m] not_in_list_all [of plain "maps_line m" "CHR 0x0A"] by (simp only: plain_def simp_thms)
  qed
  from file_lines_concat [OF this] have l: "file_lines 4094 (maps_file ms) = map (\<lambda>m. maps_line m @ [CHR 0x0A]) ms"
    by (simp only: maps_file_def map_map comp_def)
  show ?thesis
    unfolding enroll_name_from_maps_def option.case l name_of_maps_lines [OF assms(1)] by (subst if_not_P) (use assms(2) in simp, rule refl)
qed

lemma enroll_name_length: "length (enroll_name maj minr ino) \<le> 66"
proof -
  have "unat maj < 10 ^ 10" "unat minr < 10 ^ 10" "unat ino < 10 ^ 20"
    by (rule less_trans [OF unsigned_less], simp)+
  then have "length (print_num 10 (unat maj)) \<le> 10" "length (print_num 10 (unat minr)) \<le> 10" "length (print_num 10 (unat ino)) \<le> 20"
    by (simp_all add: print_num_length)
  then show ?thesis by (simp add: enroll_name_def)
qed

lemma digits_then_dot:
  assumes "print_num 10 m @ CHR ''.'' # s = print_num 10 n @ CHR ''.'' # t"
  shows "m = n \<and> s = t"
proof -
  have d: "list_all (is_digit 10) (print_num 10 k)" for k using print_num_digits [of 10 k] by simp
  have dot: "\<not> is_digit 10 (CHR ''.'')" by (simp add: is_digit_def digit_val_def)
  have "takeWhile (is_digit 10) (print_num 10 k @ CHR ''.'' # r) = print_num 10 k" for k r
    using d [of k] dot by (simp add: list_all_iff)
  then have "print_num 10 m = print_num 10 n" using assms by metis
  then show ?thesis using assms print_num_inj [of 10 m n] by simp
qed

lemma enroll_name_inj: "enroll_name a b c = enroll_name a' b' c' \<Longrightarrow> a = a' \<and> b = b' \<and> c = c'"
  unfolding enroll_name_def using print_num_inj [of 10 "unat c" "unat c'"]
  by (auto dest!: digits_then_dot simp: word_unat_eq_iff)

section \<open>An exchange ends within its budget\<close>

text \<open>
  What the exchange relies on of the kernel: time passes and a call that does not block takes at
  most \<open>eps\<close>; a call that may block returns within the timeout in force and \<open>eps\<close>, unless the timeout
  is zero, which means no timeout (\<open>socket(7)\<close>, \<open>SO_RCVTIMEO\<close> and \<open>SO_SNDTIMEO\<close>).
\<close>

definition tv_ns :: "timeval \<Rightarrow> int" where
  "tv_ns tv = fst tv * 1000000000 + snd tv * 1000"

definition os_ok :: "int \<Rightarrow> os \<Rightarrow> bool" where
  "os_ok eps os \<longleftrightarrow> (\<forall>n. 0 < o_cost os n \<and> o_cost os n \<le> eps) \<and>
     (\<forall>n tv. 0 \<le> o_wait os n tv \<and> (0 < tv_ns tv \<longrightarrow> o_wait os n tv \<le> tv_ns tv + eps))"

text \<open>What no call of a waiting loop touches.\<close>

definition same_res :: "proc \<Rightarrow> proc \<Rightarrow> bool" where
  "same_res s s' \<longleftrightarrow> p_fds s' = p_fds s \<and> p_mem s' = p_mem s \<and> p_offered s' = p_offered s \<and> p_send_failed s' = p_send_failed s"

lemma same_res_refl [simp]: "same_res s s"
  by (simp add: same_res_def)

lemma same_res_trans [trans]: "same_res a b \<Longrightarrow> same_res b c \<Longrightarrow> same_res a c"
  by (simp add: same_res_def)

lemma cost_bounds: "os_ok eps os \<Longrightarrow> 0 < o_cost os n \<and> o_cost os n \<le> eps"
  by (simp add: os_ok_def)

lemma now_ms_eq: "now_ms os s = (p_ns (sys_call os s) div 1000000, sys_call os s)"
proof -
  have "ns div 1000000000 * 1000 + ns mod 1000000000 div 1000000 = ns div 1000000" for ns :: int
    using div_mult_self1 [of 1000000 "ns mod 1000000000" "ns div 1000000000 * 1000"] mod_div_mult_eq [of ns 1000000000]
    by (simp add: algebra_simps)
  then show ?thesis by (simp add: now_ms_def Let_def)
qed

lemma deadline_left_eq: "deadline_left os dl s = (max 0 (dl - p_ns (sys_call os s) div 1000000), sys_call os s)"
  by (simp add: deadline_left_def now_ms_eq Let_def max_def)

text \<open>The latest moment a call armed from a deadline can return.\<close>

definition latest :: "int \<Rightarrow> int \<Rightarrow> int" where
  "latest eps dl = dl * 1000000 + 1000000 + 3 * eps"

definition armed_for :: "int \<Rightarrow> int \<Rightarrow> proc \<Rightarrow> bool" where
  "armed_for eps dl s \<longleftrightarrow> p_snd s = p_rcv s \<and> 0 < tv_ns (p_rcv s) \<and> p_ns s + tv_ns (p_rcv s) + eps \<le> latest eps dl"

lemma left_ns: "tv_ns ((left :: int) div 1000, left mod 1000 * 1000) = left * 1000000"
  unfolding tv_ns_def fst_conv snd_conv by presburger

lemma arm_spec:
  assumes "os_ok eps os" and "arm os dl s = (ok, s')"
  shows "p_ns s < p_ns s' \<and> p_ns s' \<le> p_ns s + 3 * eps \<and> same_res s s' \<and> p_sent s' = p_sent s \<and> p_reply s' = p_reply s"
    and "ok \<Longrightarrow> armed_for eps dl s' \<and> p_ns s < dl * 1000000 + 1000000"
proof -
  define s1 where "s1 = sys_call os s"
  define left where "left = max 0 (dl - p_ns s1 div 1000000)"
  define s2 where "s2 = (sys_call os s1)\<lparr>p_snd := (left div 1000, left mod 1000 * 1000)\<rparr>"
  define s3 where "s3 = (sys_call os s2)\<lparr>p_rcv := (left div 1000, left mod 1000 * 1000)\<rparr>"
  have a: "arm os dl s = (if left \<le> 0 then (False, s1) else if \<not> o_setsockopt os (p_calls s1) then (False, sys_call os s1)
      else if \<not> o_setsockopt os (p_calls s2) then (False, sys_call os s2) else (True, s3))"
    unfolding arm_def deadline_left_eq s1_def [symmetric] left_def [symmetric] s2_def s3_def by (simp add: Let_def)
  note c = cost_bounds [OF assms(1)]
  have t: "p_ns s1 = p_ns s + o_cost os (p_calls s)" "p_ns s2 = p_ns s1 + o_cost os (p_calls s1)" "p_ns s3 = p_ns s2 + o_cost os (p_calls s2)"
    by (simp_all add: s1_def s2_def s3_def sys_call_def)
  have t': "p_ns (sys_call os s1) = p_ns s2" "p_ns (sys_call os s2) = p_ns s3" by (simp_all add: s2_def s3_def)
  note cs = c [of "p_calls s"] c [of "p_calls s1"] c [of "p_calls s2"]
  show "p_ns s < p_ns s' \<and> p_ns s' \<le> p_ns s + 3 * eps \<and> same_res s s' \<and> p_sent s' = p_sent s \<and> p_reply s' = p_reply s"
    using assms(2) t t' cs unfolding a
    by (auto simp: s1_def s2_def s3_def sys_call_def same_res_def split: if_splits)
  assume ok
  with assms(2) have s': "s' = s3" "left > 0" unfolding a by (auto split: if_splits)
  have l: "left = dl - p_ns s1 div 1000000" using s'(2) by (simp add: left_def max_def split: if_splits)
  have "left * 1000000 + p_ns s1 \<le> dl * 1000000 + 1000000" unfolding l by presburger
  moreover have "0 < tv_ns (left div 1000, left mod 1000 * 1000)" using s'(2) by (simp add: left_ns)
  ultimately show "armed_for eps dl s' \<and> p_ns s < dl * 1000000 + 1000000"
    using t cs s' by (simp add: armed_for_def latest_def left_ns s3_def s2_def sys_call_def)
qed

text \<open>
  The contract of one attempt at a blocking call: made under an armed timeout it returns by the
  latest moment and touches no descriptor or counter.
\<close>

locale blocking_attempt =
  fixes os :: os and eps :: int and attempt :: "proc \<Rightarrow> 'r option \<times> proc"
  assumes attempt_time: "os_ok eps os \<Longrightarrow> armed_for eps dl s \<Longrightarrow> attempt s = (r, s') \<Longrightarrow> p_ns s \<le> p_ns s' \<and> p_ns s' \<le> latest eps dl"
    and attempt_res: "attempt s = (r, s') \<Longrightarrow> same_res s s'"
begin

text \<open>Whatever interrupts it, the loop around such an attempt returns, and in time.\<close>

lemma loop_returns:
  assumes "os_ok eps os" and "p_ns s \<le> latest eps dl"
  shows "\<exists>r s'. retry_loop os timed_out attempt dl s = Some (r, s') \<and> same_res s s' \<and> p_ns s \<le> p_ns s' \<and> p_ns s' \<le> latest eps dl + 3 * eps \<and>
    (r \<noteq> timed_out \<longrightarrow> p_ns s' \<le> latest eps dl)"
  using assms(2)
proof (induction "nat (dl * 1000000 + 1000000 - p_ns s)" arbitrary: s rule: less_induct)
  case less
  obtain ok s1 where a: "arm os dl s = (ok, s1)" by fastforce
  note sp = arm_spec [OF assms(1) a]
  show ?case
  proof (cases ok)
    case False
    with a sp less.prems show ?thesis by (subst retry_loop.simps) simp
  next
    case True
    obtain r s2 where t: "attempt s1 = (r, s2)" by fastforce
    have b: "p_ns s1 \<le> p_ns s2" "p_ns s2 \<le> latest eps dl" and rs: "same_res s s2"
      using attempt_time [OF assms(1) _ t, of dl] sp True attempt_res [OF t] by (auto intro: same_res_trans)
    have d: "nat (dl * 1000000 + 1000000 - p_ns s2) < nat (dl * 1000000 + 1000000 - p_ns s)" using sp True b by simp
    show ?thesis
    proof (cases r)
      case (Some q)
      with a t True b sp rs show ?thesis by (subst retry_loop.simps) (auto simp: assms(1) intro: order_trans)
    next
      case None
      from less.hyps [OF d b(2)] obtain q s' where ih: "retry_loop os timed_out attempt dl s2 = Some (q, s')" "same_res s2 s'"
        "p_ns s2 \<le> p_ns s'" "p_ns s' \<le> latest eps dl + 3 * eps" "q \<noteq> timed_out \<longrightarrow> p_ns s' \<le> latest eps dl"
        by blast
      then show ?thesis using a t True None sp b same_res_trans [OF rs ih(2)] by (subst retry_loop.simps) auto
    qed
  qed
qed

lemma loop_phase:
  assumes "os_ok eps os" and "p_ns s \<le> latest eps dl"
  obtains r s' where "retry_loop os timed_out attempt dl s = Some (r, s')" "same_res s s'" "p_ns s' \<le> latest eps dl + 3 * eps"
    "r \<noteq> timed_out \<longrightarrow> p_ns s' \<le> latest eps dl"
  using loop_returns [OF assms] by blast

end

text \<open>Induction over the rounds of the loop.\<close>

lemma retry_loop_induct [consumes 1, case_names timeout answer again]:
  assumes "retry_loop os timed_out attempt dl s = Some (r, s')"
    and "\<And>s s'. arm os dl s = (False, s') \<Longrightarrow> P s timed_out s'"
    and "\<And>s s1 r s'. arm os dl s = (True, s1) \<Longrightarrow> attempt s1 = (Some r, s') \<Longrightarrow> P s r s'"
    and "\<And>s s1 s2 r s'. arm os dl s = (True, s1) \<Longrightarrow> attempt s1 = (None, s2) \<Longrightarrow> P s2 r s' \<Longrightarrow> P s r s'"
  shows "P s r s'"
proof -
  have "os = os \<longrightarrow> timed_out = timed_out \<longrightarrow> attempt = attempt \<longrightarrow> dl = dl \<longrightarrow> P s (fst (r, s')) (snd (r, s'))"
    by (rule retry_loop.raw_induct [of "\<lambda>os' t' at' dl' s y. os' = os \<longrightarrow> t' = timed_out \<longrightarrow> at' = attempt \<longrightarrow> dl' = dl \<longrightarrow>
          P s (fst y) (snd y)", OF _ assms(1)])
      (auto intro: assms(2-4) split: prod.splits if_splits option.splits)
  then show ?thesis by simp
qed

text \<open>A result other than the timeout is the answer of the last attempt.\<close>

lemma retry_loop_answer:
  assumes "retry_loop os timed_out attempt dl s = Some (r, s')"
  shows "r = timed_out \<or> (\<exists>s0. attempt s0 = (Some r, s'))"
  using assms by (induction rule: retry_loop_induct) auto

section \<open>The calls of the exchanges\<close>

lemma wait_bounds: "os_ok eps os \<Longrightarrow> 0 \<le> o_wait os n tv \<and> (0 < tv_ns tv \<longrightarrow> o_wait os n tv \<le> tv_ns tv + eps)"
  unfolding os_ok_def by blast

lemma armed_block:
  assumes "os_ok eps os" and "armed_for eps dl s" and "tv = p_snd s \<or> tv = p_rcv s"
  shows "p_ns s \<le> p_ns (sys_block os tv s) \<and> p_ns (sys_block os tv s) \<le> latest eps dl"
  using assms(2,3) wait_bounds [OF assms(1), of "p_calls s" tv] by (auto simp: armed_for_def sys_block_def)

lemma same_res_block [simp]: "same_res s (sys_block os tv s)"
  by (simp add: same_res_def sys_block_def)

interpretation connecting: blocking_attempt os eps "try_connect os connected timed_out no_listener error"
  by unfold_locales (auto simp: try_connect_def Let_def dest: armed_block)

interpretation replying: blocking_attempt os eps "try_reply os judge timed_out error"
proof
  fix dl s r s'
  assume "os_ok eps os" "armed_for eps dl s" "try_reply os judge timed_out error s = (r, s')"
  then show "p_ns s \<le> p_ns s' \<and> p_ns s' \<le> latest eps dl"
    using armed_block [of eps os dl s "p_rcv s"] by (auto simp: try_reply_def Let_def split: sum.splits option.splits)
next
  fix s r s'
  assume "try_reply os judge timed_out error s = (r, s')"
  then show "same_res s s'"
    using same_res_block [of s os "p_rcv s"] by (auto simp: try_reply_def Let_def same_res_def split: sum.splits option.splits)
qed

text \<open>Opening the exchange: the descriptor, the deadline, and what they leave of the budget.\<close>

lemma sys_socket_spec:
  assumes "os_ok eps os" and "sys_socket os s = (fd, s')"
  shows "p_ns s < p_ns s' \<and> p_ns s' \<le> p_ns s + eps \<and> p_fds s' = (if fd < 0 then p_fds s else fd # p_fds s) \<and> p_mem s' = p_mem s \<and>
    p_offered s' = p_offered s \<and> p_send_failed s' = p_send_failed s"
  using assms(2) cost_bounds [OF assms(1), of "p_calls s"] by (auto simp: sys_socket_def sys_call_def Let_def)

lemma deadline_in_spec:
  assumes "os_ok eps os" and "deadline_in os t s = (dl, s')"
  shows "p_ns s < p_ns s' \<and> p_ns s' \<le> p_ns s + eps \<and> same_res s s' \<and> p_ns s' \<le> latest eps dl \<and>
    dl * 1000000 \<le> p_ns s' + int (unat t) * 1000000"
proof -
  define T where "T = int (unat t)"
  have T: "0 \<le> T" by (simp add: T_def)
  have s': "s' = sys_call os s" and dl: "dl = p_ns s' div 1000000 + T"
    using assms(2) by (auto simp: deadline_in_def now_ms_eq Let_def T_def)
  have "p_ns s' \<le> (p_ns s' div 1000000) * 1000000 + 1000000" "(p_ns s' div 1000000) * 1000000 \<le> p_ns s'"
    using minus_mod_eq_div_mult [of "p_ns s'" 1000000] pos_mod_bound [of 1000000 "p_ns s'"] pos_mod_sign [of 1000000 "p_ns s'"] by linarith+
  then show ?thesis
    using cost_bounds [OF assms(1), of "p_calls s"] T unfolding T_def [symmetric]
    by (simp add: dl latest_def same_res_def) (simp add: s' sys_call_def)
qed

lemma sys_close_spec:
  assumes "os_ok eps os"
  shows "p_ns s < p_ns (sys_close os fd s) \<and> p_ns (sys_close os fd s) \<le> p_ns s + eps \<and> p_fds (sys_close os fd s) = remove1 fd (p_fds s) \<and>
    p_reply (sys_close os fd s) = p_reply s \<and> p_mem (sys_close os fd s) = p_mem s \<and> p_sent (sys_close os fd s) = p_sent s \<and>
    p_offered (sys_close os fd s) = p_offered s \<and> p_send_failed (sys_close os fd s) = p_send_failed s"
  using cost_bounds [OF assms, of "p_calls s"] by (simp add: sys_close_def sys_call_def)

text \<open>A socket opened, used until its deadline and closed: the time it takes and what it leaves.\<close>

lemma session:
  assumes "os_ok eps os" and "sys_socket os s = (fd, s1)" and "deadline_in os t s1 = (dl, s2)"
  shows session_time: "p_ns s' \<le> latest eps dl + 3 * eps \<Longrightarrow> p_ns (sys_close os fd s') \<le> p_ns s + int (unat t) * 1000000 + 1000000 + 9 * eps"
    and session_start: "p_ns s \<le> p_ns s + int (unat t) * 1000000 + 1000000 + 9 * eps"
      "p_ns s1 \<le> p_ns s + int (unat t) * 1000000 + 1000000 + 9 * eps" "p_ns s2 \<le> latest eps dl"
    and session_keeps: "same_res s2 s' \<Longrightarrow> 0 \<le> fd \<Longrightarrow>
      p_fds (sys_close os fd s') = p_fds s \<and> p_mem s' = p_mem s \<and> p_offered s' = p_offered s \<and> p_send_failed s' = p_send_failed s"
proof -
  note f = sys_socket_spec [OF assms(1,2)] deadline_in_spec [OF assms(1,3)] sys_close_spec [OF assms(1), of s' fd]
  have T: "0 \<le> int (unat t) * 1000000" by simp
  show "p_ns s' \<le> latest eps dl + 3 * eps \<Longrightarrow> p_ns (sys_close os fd s') \<le> p_ns s + int (unat t) * 1000000 + 1000000 + 9 * eps"
    using f by (simp add: latest_def)
  show "p_ns s \<le> p_ns s + int (unat t) * 1000000 + 1000000 + 9 * eps" "p_ns s1 \<le> p_ns s + int (unat t) * 1000000 + 1000000 + 9 * eps"
    using T f(1) cost_bounds [OF assms(1), of 0] by linarith+
  show "p_ns s2 \<le> latest eps dl" using f(2) by simp
  show "same_res s2 s' \<Longrightarrow> 0 \<le> fd \<Longrightarrow>
      p_fds (sys_close os fd s') = p_fds s \<and> p_mem s' = p_mem s \<and> p_offered s' = p_offered s \<and> p_send_failed s' = p_send_failed s"
    using f by (simp add: same_res_def)
qed

lemma reply_judged:
  assumes "retry_loop os timed_out (try_reply os judge timed_out error) dl s = Some (r, s')" and "r \<noteq> timed_out" and "r \<noteq> error"
  shows "\<exists>b. p_reply s' = Some b \<and> r = judge b"
proof -
  obtain s0 where a: "try_reply os judge timed_out error s0 = (Some r, s')" using retry_loop_answer [OF assms(1)] assms(2) by blast
  show ?thesis
  proof (cases "o_read os (p_calls s0)")
    case (Inl e)
    with a assms(2,3) show ?thesis by (auto simp: try_reply_def Let_def split: if_splits)
  next
    case (Inr b)
    with a assms(3) show ?thesis by (cases b) (auto simp: try_reply_def Let_def)
  qed
qed

section \<open>Properties of the rendezvous\<close>

text \<open>
  C14: the startup rendezvous cannot hold the application. Whatever the kernel answers and however
  many signals interrupt it, the exchange returns; it returns within its budget, up to the
  resolution of a millisecond and the cost of nine system calls; its descriptor is closed on every
  path; and it is reported as confirmed only when the consumer's byte was \<open>K\<close>.
\<close>

theorem enroll_connect_bounded:
  assumes "os_ok eps os"
  shows "\<exists>r s'. enroll_connect os name timeout_ms s = Some (r, s') \<and> p_fds s' = p_fds s \<and>
    p_ns s' \<le> p_ns s + int (unat timeout_ms) * 1000000 + 1000000 + 9 * eps \<and> (r = kEnrollConfirmed \<longrightarrow> p_reply s' = Some reply_ok)"
proof -
  obtain fd s1 where so: "sys_socket os s = (fd, s1)" by fastforce
  obtain dl s2 where de: "deadline_in os timeout_ms s1 = (dl, s2)" by fastforce
  note time = session_time [OF assms so de] and start = session_start [OF assms so de] and keeps = session_keeps [OF assms so de]
  let ?conn = "try_connect os kEnrollConfirmed kEnrollTimedOut kEnrollNoListener kEnrollError"
  let ?rep = "try_reply os (\<lambda>b. if b = reply_ok then kEnrollConfirmed else kEnrollRefused) kEnrollTimedOut kEnrollError"
  obtain r s3 where c: "retry_loop os kEnrollTimedOut ?conn dl s2 = Some (r, s3)" "same_res s2 s3" "p_ns s3 \<le> latest eps dl + 3 * eps"
      "r \<noteq> kEnrollTimedOut \<longrightarrow> p_ns s3 \<le> latest eps dl"
    by (rule connecting.loop_phase [OF assms start(3)])
  show ?thesis
  proof (cases "name = [] \<or> sun_path_size < length name + 1 \<or> fd < 0")
    case True
    then show ?thesis using so start sys_socket_spec [OF assms so] by (auto simp: enroll_connect_def)
  next
    case False
    then have e: "enroll_connect os name timeout_ms s = (if r \<noteq> kEnrollConfirmed then Some (r, sys_close os fd s3)
        else retry_loop os kEnrollTimedOut ?rep dl s3 \<bind> (\<lambda>(res, s). Some (res, sys_close os fd s)))"
      using so de c(1) by (simp add: enroll_connect_def)
    show ?thesis
    proof (cases "r = kEnrollConfirmed")
      case True
      with c(4) have "p_ns s3 \<le> latest eps dl" by simp
      then obtain q s4
        where q: "retry_loop os kEnrollTimedOut ?rep dl s3 = Some (q, s4)" "same_res s3 s4" "p_ns s4 \<le> latest eps dl + 3 * eps"
        by (rule replying.loop_phase [OF assms])
      have "q = kEnrollConfirmed \<longrightarrow> p_reply s4 = Some reply_ok" using reply_judged [OF q(1)] by (auto split: if_splits)
      then show ?thesis
        using e True False q(1) time [OF q(3)] keeps [OF same_res_trans [OF c(2) q(2)]] sys_close_spec [OF assms, of s4 fd] by simp
    next
      case ended: False
      then show ?thesis using e False time [OF c(3)] keeps [OF c(2)] by simp
    qed
  qed
qed

text \<open>
  C19: the name of the rendezvous identifies the image. From a mapping file in the kernel's format
  the name is derived from the first mapping that holds the address, exactly when that mapping is
  backed by a file, and it always fits the socket address; two images with the same name have the
  same device and inode.
\<close>

theorem enroll_name_identifies_image:
  assumes "list_all mapping_ok ms" and "list_all mapping_ok ms'" and "find (covers addr) ms = Some m" and "find (covers addr') ms' = Some m'"
    and "vm_ino m \<noteq> 0" and "vm_ino m' \<noteq> 0"
  shows "\<exists>n n'. enroll_name_from_maps (Some (maps_file ms)) addr sun_path_size = Some n \<and>
    enroll_name_from_maps (Some (maps_file ms')) addr' sun_path_size = Some n' \<and> n \<noteq> [] \<and> length n + 1 \<le> sun_path_size \<and>
    (n = n' \<longleftrightarrow> (vm_maj m, vm_min m, vm_ino m) = (vm_maj m', vm_min m', vm_ino m'))"
proof -
  let ?n = "enroll_name (vm_maj m) (vm_min m) (vm_ino m)" and ?n' = "enroll_name (vm_maj m') (vm_min m') (vm_ino m')"
  have l: "length ?n < sun_path_size" "length ?n' < sun_path_size" by (rule le_less_trans [OF enroll_name_length], simp)+
  have "enroll_name_from_maps (Some (maps_file ms)) addr sun_path_size = Some ?n"
      "enroll_name_from_maps (Some (maps_file ms')) addr' sun_path_size = Some ?n'"
    unfolding name_from_maps [OF assms(1) zero_less_numeral] name_from_maps [OF assms(2) zero_less_numeral] assms(3,4) option.case
    using assms(5,6) l by (simp_all only: if_False if_True Let_def)
  moreover have "?n \<noteq> []" by (simp add: enroll_name_def)
  ultimately show ?thesis using enroll_name_inj l(1) by (intro exI [of _ ?n] exI [of _ ?n']) (auto simp del: length_append)
qed

section \<open>A concrete rendezvous\<close>

text \<open>A kernel that interrupts the first connect, then answers; a call costs a microsecond.\<close>

definition demo_os :: os where
  "demo_os = \<lparr>o_cost = (\<lambda>n. 1000), o_wait = (\<lambda>n tv. 2000), o_socket = (\<lambda>n. 5), o_setsockopt = (\<lambda>n. True),
     o_connect = (\<lambda>n. if n < 8 then Some EINTR else None), o_read = (\<lambda>n. Inr (Some reply_ok)), o_sendmsg = (\<lambda>n. Inr 24),
     o_memfd = (\<lambda>n. 6), o_write = (\<lambda>n. if n = 1 then Inl EINTR else Inr 2), o_add_seals = (\<lambda>n. Some 15), o_get_seals = (\<lambda>n. True)\<rparr>"

definition demo_proc :: proc where
  "demo_proc = \<lparr>p_calls = 0, p_ns = 5000000, p_snd = (0, 0), p_rcv = (0, 0), p_fds = [3], p_mem = Map.empty, p_sent = [], p_reply = None,
     p_offered = 0, p_send_failed = 0\<rparr>"

lemma demo_os_ok: "os_ok 1000000 demo_os"
  by (simp add: os_ok_def demo_os_def)

definition demo_maps :: "mapping list" where
  "demo_maps = [\<lparr>vm_start = 0x400000, vm_end = 0x401000, vm_perms = ''r-xp'', vm_off = 0, vm_maj = 8, vm_min = 1, vm_ino = 77, vm_tail = '' /bin/app''\<rparr>,
     \<lparr>vm_start = 0x7f0000000000, vm_end = 0x7f0000020000, vm_perms = ''r-xp'', vm_off = 0x1000, vm_maj = 253, vm_min = 2, vm_ino = 1234567,
       vm_tail = '' /lib/shim.so''\<rparr>]"

lemma demo_maps_ok: "list_all mapping_ok demo_maps"
  by (simp add: demo_maps_def mapping_ok_def is_space_def plain_def)

theorem enroll_connect_bounded_witness:
  "\<exists>r s'. enroll_connect demo_os ''shim'' 2000 demo_proc = Some (r, s') \<and> p_fds s' = [3] \<and> p_ns s' \<le> 2015000000 \<and>
    (r = kEnrollConfirmed \<longrightarrow> p_reply s' = Some reply_ok)"
  using enroll_connect_bounded [OF demo_os_ok, of "''shim''" 2000 demo_proc] by (simp add: demo_proc_def)

theorem enroll_name_identifies_image_witness:
  "\<exists>n n'. enroll_name_from_maps (Some (maps_file demo_maps)) 0x7f0000000010 sun_path_size = Some n \<and>
    enroll_name_from_maps (Some (maps_file demo_maps)) 0x400020 sun_path_size = Some n' \<and> n \<noteq> n'"
proof -
  have "find (covers 0x7f0000000010) demo_maps = Some (demo_maps ! 1)" "find (covers 0x400020) demo_maps = Some (demo_maps ! 0)"
    by code_simp+
  from enroll_name_identifies_image [OF demo_maps_ok demo_maps_ok this] show ?thesis by (auto simp: demo_maps_def)
qed

end
