(* ===== verification/Shim_Offer.thy ===== *)
theory Shim_Offer
  imports Shim_Enroll Shim_Cubin
begin

text \<open>
  The offer of a module to the consumer, \<open>src/shim/core/cubin.h\<close> and \<open>src/shim/core/cubin.cc\<close>: the
  sealed memory file, the header that travels with its descriptor, the exchange under one deadline
  and the two counters. The deadline, the arming of timeouts and the retry loop are those of
  \<open>Shim_Enroll\<close>; the header is read back by the decoder of \<open>src/gpuprobe/cubin.go\<close>.

  The lemmas show that an accepted offer handed over exactly the bytes, fully sealed, under a header
  the consumer decodes; that every offer is counted once by its outcome; that no descriptor leaks;
  and that the exchange ends within its budget.
\<close>

section \<open>Names and header\<close>

fun cubin_offer_result_name :: "CubinOfferResult \<Rightarrow> string" where
  "cubin_offer_result_name kCubinOfferDisabled = ''disabled''"
| "cubin_offer_result_name kCubinOfferNoAddress = ''no-address''"
| "cubin_offer_result_name kCubinOfferNoListener = ''no-listener''"
| "cubin_offer_result_name kCubinOfferAccepted = ''accepted''"
| "cubin_offer_result_name kCubinOfferRefused = ''refused''"
| "cubin_offer_result_name kCubinOfferTimedOut = ''timed-out''"
| "cubin_offer_result_name kCubinOfferError = ''error''"

abbreviation kEnrollPrefix :: string where "kEnrollPrefix \<equiv> ''perfagent-gpu-enroll.v1.''"

definition cubin_name_from_maps :: "string option \<Rightarrow> u64 \<Rightarrow> nat \<Rightarrow> string option" where
  "cubin_name_from_maps maps addr outsz =
     (if outsz = 0 then None
      else case enroll_name_from_maps maps addr sun_path_size of
        None \<Rightarrow> None
      | Some enroll \<Rightarrow>
          let plen = length kEnrollPrefix
          in if take plen enroll \<noteq> kEnrollPrefix then None
             else let n = ''perfagent-gpu-cubin.v1.'' @ drop plen enroll in if length n < outsz then Some n else None)"

definition cubin_self_name :: "string option \<Rightarrow> u64 \<Rightarrow> nat \<Rightarrow> string option" where
  "cubin_self_name self_maps self outsz = cubin_name_from_maps self_maps self outsz"

record cubin_header =
  ch_magic :: u32
  ch_version :: u16
  ch_flags :: u16
  ch_size :: u64
  ch_crc :: u64

definition kCubinOfferMagic :: u32 where
  "kCubinOfferMagic = of_char (CHR ''C'') OR push_bit 8 (of_char (CHR ''U'')) OR push_bit 16 (of_char (CHR ''B'')) OR push_bit 24 (of_char (CHR ''1''))"

definition kCubinOfferVersion :: u16 where "kCubinOfferVersion = 1"

definition header_bytes :: "cubin_header \<Rightarrow> u8 list" where
  "header_bytes h = le_bytes 4 (ch_magic h) @ le_bytes 2 (ch_version h) @ le_bytes 2 (ch_flags h) @ le_bytes 8 (ch_size h) @ le_bytes 8 (ch_crc h)"

definition offer_header :: "u64 \<Rightarrow> u64 \<Rightarrow> cubin_header" where
  "offer_header len crc = \<lparr>ch_magic = kCubinOfferMagic, ch_version = kCubinOfferVersion, ch_flags = 0, ch_size = len, ch_crc = crc\<rparr>"

text \<open>The consumer's decoder; \<open>None\<close> is each of its errors.\<close>

definition decodeCubinHeader :: "u8 list \<Rightarrow> cubin_header option" where
  "decodeCubinHeader b =
     (if length b < 24 then None
      else
        let h = \<lparr>ch_magic = le_word (take 4 b), ch_version = le_word (take 2 (drop 4 b)), ch_flags = le_word (take 2 (drop 6 b)),
                 ch_size = le_word (take 8 (drop 8 b)), ch_crc = le_word (take 8 (drop 16 b))\<rparr>
        in if ch_magic h \<noteq> kCubinOfferMagic then None
           else if ch_version h \<noteq> kCubinOfferVersion then None
           else if ch_flags h \<noteq> 0 then None
           else if ch_size h = 0 then None
           else Some h)"

section \<open>The sealed copy\<close>

definition kRequiredSeals :: u32 where
  "kRequiredSeals = 0x0001 OR 0x0002 OR 0x0004 OR 0x0008"

definition mem_append :: "int \<Rightarrow> u8 list \<Rightarrow> proc \<Rightarrow> proc" where
  "mem_append fd bs s = s\<lparr>p_mem := (p_mem s)(fd := map_option (\<lambda>(c, seals). (c @ bs, seals)) (p_mem s fd))\<rparr>"

definition mem_seal :: "int \<Rightarrow> u32 \<Rightarrow> proc \<Rightarrow> proc" where
  "mem_seal fd m s = s\<lparr>p_mem := (p_mem s)(fd := map_option (\<lambda>(c, seals). (c, seals OR m)) (p_mem s fd))\<rparr>"

text \<open>A write takes at most what it is given; the loop ends with whether all bytes were taken.\<close>

partial_function (option) write_loop :: "os \<Rightarrow> int \<Rightarrow> u8 list \<Rightarrow> nat \<Rightarrow> proc \<Rightarrow> (bool \<times> proc) option" where
  "write_loop os fd bytes off s =
     (if off < length bytes then
        let r = o_write os (p_calls s); s = sys_call os s
        in case r of
             Inr n \<Rightarrow>
               (if n > 0 then
                  let k = min n (length bytes - off) in write_loop os fd bytes (off + k) (mem_append fd (take k (drop off bytes)) s)
                else Some (False, s))
           | Inl e \<Rightarrow> (if e = EINTR then write_loop os fd bytes off s else Some (False, s))
      else Some (True, s))"

definition cubin_seal_bytes :: "os \<Rightarrow> u8 list \<Rightarrow> proc \<Rightarrow> (int \<times> proc) option" where
  "cubin_seal_bytes os bytes s =
     (if bytes = [] then Some (- 1, s)
      else
        let fd = o_memfd os (p_calls s); s = sys_call os s
        in if fd < 0 then Some (- 1, s)
           else
             let s = s\<lparr>p_fds := fd # p_fds s, p_mem := (p_mem s)(fd \<mapsto> ([], 0))\<rparr>
             in do {
               (ok, s) \<leftarrow> write_loop os fd bytes 0 s;
               if \<not> ok then Some (- 1, sys_close os fd s)
               else
                 let r = o_add_seals os (p_calls s); s = sys_call os s
                 in case r of
                      None \<Rightarrow> Some (- 1, sys_close os fd s)
                    | Some applied \<Rightarrow>
                        let s = mem_seal fd (applied AND kRequiredSeals) s; ok = o_get_seals os (p_calls s); s = sys_call os s;
                            got = (case p_mem s fd of Some (c, seals) \<Rightarrow> seals | None \<Rightarrow> 0)
                        in if \<not> ok \<or> got AND kRequiredSeals \<noteq> kRequiredSeals then Some (- 1, sys_close os fd s)
                           else Some (fd, s) })"

section \<open>The offer\<close>

definition abstract_addr :: "string \<Rightarrow> bool" where
  "abstract_addr name \<longleftrightarrow> \<not> length name + 1 > sun_path_size"

definition offer_failed :: "proc \<Rightarrow> proc" where
  "offer_failed s = s\<lparr>p_send_failed := p_send_failed s + 1\<rparr>"

definition try_send :: "os \<Rightarrow> u8 list \<Rightarrow> int \<Rightarrow> proc \<Rightarrow> CubinOfferResult option \<times> proc" where
  "try_send os h fd s =
     (let r = o_sendmsg os (p_calls s); s = sys_block os (p_snd s) s
      in case r of
           Inr n \<Rightarrow> if n = length h then (Some kCubinOfferAccepted, s\<lparr>p_sent := p_sent s @ [(h, p_mem s fd)]\<rparr>) else (Some kCubinOfferError, s)
         | Inl e \<Rightarrow> (if e = EINTR then None else if e = EAGAIN \<or> e = EWOULDBLOCK then Some kCubinOfferTimedOut else Some kCubinOfferError, s))"

definition cubin_offer_fd :: "os \<Rightarrow> string \<Rightarrow> int \<Rightarrow> u64 \<Rightarrow> u64 \<Rightarrow> u32 \<Rightarrow> proc \<Rightarrow> (CubinOfferResult \<times> proc) option" where
  "cubin_offer_fd os name fd len crc timeout_ms s =
     (if timeout_ms = 0 then Some (kCubinOfferDisabled, s)
      else if name = [] then Some (kCubinOfferNoAddress, s)
      else if fd < 0 \<or> len = 0 then Some (kCubinOfferError, s)
      else if \<not> abstract_addr name then Some (kCubinOfferNoAddress, s)
      else
        let s = s\<lparr>p_offered := p_offered s + 1\<rparr>; (sock, s) = sys_socket os s
        in if sock < 0 then Some (kCubinOfferError, offer_failed s)
           else
             let (dl, s) = deadline_in os timeout_ms s
             in do {
               (res, s) \<leftarrow> retry_loop os kCubinOfferTimedOut
                 (try_connect os kCubinOfferAccepted kCubinOfferTimedOut kCubinOfferNoListener kCubinOfferError) dl s;
               if res \<noteq> kCubinOfferAccepted
               then let s = sys_close os sock s in Some (res, if res \<noteq> kCubinOfferNoListener then offer_failed s else s)
               else do {
                 (res, s) \<leftarrow> retry_loop os kCubinOfferTimedOut (try_send os (header_bytes (offer_header len crc)) fd) dl s;
                 if res \<noteq> kCubinOfferAccepted then Some (res, offer_failed (sys_close os sock s))
                 else do {
                   (res, s) \<leftarrow> retry_loop os kCubinOfferTimedOut
                     (try_reply os (\<lambda>b. if b = reply_ok then kCubinOfferAccepted else kCubinOfferRefused) kCubinOfferTimedOut kCubinOfferError) dl s;
                   let s = sys_close os sock s in Some (res, if res \<noteq> kCubinOfferAccepted then offer_failed s else s) } } })"

definition cubin_offer :: "os \<Rightarrow> string \<Rightarrow> u8 list \<Rightarrow> u64 \<Rightarrow> u32 \<Rightarrow> proc \<Rightarrow> (CubinOfferResult \<times> proc) option" where
  "cubin_offer os name bytes crc timeout_ms s =
     (if timeout_ms = 0 then Some (kCubinOfferDisabled, s)
      else do {
        (fd, s) \<leftarrow> cubin_seal_bytes os bytes s;
        if fd < 0 then Some (kCubinOfferError, offer_failed (s\<lparr>p_offered := p_offered s + 1\<rparr>))
        else do {
          (r, s) \<leftarrow> cubin_offer_fd os name fd (of_nat (length bytes)) crc timeout_ms s;
          Some (r, sys_close os fd s) } })"

definition cubin_offer_to_consumer ::
  "os \<Rightarrow> string option \<Rightarrow> u64 \<Rightarrow> u8 list \<Rightarrow> u64 \<Rightarrow> u32 \<Rightarrow> proc \<Rightarrow> (CubinOfferResult \<times> proc) option" where
  "cubin_offer_to_consumer os self_maps self bytes crc timeout_ms s =
     (if timeout_ms = 0 then Some (kCubinOfferDisabled, s)
      else case cubin_name_from_maps self_maps self sun_path_size of
        None \<Rightarrow> Some (kCubinOfferNoAddress, s)
      | Some name \<Rightarrow> cubin_offer os name bytes crc timeout_ms s)"

definition cubin_timeout_ms :: "string option \<Rightarrow> u32 \<Rightarrow> u32" where
  "cubin_timeout_ms v dflt =
     (case v of None \<Rightarrow> dflt
      | Some v \<Rightarrow>
          if v = [] then dflt
          else case strtol 10 v of (n, erange, rest) \<Rightarrow>
            if erange \<or> rest = v \<or> rest \<noteq> [] \<or> n < 0 \<or> n > 600000 then dflt else of_int n)"

section \<open>The header travels whole\<close>

lemma le_word_le_bytes: "le_word (le_bytes n (w :: 'a::len word)) = take_bit (8 * n) w"
proof (induction n arbitrary: w)
  case (Suc n)
  let ?x = "take_bit (8 * n) (drop_bit 8 w)"
  have "ucast (ucast w :: u8) = take_bit 8 w" by (rule bit_word_eqI) (auto simp: bit_simps)
  then have "le_word (le_bytes (Suc n) w) = take_bit 8 w + push_bit 8 ?x"
    by (simp add: Suc.IH push_bit_eq_mult drop_bit_eq_div mult.commute)
  also have "\<dots> = take_bit 8 w OR push_bit 8 ?x"
    by (rule disjunctive_add_eq_or) (auto intro!: bit_word_eqI simp: bit_simps)
  also have "\<dots> = take_bit (8 * Suc n) w" by (rule bit_word_eqI) (auto simp: bit_simps)
  finally show ?case .
qed simp

lemma header_roundtrip:
  assumes "ch_magic h = kCubinOfferMagic" and "ch_version h = kCubinOfferVersion" and "ch_flags h = 0" and "ch_size h \<noteq> 0"
  shows "decodeCubinHeader (header_bytes h @ rest) = Some h"
proof -
  have "le_word (le_bytes 4 x) = x" "le_word (le_bytes 2 y) = y" "le_word (le_bytes 8 z) = z" for x :: u32 and y :: u16 and z :: u64
    by (simp_all add: le_word_le_bytes take_bit_word_eq_self)
  then show ?thesis using assms by (simp add: decodeCubinHeader_def header_bytes_def)
qed

lemma length_header_bytes [simp]: "length (header_bytes h) = 24"
  by (simp add: header_bytes_def)

section \<open>The sealed copy holds the bytes\<close>

definition rest_same :: "proc \<Rightarrow> proc \<Rightarrow> bool" where
  "rest_same s s' \<longleftrightarrow> p_fds s' = p_fds s \<and> p_sent s' = p_sent s \<and> p_offered s' = p_offered s \<and> p_send_failed s' = p_send_failed s"

lemma sys_calls_fields [simp]:
  "p_calls ((sys_call os ^^ j) s) = p_calls s + j" "rest_same s ((sys_call os ^^ j) s)" "p_mem ((sys_call os ^^ j) s) = p_mem s"
  by (induction j) (simp_all add: rest_same_def sys_call_def)

text \<open>Interrupted writes are made again.\<close>

lemma write_loop_skip:
  assumes "\<forall>i < j. o_write os (p_calls s + i) = Inl EINTR"
  shows "write_loop os fd bytes off s = write_loop os fd bytes off ((sys_call os ^^ j) s) \<or> length bytes \<le> off"
  using assms
proof (induction j)
  case (Suc j)
  let ?s = "(sys_call os ^^ j) s"
  have "o_write os (p_calls ?s) = Inl EINTR" using Suc.prems by simp
  then have "write_loop os fd bytes off ?s = write_loop os fd bytes off (sys_call os ?s) \<or> length bytes \<le> off"
    by (subst write_loop.simps) auto
  then show ?case using Suc by auto
qed simp

text \<open>The loop ends when signals do not come for ever, whatever number of bytes a write takes.\<close>

lemma write_loop_returns:
  assumes "\<forall>n. \<exists>m \<ge> n. o_write os m \<noteq> Inl EINTR" and "p_mem s fd = Some (c, seals)"
  shows "\<exists>ok s'. write_loop os fd bytes off s = Some (ok, s') \<and> rest_same s s' \<and> (ok \<longrightarrow> p_mem s' fd = Some (c @ drop off bytes, seals))"
  using assms(2)
proof (induction "length bytes - off" arbitrary: off s c rule: less_induct)
  case less
  show ?case
  proof (cases "off < length bytes")
    case False
    with less.prems show ?thesis by (subst write_loop.simps) (auto simp: rest_same_def)
  next
    case off: True
    define j where "j = (LEAST j. o_write os (p_calls s + j) \<noteq> Inl EINTR)"
    have "\<exists>j. o_write os (p_calls s + j) \<noteq> Inl EINTR" using assms(1) [rule_format, of "p_calls s"] by (metis le_iff_add)
    then have j: "o_write os (p_calls s + j) \<noteq> Inl EINTR" unfolding j_def by (rule LeastI_ex)
    have "\<forall>i < j. o_write os (p_calls s + i) = Inl EINTR" unfolding j_def using not_less_Least by blast
    then have sk: "write_loop os fd bytes off s = write_loop os fd bytes off ((sys_call os ^^ j) s)"
      using write_loop_skip off by (meson not_le)
    define t where "t = (sys_call os ^^ j) s"
    have t: "o_write os (p_calls t) \<noteq> Inl EINTR" "rest_same s t" "p_mem t fd = Some (c, seals)"
      using j less.prems by (simp_all add: t_def)
    note sk = sk [folded t_def]
    show ?thesis
    proof (cases "\<exists>n > 0. o_write os (p_calls t) = Inr n")
      case False
      then have "write_loop os fd bytes off t = Some (False, sys_call os t)"
        using t(1) off by (subst write_loop.simps) (cases "o_write os (p_calls t)"; simp add: Let_def)
      then show ?thesis using t(2) by (auto simp: sk rest_same_def sys_call_def)
    next
      case True
      then obtain n where n: "o_write os (p_calls t) = Inr n" "n > 0" by blast
      define k where "k = min n (length bytes - off)"
      define s1 where "s1 = mem_append fd (take k (drop off bytes)) (sys_call os t)"
      have s1: "p_mem s1 fd = Some (c @ take k (drop off bytes), seals)" "rest_same s s1"
        using t by (simp_all add: s1_def mem_append_def sys_call_def rest_same_def)
      have w: "write_loop os fd bytes off t = write_loop os fd bytes (off + k) s1"
        using off n by (subst write_loop.simps) (simp add: k_def s1_def Let_def)
      have "length bytes - (off + k) < length bytes - off" using n off by (simp add: k_def)
      from less.hyps [OF this s1(1)] obtain ok s' where "write_loop os fd bytes (off + k) s1 = Some (ok, s')" "rest_same s1 s'"
        "ok \<longrightarrow> p_mem s' fd = Some ((c @ take k (drop off bytes)) @ drop (off + k) bytes, seals)" by blast
      moreover have "take k (drop off bytes) @ drop (off + k) bytes = drop off bytes"
        by (metis append_take_drop_id drop_drop add.commute)
      ultimately show ?thesis using s1(2) by (simp add: sk w rest_same_def)
    qed
  qed
qed

lemma cubin_seal_bytes_spec:
  assumes "\<forall>n. \<exists>m \<ge> n. o_write os m \<noteq> Inl EINTR"
  shows "\<exists>fd s'. cubin_seal_bytes os bytes s = Some (fd, s') \<and> p_sent s' = p_sent s \<and> p_offered s' = p_offered s \<and> p_send_failed s' = p_send_failed s \<and>
    (fd < 0 \<longrightarrow> p_fds s' = p_fds s) \<and>
    (0 \<le> fd \<longrightarrow> bytes \<noteq> [] \<and> p_fds s' = fd # p_fds s \<and> (\<exists>seals. p_mem s' fd = Some (bytes, seals) \<and> seals AND kRequiredSeals = kRequiredSeals))"
proof (cases "bytes = [] \<or> o_memfd os (p_calls s) < 0")
  case True
  then show ?thesis by (auto simp: cubin_seal_bytes_def sys_call_def)
next
  case False
  define fd where "fd = o_memfd os (p_calls s)"
  define s1 where "s1 = (sys_call os s)\<lparr>p_fds := fd # p_fds s, p_mem := (p_mem s)(fd \<mapsto> ([], 0))\<rparr>"
  have "p_mem s1 fd = Some ([], 0)" by (simp add: s1_def)
  from write_loop_returns [OF assms this, of bytes 0] obtain ok s2 where w: "write_loop os fd bytes 0 s1 = Some (ok, s2)" "rest_same s1 s2"
    "ok \<longrightarrow> p_mem s2 fd = Some (bytes, 0)" by auto
  have r: "p_fds s2 = fd # p_fds s" "p_sent s2 = p_sent s" "p_offered s2 = p_offered s" "p_send_failed s2 = p_send_failed s"
    using w(2) by (simp_all add: rest_same_def s1_def sys_call_def)
  have "s1 = (sys_call os s)\<lparr>p_fds := fd # p_fds (sys_call os s), p_mem := (p_mem (sys_call os s))(fd \<mapsto> ([], 0))\<rparr>"
    by (simp add: s1_def sys_call_def)
  then have e: "cubin_seal_bytes os bytes s = write_loop os fd bytes 0 s1 \<bind> (\<lambda>(ok, s).
      if \<not> ok then Some (- 1, sys_close os fd s)
      else let r = o_add_seals os (p_calls s); s = sys_call os s
        in case r of None \<Rightarrow> Some (- 1, sys_close os fd s)
           | Some applied \<Rightarrow>
               let s = mem_seal fd (applied AND kRequiredSeals) s; ok = o_get_seals os (p_calls s); s = sys_call os s;
                   got = (case p_mem s fd of Some (c, seals) \<Rightarrow> seals | None \<Rightarrow> 0)
               in if \<not> ok \<or> got AND kRequiredSeals \<noteq> kRequiredSeals then Some (- 1, sys_close os fd s) else Some (fd, s))"
    using False unfolding cubin_seal_bytes_def fd_def [symmetric] by (simp add: Let_def)
  show ?thesis
    using w r False [folded fd_def] unfolding e
    by (cases ok; cases "o_add_seals os (p_calls s2)") (auto simp: Let_def sys_close_def sys_call_def mem_seal_def)
qed

section \<open>One exchange\<close>

interpretation sending: blocking_attempt os eps "try_send os h fd"
proof
  fix dl s r s'
  assume "os_ok eps os" "armed_for eps dl s" "try_send os h fd s = (r, s')"
  then show "p_ns s \<le> p_ns s' \<and> p_ns s' \<le> latest eps dl"
    using armed_block [of eps os dl s "p_snd s"] by (auto simp: try_send_def Let_def split: sum.splits if_splits)
next
  fix s r s'
  assume "try_send os h fd s = (r, s')"
  then show "same_res s s'"
    using same_res_block [of s os "p_snd s"] by (auto simp: try_send_def Let_def same_res_def split: sum.splits if_splits)
qed

text \<open>What a loop leaves of the messages: only an accepted send adds one.\<close>

lemma arm_keeps: "arm os dl s = (ok, s') \<Longrightarrow> p_sent s' = p_sent s \<and> p_mem s' = p_mem s"
  by (auto simp: arm_def deadline_left_eq sys_call_def Let_def split: if_splits)

lemma try_connect_keeps: "try_connect os a b c d s = (r, s') \<Longrightarrow> p_sent s' = p_sent s"
  by (auto simp: try_connect_def sys_block_def Let_def)

lemma try_reply_keeps: "try_reply os j t e s = (r, s') \<Longrightarrow> p_sent s' = p_sent s"
  by (auto simp: try_reply_def sys_block_def Let_def split: sum.splits option.splits)

lemma try_send_sent:
  "try_send os h fd s = (r, s') \<Longrightarrow> p_mem s' = p_mem s \<and> p_sent s' = p_sent s @ (if r = Some kCubinOfferAccepted then [(h, p_mem s fd)] else [])"
  by (auto simp: try_send_def sys_block_def Let_def split: sum.splits if_splits)

lemma connect_loop_sent:
  "retry_loop os t (try_connect os a b c d) dl s = Some (r, s') \<Longrightarrow> p_sent s' = p_sent s"
  by (induction rule: retry_loop_induct) (auto dest!: arm_keeps try_connect_keeps)

lemma reply_loop_sent:
  "retry_loop os t (try_reply os j u e) dl s = Some (r, s') \<Longrightarrow> p_sent s' = p_sent s"
  by (induction rule: retry_loop_induct) (auto dest!: arm_keeps try_reply_keeps)

lemma send_loop_sent:
  "retry_loop os kCubinOfferTimedOut (try_send os h fd) dl s = Some (r, s') \<Longrightarrow>
     p_sent s' = p_sent s @ (if r = kCubinOfferAccepted then [(h, p_mem s fd)] else [])"
  by (induction rule: retry_loop_induct) (auto dest!: arm_keeps try_send_sent)

lemma try_send_results: "try_send os h fd s = (Some r, s') \<Longrightarrow> r \<in> {kCubinOfferAccepted, kCubinOfferTimedOut, kCubinOfferError}"
  by (cases "o_sendmsg os (p_calls s)") (auto simp: try_send_def Let_def split: if_split_asm)

lemma try_connect_results: "try_connect os a t c d s = (Some q, s') \<Longrightarrow> q \<in> {a, t, c, d}"
  by (cases "o_connect os (p_calls s)") (auto simp: try_connect_def Let_def split: if_split_asm)

lemma try_reply_results: "try_reply os j t e s = (Some q, s') \<Longrightarrow> q \<in> range j \<union> {t, e}"
  by (cases "o_read os (p_calls s)") (auto simp: try_reply_def Let_def split: if_split_asm option.split_asm)

lemma send_loop_results:
  "retry_loop os kCubinOfferTimedOut (try_send os h fd) dl s = Some (r, s') \<Longrightarrow> r \<in> {kCubinOfferAccepted, kCubinOfferTimedOut, kCubinOfferError}"
  by (drule retry_loop_answer) (elim disjE exE, simp, erule try_send_results)

lemma connect_loop_results:
  "retry_loop os t (try_connect os a t c d) dl s = Some (r, s') \<Longrightarrow> r \<in> {a, t, c, d}"
  by (drule retry_loop_answer) (elim disjE exE, simp, erule try_connect_results)

lemma reply_loop_results:
  "retry_loop os t (try_reply os j t e) dl s = Some (r, s') \<Longrightarrow> r \<in> range j \<union> {t, e}"
  by (drule retry_loop_answer) (elim disjE exE, simp, erule try_reply_results)

text \<open>How the two counters move, by the outcome.\<close>

definition counted_as :: "CubinOfferResult \<Rightarrow> proc \<Rightarrow> proc \<Rightarrow> bool" where
  "counted_as r s s' \<longleftrightarrow>
     p_offered s' = p_offered s + (if r = kCubinOfferDisabled \<or> r = kCubinOfferNoAddress then 0 else 1) \<and>
     p_send_failed s' = p_send_failed s + (if r = kCubinOfferRefused \<or> r = kCubinOfferTimedOut \<or> r = kCubinOfferError then 1 else 0)"

text \<open>The two exchanges on a connection: the descriptor with its header, and the answer.\<close>

definition offer_exchange :: "os \<Rightarrow> u8 list \<Rightarrow> int \<Rightarrow> int \<Rightarrow> proc \<Rightarrow> (CubinOfferResult \<times> proc) option" where
  "offer_exchange os h fd dl s =
     retry_loop os kCubinOfferTimedOut (try_send os h fd) dl s \<bind> (\<lambda>(res, s).
       if res \<noteq> kCubinOfferAccepted then Some (res, s)
       else retry_loop os kCubinOfferTimedOut
         (try_reply os (\<lambda>b. if b = reply_ok then kCubinOfferAccepted else kCubinOfferRefused) kCubinOfferTimedOut kCubinOfferError) dl s)"

lemma offer_exchange_returns:
  assumes "os_ok eps os" and "p_ns s \<le> latest eps dl"
  obtains r s' where "offer_exchange os h fd dl s = Some (r, s')" "same_res s s'" "p_ns s' \<le> latest eps dl + 3 * eps"
    "r \<in> {kCubinOfferAccepted, kCubinOfferRefused, kCubinOfferTimedOut, kCubinOfferError}"
    "r = kCubinOfferAccepted \<longrightarrow> p_reply s' = Some reply_ok \<and> p_sent s' = p_sent s @ [(h, p_mem s fd)]"
proof -
  let ?rep = "try_reply os (\<lambda>b. if b = reply_ok then kCubinOfferAccepted else kCubinOfferRefused) kCubinOfferTimedOut kCubinOfferError"
  obtain r1 s1 where c: "retry_loop os kCubinOfferTimedOut (try_send os h fd) dl s = Some (r1, s1)" "same_res s s1"
      "p_ns s1 \<le> latest eps dl + 3 * eps" "r1 \<noteq> kCubinOfferTimedOut \<longrightarrow> p_ns s1 \<le> latest eps dl"
    by (rule sending.loop_phase [OF assms])
  show ?thesis
  proof (cases "r1 = kCubinOfferAccepted")
    case False
    then show ?thesis using c send_loop_results [OF c(1)] by (intro that [of r1 s1]) (auto simp: offer_exchange_def)
  next
    case True
    with c(4) have "p_ns s1 \<le> latest eps dl" by simp
    then obtain r2 s2 where d: "retry_loop os kCubinOfferTimedOut ?rep dl s1 = Some (r2, s2)" "same_res s1 s2" "p_ns s2 \<le> latest eps dl + 3 * eps"
      by (rule replying.loop_phase [OF assms(1)])
    have "r2 \<in> {kCubinOfferAccepted, kCubinOfferRefused, kCubinOfferTimedOut, kCubinOfferError}"
      using reply_loop_results [OF d(1)] by (auto split: if_splits)
    moreover have "r2 = kCubinOfferAccepted \<longrightarrow> p_reply s2 = Some reply_ok" using reply_judged [OF d(1)] by (auto split: if_splits)
    ultimately show ?thesis
      using True c d same_res_trans [OF c(2) d(2)] reply_loop_sent [OF d(1)] send_loop_sent [OF c(1)]
      by (intro that [of r2 s2]) (simp_all add: offer_exchange_def)
  qed
qed

lemma cubin_offer_fd_spec:
  assumes "os_ok eps os" and "0 \<le> fd" and "len \<noteq> 0"
  shows "\<exists>r s'. cubin_offer_fd os name fd len crc timeout_ms s = Some (r, s') \<and> p_fds s' = p_fds s \<and> counted_as r s s' \<and>
    p_ns s' \<le> p_ns s + int (unat timeout_ms) * 1000000 + 1000000 + 9 * eps \<and>
    (r = kCubinOfferAccepted \<longrightarrow> p_reply s' = Some reply_ok \<and> p_sent s' = p_sent s @ [(header_bytes (offer_header len crc), p_mem s fd)])"
proof -
  let ?s = "s\<lparr>p_offered := p_offered s + 1\<rparr>" and ?h = "header_bytes (offer_header len crc)"
  obtain sock s1 where so: "sys_socket os ?s = (sock, s1)" by fastforce
  obtain dl s2 where de: "deadline_in os timeout_ms s1 = (dl, s2)" by fastforce
  note time = session_time [OF assms(1) so de, simplified] and start = session_start [OF assms(1) so de, simplified]
    and keeps = session_keeps [OF assms(1) so de, simplified] and cl = sys_close_spec [OF assms(1), of _ sock]
  have sent2: "p_sent s2 = p_sent s" using so de by (auto simp: sys_socket_def deadline_in_def now_ms_eq sys_call_def Let_def)
  let ?conn = "try_connect os kCubinOfferAccepted kCubinOfferTimedOut kCubinOfferNoListener kCubinOfferError"
  obtain r3 s3 where c: "retry_loop os kCubinOfferTimedOut ?conn dl s2 = Some (r3, s3)" "same_res s2 s3" "p_ns s3 \<le> latest eps dl + 3 * eps"
      "r3 \<noteq> kCubinOfferTimedOut \<longrightarrow> p_ns s3 \<le> latest eps dl"
    by (rule connecting.loop_phase [OF assms(1) start(3)])
  show ?thesis
  proof (cases "timeout_ms = 0 \<or> name = [] \<or> \<not> abstract_addr name \<or> sock < 0")
    case True
    then show ?thesis
      using so sys_socket_spec [OF assms(1) so] start assms(2,3) by (auto simp: cubin_offer_fd_def counted_as_def offer_failed_def)
  next
    case open_: False
    then have e: "cubin_offer_fd os name fd len crc timeout_ms s =
        (if r3 \<noteq> kCubinOfferAccepted
         then Some (r3, if r3 \<noteq> kCubinOfferNoListener then offer_failed (sys_close os sock s3) else sys_close os sock s3)
         else offer_exchange os ?h fd dl s3 \<bind> (\<lambda>(res, s).
           Some (res, if res \<noteq> kCubinOfferAccepted then offer_failed (sys_close os sock s) else sys_close os sock s)))"
      using so de c(1) assms(2,3)
      by (auto simp: cubin_offer_fd_def offer_exchange_def Let_def split: Option.bind_split)
    show ?thesis
    proof (cases "r3 = kCubinOfferAccepted")
      case False
      then show ?thesis
        using e open_ c keeps [OF c(2)] time [OF c(3)] cl [of s3] connect_loop_results [OF c(1)] by (auto simp: counted_as_def offer_failed_def)
    next
      case True
      with c(4) have "p_ns s3 \<le> latest eps dl" by simp
      then obtain r4 s4 where x: "offer_exchange os ?h fd dl s3 = Some (r4, s4)" "same_res s3 s4" "p_ns s4 \<le> latest eps dl + 3 * eps"
          "r4 \<in> {kCubinOfferAccepted, kCubinOfferRefused, kCubinOfferTimedOut, kCubinOfferError}"
          "r4 = kCubinOfferAccepted \<longrightarrow> p_reply s4 = Some reply_ok \<and> p_sent s4 = p_sent s3 @ [(?h, p_mem s3 fd)]"
        by (rule offer_exchange_returns [OF assms(1)])
      then show ?thesis
        using e True open_ keeps [OF c(2)] keeps [OF same_res_trans [OF c(2) x(2)]] time [OF x(3)] cl [of s4] connect_loop_sent [OF c(1)] sent2
        by (auto simp: counted_as_def offer_failed_def)
    qed
  qed
qed

section \<open>Properties of the offer\<close>

text \<open>The two channels mean the same image: the names share all but their prefix.\<close>

lemma cubin_name_agrees:
  assumes "list_all mapping_ok ms" and "find (covers addr) ms = Some m" and "vm_ino m \<noteq> 0"
  shows "\<exists>image. enroll_name_from_maps (Some (maps_file ms)) addr sun_path_size = Some (kEnrollPrefix @ image) \<and>
    cubin_name_from_maps (Some (maps_file ms)) addr sun_path_size = Some (''perfagent-gpu-cubin.v1.'' @ image)"
proof -
  define image where "image = print_num 10 (unat (vm_maj m)) @ ''.'' @ print_num 10 (unat (vm_min m)) @ ''.'' @ print_num 10 (unat (vm_ino m))"
  have n: "enroll_name (vm_maj m) (vm_min m) (vm_ino m) = kEnrollPrefix @ image" by (simp add: enroll_name_def image_def)
  have l: "length (kEnrollPrefix @ image) \<le> 66" using enroll_name_length [of "vm_maj m" "vm_min m" "vm_ino m"] by (simp only: n)
  have e: "enroll_name_from_maps (Some (maps_file ms)) addr sun_path_size = Some (kEnrollPrefix @ image)"
    unfolding name_from_maps [OF assms(1) zero_less_numeral] assms(2) option.case Let_def n using assms(3) l by simp
  moreover have "cubin_name_from_maps (Some (maps_file ms)) addr sun_path_size = Some (''perfagent-gpu-cubin.v1.'' @ image)"
    unfolding cubin_name_from_maps_def e option.case using l by simp
  ultimately show ?thesis by blast
qed

text \<open>
  C15: an accepted offer is the module itself. Whatever the kernel answers, as long as signals do not
  interrupt for ever, an offer returns, leaves no descriptor open and is counted once by its
  outcome: as offered unless offers are off or there is no address, and as failed unless it was
  accepted or nobody listens. When it is accepted, one message was sent whose header the consumer
  decodes to the module's size and CRC and whose file holds exactly the module's bytes under all
  four seals, and the consumer answered \<open>K\<close>.
\<close>

theorem cubin_offer_delivers:
  assumes "os_ok eps os" and "\<forall>n. \<exists>m \<ge> n. o_write os m \<noteq> Inl EINTR" and "length bytes < 2 ^ 64"
  shows "\<exists>r s'. cubin_offer os name bytes crc timeout_ms s = Some (r, s') \<and> p_fds s' = p_fds s \<and> counted_as r s s' \<and>
    (r = kCubinOfferAccepted \<longrightarrow> p_reply s' = Some reply_ok \<and>
      (\<exists>h seals. p_sent s' = p_sent s @ [(h, Some (bytes, seals))] \<and> seals AND kRequiredSeals = kRequiredSeals \<and>
        decodeCubinHeader h = Some (offer_header (of_nat (length bytes)) crc)))"
proof (cases "timeout_ms = 0")
  case True
  then show ?thesis by (simp add: cubin_offer_def counted_as_def)
next
  case t: False
  from cubin_seal_bytes_spec [OF assms(2), of bytes s] obtain fd s1 where se: "cubin_seal_bytes os bytes s = Some (fd, s1)"
      "p_sent s1 = p_sent s" "p_offered s1 = p_offered s" "p_send_failed s1 = p_send_failed s" "fd < 0 \<longrightarrow> p_fds s1 = p_fds s"
      "0 \<le> fd \<longrightarrow> bytes \<noteq> [] \<and> p_fds s1 = fd # p_fds s \<and> (\<exists>seals. p_mem s1 fd = Some (bytes, seals) \<and> seals AND kRequiredSeals = kRequiredSeals)"
    by (elim exE conjE)
  show ?thesis
  proof (cases "fd < 0")
    case True
    then show ?thesis using t se by (simp add: cubin_offer_def counted_as_def offer_failed_def)
  next
    case False
    then have fd: "0 \<le> fd" by simp
    then obtain seals where m: "bytes \<noteq> []" "p_fds s1 = fd # p_fds s" "p_mem s1 fd = Some (bytes, seals)" "seals AND kRequiredSeals = kRequiredSeals"
      using se(6) by blast
    let ?len = "of_nat (length bytes) :: u64"
    have "unat ?len = length bytes" using assms(3) by (simp add: unsigned_of_nat take_bit_nat_eq_self)
    then have len: "?len \<noteq> 0" using m(1) by (metis length_0_conv unsigned_0)
    from cubin_offer_fd_spec [OF assms(1) fd len, of name crc timeout_ms s1] obtain r s2
      where o: "cubin_offer_fd os name fd ?len crc timeout_ms s1 = Some (r, s2)" "p_fds s2 = p_fds s1" "counted_as r s1 s2"
        "r = kCubinOfferAccepted \<longrightarrow> p_reply s2 = Some reply_ok \<and> p_sent s2 = p_sent s1 @ [(header_bytes (offer_header ?len crc), p_mem s1 fd)]"
      by (elim exE conjE)
    have d: "decodeCubinHeader (header_bytes (offer_header ?len crc)) = Some (offer_header ?len crc)"
      using header_roundtrip [of "offer_header ?len crc" "[]"] len by (simp add: offer_header_def)
    show ?thesis
      using t se(1-4) o m d False sys_close_spec [OF assms(1), of s2 fd]
      by (auto simp: cubin_offer_def counted_as_def)
  qed
qed

text \<open>A kernel that takes two bytes a write, with a signal before them, and a consumer that accepts.\<close>

theorem cubin_offer_delivers_witness:
  "\<exists>r s'. cubin_offer demo_os ''shim'' [1, 2, 3] 99 2000 demo_proc = Some (r, s') \<and> p_fds s' = [3] \<and> counted_as r demo_proc s' \<and>
    (r = kCubinOfferAccepted \<longrightarrow> (\<exists>h seals. p_sent s' = [(h, Some ([1, 2, 3], seals))]))"
proof -
  have w: "\<forall>n. \<exists>m \<ge> n. o_write demo_os m \<noteq> Inl EINTR" by (intro allI, rule_tac x = "n + 2" in exI) (simp add: demo_os_def)
  from cubin_offer_delivers [OF demo_os_ok w, of "[1, 2, 3]" "''shim''" 99 2000 demo_proc] show ?thesis by (auto simp: demo_proc_def)
qed

end
