(* ===== verification/Cupti_Correlation.thy ===== *)
theory Cupti_Correlation
  imports Prelude
begin

text \<open>
  Correlation ids and kernel ids of the adapter, \<open>src/shim/nvidia/cupti_adapter.cc\<close>. The vendor's
  correlation id is a 32-bit counter that wraps; the adapter extends it with an epoch kept beside
  the last id in one atomic word, advanced on the launch path by compare-and-swap and only read on
  the activity path. The kernel id is a hash of the name.

  The lemmas show that the launch path is linearizable; that on histories that do not straddle a
  wrap out of order every launch gets the correlation of its place in the endless counter, and the
  activity path gives the same; and that a reordering across the wrap breaks both.
\<close>

section \<open>The correlation word\<close>

abbreviation kWrapGuard :: u32 where "kWrapGuard \<equiv> 2147483648"

definition make_corr :: "u32 \<Rightarrow> u32 \<Rightarrow> u64" where
  "make_corr epoch i = push_bit 32 (ucast (epoch + 1)) OR ucast i"

text \<open>
  One round of the launch loop on the word it has read: the correlation to return and, unless the
  id is a small reordering, the word to swap in.
\<close>

definition corr_round :: "u32 \<Rightarrow> u64 \<Rightarrow> u64 \<times> u64 option" where
  "corr_round i cur =
     (let last = ucast cur :: u32; epoch = ucast (drop_bit 32 cur) :: u32
      in if last > i \<and> last - i > kWrapGuard then
           let next_epoch = epoch + 1 in (make_corr next_epoch i, Some (push_bit 32 (ucast next_epoch) OR ucast i))
         else if i > last then (make_corr epoch i, Some (push_bit 32 (ucast epoch) OR ucast i))
         else (make_corr epoch i, None))"

text \<open>A call that nobody interferes with: the first swap succeeds.\<close>

definition correlate_launch :: "u32 \<Rightarrow> u64 \<Rightarrow> u64 \<times> u64" where
  "correlate_launch i cur = (case corr_round i cur of (c, None) \<Rightarrow> (c, cur) | (c, Some next) \<Rightarrow> (c, next))"

definition correlate_activity :: "u32 \<Rightarrow> u64 \<Rightarrow> u64" where
  "correlate_activity i cur =
     (let last = ucast cur :: u32; epoch = ucast (drop_bit 32 cur) :: u32;
          epoch = (if i > last \<and> i - last > kWrapGuard \<and> epoch > 0 then epoch - 1 else epoch)
      in make_corr epoch i)"

section \<open>Launching threads\<close>

text \<open>
  A thread is between calls or holds the word its next swap expects. \<open>cw_log\<close> lists the finished
  calls with their results, in the order in which they took effect. A swap may fail although the
  word is unchanged, as the weak form allows.
\<close>

datatype corr_thread = CIdle | CHolds u32 u64

record corr_word =
  cw_corr :: u64
  cw_threads :: "corr_thread list"
  cw_log :: "(u32 \<times> u64) list"

definition corr_start :: "nat \<Rightarrow> corr_word" where
  "corr_start k = \<lparr>cw_corr = 0, cw_threads = replicate k CIdle, cw_log = []\<rparr>"

inductive corr_step :: "corr_word \<Rightarrow> corr_word \<Rightarrow> bool" where
  load_return: "\<lbrakk>t < length (cw_threads x); cw_threads x ! t = CIdle; corr_round i (cw_corr x) = (c, None)\<rbrakk> \<Longrightarrow>
    corr_step x (x\<lparr>cw_log := cw_log x @ [(i, c)]\<rparr>)"
| load_hold: "\<lbrakk>t < length (cw_threads x); cw_threads x ! t = CIdle; corr_round i (cw_corr x) = (c, Some n)\<rbrakk> \<Longrightarrow>
    corr_step x (x\<lparr>cw_threads := (cw_threads x)[t := CHolds i (cw_corr x)]\<rparr>)"
| swap: "\<lbrakk>t < length (cw_threads x); cw_threads x ! t = CHolds i (cw_corr x); corr_round i (cw_corr x) = (c, Some n)\<rbrakk> \<Longrightarrow>
    corr_step x (x\<lparr>cw_corr := n, cw_threads := (cw_threads x)[t := CIdle], cw_log := cw_log x @ [(i, c)]\<rparr>)"
| retry_return: "\<lbrakk>t < length (cw_threads x); cw_threads x ! t = CHolds i cur; corr_round i (cw_corr x) = (c, None)\<rbrakk> \<Longrightarrow>
    corr_step x (x\<lparr>cw_threads := (cw_threads x)[t := CIdle], cw_log := cw_log x @ [(i, c)]\<rparr>)"
| retry_hold: "\<lbrakk>t < length (cw_threads x); cw_threads x ! t = CHolds i cur; corr_round i (cw_corr x) = (c, Some n)\<rbrakk> \<Longrightarrow>
    corr_step x (x\<lparr>cw_threads := (cw_threads x)[t := CHolds i (cw_corr x)]\<rparr>)"

inductive_cases corr_stepE: "corr_step x y"

fun corr_run :: "u32 list \<Rightarrow> u64 \<Rightarrow> u64 list \<times> u64" where
  "corr_run [] cur = ([], cur)"
| "corr_run (i # is) cur = (let (c, cur) = correlate_launch i cur; (cs, cur) = corr_run is cur in (c # cs, cur))"

section \<open>Kernel ids\<close>

definition hash_name :: "string option \<Rightarrow> u64" where
  "hash_name s =
     (let s = (case s of None \<Rightarrow> ''<unknown>'' | Some s \<Rightarrow> s);
          h = foldl (\<lambda>h c. (h XOR of_char c) * 1099511628211) 1469598103934665603 s
      in if h \<noteq> 0 then h else 1)"

lemma hash_name_nonzero: "hash_name s \<noteq> 0"
  by (simp add: hash_name_def Let_def)

section \<open>Every interleaving is a sequence of calls\<close>

lemma corr_run_append:
  "corr_run (is @ js) cur = (let (cs, cur) = corr_run is cur; (ds, cur) = corr_run js cur in (cs @ ds, cur))"
  by (induction "is" arbitrary: cur) (simp_all add: Let_def case_prod_unfold)

lemma corr_step_linear:
  assumes "corr_step x y" and "corr_run (map fst (cw_log x)) 0 = (map snd (cw_log x), cw_corr x)"
  shows "corr_run (map fst (cw_log y)) 0 = (map snd (cw_log y), cw_corr y)"
  using assms by (cases rule: corr_stepE) (auto simp: corr_run_append correlate_launch_def)

lemma corr_linear:
  assumes "corr_step\<^sup>*\<^sup>* (corr_start k) x"
  shows "corr_run (map fst (cw_log x)) 0 = (map snd (cw_log x), cw_corr x)"
  using assms by (induction rule: rtranclp_induct) (auto simp: corr_start_def intro: corr_step_linear)

section \<open>The endless counter\<close>

text \<open>
  The vendor's id of launch number \<open>n\<close> is \<open>n\<close> at 32 bits. The word for the greatest launch \<open>m\<close> seen is
  \<open>m\<close> at 64 bits, and the correlation of launch \<open>n\<close> is \<open>n\<close> one epoch up.
\<close>

abbreviation EPOCH :: nat where "EPOCH \<equiv> 4294967296"

lemma join_word: "push_bit 32 (ucast (e :: u32)) OR ucast (i :: u32) = (of_nat (unat e * EPOCH + unat i) :: u64)"
proof -
  have "push_bit 32 (ucast e :: u64) OR ucast i = push_bit 32 (ucast e) + ucast i"
    by (intro disjunctive_add_eq_or [symmetric] bit_word_eqI) (auto simp: bit_simps not_le dest: bit_imp_le_length [of i, simplified])
  also have "\<dots> = of_nat (unat e * EPOCH + unat i)" by (simp add: push_bit_eq_mult mult.commute)
  finally show ?thesis .
qed

lemma unat_of_nat_u32: "unat (of_nat n :: u32) = n mod EPOCH"
  by (simp add: unsigned_of_nat take_bit_eq_mod)

lemma parts_of_word:
  assumes "m < 2 ^ 64"
  shows "(ucast (of_nat m :: u64) :: u32) = of_nat m" and "(ucast (drop_bit 32 (of_nat m :: u64)) :: u32) = of_nat (m div EPOCH)"
proof -
  show "(ucast (of_nat m :: u64) :: u32) = of_nat m" by (rule bit_word_eqI) (simp add: bit_simps)
  have "unat (drop_bit 32 (of_nat m :: u64)) = m div EPOCH"
    using assms by (simp add: drop_bit_eq_div unat_div_distrib unsigned_of_nat take_bit_nat_eq_self)
  then show "(ucast (drop_bit 32 (of_nat m :: u64)) :: u32) = of_nat (m div EPOCH)" by (metis of_nat_unat)
qed

text \<open>Launches the word can place: ahead of the greatest by less than half the range, or behind it in the same epoch.\<close>

definition placed :: "nat \<Rightarrow> nat \<Rightarrow> bool" where
  "placed m n \<longleftrightarrow> (m \<le> n \<and> n - m < 2147483648) \<or> (n < m \<and> n div EPOCH = m div EPOCH \<and> m - n \<le> 2147483648)"

lemma make_corr_epoch:
  assumes "f < EPOCH - 1"
  shows "make_corr (of_nat f) (of_nat n) = of_nat ((f + 1) * EPOCH + n mod EPOCH)"
proof -
  have "unat (of_nat f + 1 :: u32) = f + 1"
    using assms unat_of_nat_u32 [of "f + 1"] by (simp add: add.commute)
  then show ?thesis by (simp only: make_corr_def join_word unat_of_nat_u32)
qed

lemma corr_of_launch: "n < 2 ^ 64 - 2 ^ 32 \<Longrightarrow> make_corr (of_nat (n div EPOCH)) (of_nat n) = of_nat (n + EPOCH)"
  using make_corr_epoch [of "n div EPOCH" n] div_mult_mod_eq [of n EPOCH] by (simp add: div_less_iff_less_mult algebra_simps)

lemma word_of_launch: "n < 2 ^ 64 \<Longrightarrow> push_bit 32 (ucast (of_nat (n div EPOCH) :: u32)) OR ucast (of_nat n :: u32) = (of_nat n :: u64)"
  using div_mult_mod_eq [of n EPOCH] by (simp only: join_word unat_of_nat_u32) (simp add: div_less_iff_less_mult mult.commute)

lemma placed_cases:
  assumes "placed m n"
  obtains (wrap) "n div EPOCH = m div EPOCH + 1" "n mod EPOCH < m mod EPOCH" "m mod EPOCH - n mod EPOCH > 2147483648" "m < n"
  | (ahead) "n div EPOCH = m div EPOCH" "m mod EPOCH < n mod EPOCH" "m < n"
  | (behind) "n div EPOCH = m div EPOCH" "n mod EPOCH \<le> m mod EPOCH" "m mod EPOCH - n mod EPOCH \<le> 2147483648" "n \<le> m"
proof -
  define E L F I where "E = m div EPOCH" and "L = m mod EPOCH" and "F = n div EPOCH" and "I = n mod EPOCH"
  note defs = E_def L_def F_def I_def
  have d: "m = E * EPOCH + L" "n = F * EPOCH + I" "L < EPOCH" "I < EPOCH" by (simp_all add: defs)
  consider (up) "m \<le> n" "n - m < 2147483648" | (down) "n < m" "F = E" "m - n \<le> 2147483648"
    using assms by (auto simp: placed_def defs)
  then show thesis
  proof cases
    case up
    have "E \<le> F" unfolding defs using up(1) by (rule div_le_mono)
    moreover have "F < E + 2" using d up by (cases "F < E + 2") (auto dest: mult_le_mono1 [of _ _ EPOCH] simp: not_less algebra_simps)
    ultimately consider "F = E" "L < I" | "F = E" "I \<le> L" | "F = E + 1" by linarith
    then show thesis
    proof cases
      case 1
      then show thesis using d ahead [folded defs] by simp
    next
      case 2
      then show thesis using d up behind [folded defs] by simp
    next
      case 3
      then have "I < L" "L - I > 2147483648" "m < n" using d up by (simp_all add: algebra_simps)
      with 3 show thesis using wrap [folded defs] by simp
    qed
  next
    case down
    then show thesis using d behind [folded defs] by simp
  qed
qed

lemma launch_placed:
  assumes "m < 2 ^ 64 - 2 ^ 32" and "n < 2 ^ 64 - 2 ^ 32" and "placed m n"
  shows "correlate_launch (of_nat n) (of_nat m) = (of_nat (n + EPOCH), of_nat (max m n))"
proof -
  have m: "m < 2 ^ 64" and n: "n < 2 ^ 64" using assms(1,2) by simp_all
  note w = parts_of_word [OF m] word_of_launch [OF n] corr_of_launch [OF assms(2)]
  have cmp: "(of_nat a :: u32) > of_nat b \<longleftrightarrow> a mod EPOCH > b mod EPOCH" for a b by (simp add: word_less_nat_alt unat_of_nat_u32)
  have gap: "(of_nat m - of_nat n :: u32) > kWrapGuard \<longleftrightarrow> m mod EPOCH - n mod EPOCH > 2147483648" if "n mod EPOCH < m mod EPOCH"
    using that by (simp add: word_less_nat_alt unat_sub word_le_nat_alt unat_of_nat_u32)
  from assms(3) show ?thesis
  proof (cases rule: placed_cases)
    case wrap
    then have e: "(of_nat (m div EPOCH) + 1 :: u32) = of_nat (n div EPOCH)" by (simp add: add.commute)
    show ?thesis using wrap w gap by (simp add: correlate_launch_def corr_round_def cmp Let_def e)
  next
    case ahead
    then show ?thesis using w by (simp add: correlate_launch_def corr_round_def cmp Let_def)
  next
    case behind
    then show ?thesis using w gap by (auto simp: correlate_launch_def corr_round_def cmp Let_def)
  qed
qed

lemma activity_placed:
  assumes "m < 2 ^ 64 - 2 ^ 32" and "n \<le> m" and "m - n < 2147483648"
  shows "correlate_activity (of_nat n) (of_nat m) = of_nat (n + EPOCH)"
proof -
  have m: "m < 2 ^ 64" and n: "n < 2 ^ 64 - 2 ^ 32" using assms(1,2) by simp_all
  have cmp: "(of_nat a :: u32) > of_nat b \<longleftrightarrow> a mod EPOCH > b mod EPOCH" for a b by (simp add: word_less_nat_alt unat_of_nat_u32)
  have gap: "(of_nat n - of_nat m :: u32) > kWrapGuard \<longleftrightarrow> n mod EPOCH - m mod EPOCH > 2147483648" if "m mod EPOCH < n mod EPOCH"
    using that by (simp add: word_less_nat_alt unat_sub word_le_nat_alt unat_of_nat_u32)
  have pos: "(of_nat (m div EPOCH) :: u32) > 0 \<longleftrightarrow> 0 < m div EPOCH"
    using assms(1) by (simp add: word_less_nat_alt unat_of_nat_u32 div_less_iff_less_mult)
  have "placed n m" using assms(2,3) by (simp add: placed_def)
  then show ?thesis
  proof (cases rule: placed_cases)
    case wrap
    then have e: "(of_nat (m div EPOCH) - 1 :: u32) = of_nat (n div EPOCH)" by simp
    show ?thesis
      using wrap gap pos corr_of_launch [OF n] unfolding correlate_activity_def parts_of_word [OF m] by (simp add: cmp Let_def e)
  next
    case ahead
    then show ?thesis using corr_of_launch [OF n] unfolding correlate_activity_def parts_of_word [OF m] by (simp add: cmp Let_def)
  next
    case behind
    then have "n = m" using assms(2) by simp
    then show ?thesis using corr_of_launch [OF n] unfolding correlate_activity_def parts_of_word [OF m] by (simp add: Let_def)
  qed
qed

fun placed_all :: "nat \<Rightarrow> nat list \<Rightarrow> bool" where
  "placed_all m [] \<longleftrightarrow> True"
| "placed_all m (n # ns) \<longleftrightarrow> placed m n \<and> n < 2 ^ 64 - 2 ^ 32 \<and> placed_all (max m n) ns"

lemma corr_run_placed:
  assumes "placed_all m ns" and "m < 2 ^ 64 - 2 ^ 32"
  shows "corr_run (map of_nat ns) (of_nat m) = (map (\<lambda>n. of_nat (n + EPOCH)) ns, of_nat (fold max ns m)) \<and> fold max ns m < 2 ^ 64 - 2 ^ 32 \<and>
    list_all (\<lambda>n. n < 2 ^ 64 - 2 ^ 32) ns"
  using assms by (induction ns arbitrary: m) (auto simp: launch_placed max.commute)

section \<open>Every sequence of calls is an interleaving\<close>

lemma corr_call_reachable:
  assumes "0 < length (cw_threads x)" and "cw_threads x ! 0 = CIdle"
  shows "corr_step\<^sup>*\<^sup>* x (x\<lparr>cw_corr := snd (correlate_launch i (cw_corr x)), cw_log := cw_log x @ [(i, fst (correlate_launch i (cw_corr x)))]\<rparr>)"
proof -
  obtain c n where r: "corr_round i (cw_corr x) = (c, n)" by fastforce
  show ?thesis
  proof (cases n)
    case None
    then have "corr_step x (x\<lparr>cw_log := cw_log x @ [(i, c)]\<rparr>)" using assms r by (intro load_return) auto
    then show ?thesis using r None by (simp add: correlate_launch_def r_into_rtranclp)
  next
    case (Some w)
    let ?y = "x\<lparr>cw_threads := (cw_threads x)[0 := CHolds i (cw_corr x)]\<rparr>"
    have "corr_step x ?y" using assms r Some by (intro load_hold) auto
    moreover have "corr_step ?y (?y\<lparr>cw_corr := w, cw_threads := (cw_threads ?y)[0 := CIdle], cw_log := cw_log ?y @ [(i, c)]\<rparr>)"
      using assms r Some by (intro swap) auto
    moreover have "(cw_threads x)[0 := CIdle] = cw_threads x" using assms by (simp add: list_update_same_conv)
    ultimately show ?thesis
      using r Some by (simp add: correlate_launch_def)
  qed
qed

lemma corr_calls_reachable:
  "\<exists>x. corr_step\<^sup>*\<^sup>* (corr_start (Suc k)) x \<and> cw_threads x = replicate (Suc k) CIdle \<and> cw_log x = zip is (fst (corr_run is 0)) \<and>
    cw_corr x = snd (corr_run is 0)"
proof (induction "is" rule: rev_induct)
  case Nil
  show ?case by (rule exI [of _ "corr_start (Suc k)"]) (simp add: corr_start_def)
next
  case (snoc i "is")
  then obtain x where x: "corr_step\<^sup>*\<^sup>* (corr_start (Suc k)) x" "cw_threads x = replicate (Suc k) CIdle" "cw_log x = zip is (fst (corr_run is 0))"
    "cw_corr x = snd (corr_run is 0)" by blast
  have l: "length (fst (corr_run js cur)) = length js" for js cur by (induction js arbitrary: cur) (auto simp: case_prod_unfold Let_def)
  let ?y = "x\<lparr>cw_corr := snd (correlate_launch i (cw_corr x)), cw_log := cw_log x @ [(i, fst (correlate_launch i (cw_corr x)))]\<rparr>"
  have "corr_step\<^sup>*\<^sup>* x ?y" using x(2) by (intro corr_call_reachable) simp_all
  with x(1) have "corr_step\<^sup>*\<^sup>* (corr_start (Suc k)) ?y" by (rule rtranclp_trans)
  moreover have "cw_log ?y = zip (is @ [i]) (fst (corr_run (is @ [i]) 0)) \<and> cw_corr ?y = snd (corr_run (is @ [i]) 0)"
    using x(3,4) l by (simp add: corr_run_append case_prod_unfold Let_def)
  ultimately show ?case using x(2) by (intro exI [of _ ?y]) simp
qed

section \<open>Properties of the correlation\<close>

text \<open>
  C16: launch and activity meet under one correlation. However many threads launch and interleave,
  as long as each launch, in the order in which the calls take effect, is less than half the id
  range ahead of the greatest launch before it, or behind it in the same epoch: every launch has a
  correlation of its own, none is zero, and the activity record of any of the last \<open>2 ^ 31\<close> launches
  is given the correlation its launch was given, across any number of wraps of the id.
\<close>

theorem launch_activity_correlate:
  assumes "corr_step\<^sup>*\<^sup>* (corr_start k) x" and "map fst (cw_log x) = map of_nat ns" and "placed_all 0 ns" and "distinct ns"
  shows "distinct (map snd (cw_log x)) \<and> 0 \<notin> set (map snd (cw_log x)) \<and>
    (\<forall>j < length ns. Max (set ns) - ns ! j < 2147483648 \<longrightarrow> correlate_activity (fst (cw_log x ! j)) (cw_corr x) = snd (cw_log x ! j))"
proof -
  have len: "length (cw_log x) = length ns" using assms(2) by (metis length_map)
  have run: "corr_run (map of_nat ns) 0 = (map (\<lambda>n. of_nat (n + EPOCH)) ns, of_nat (fold max ns 0))"
    and mx: "fold max ns 0 < 2 ^ 64 - 2 ^ 32" and b: "list_all (\<lambda>n. n < 2 ^ 64 - 2 ^ 32) ns"
    using corr_run_placed [OF assms(3)] by simp_all
  with corr_linear [OF assms(1)] assms(2) have c: "map snd (cw_log x) = map (\<lambda>n. of_nat (n + EPOCH)) ns" "cw_corr x = of_nat (fold max ns 0)"
    by simp_all
  have u: "unat (of_nat (n + EPOCH) :: u64) = n + EPOCH" if "n \<in> set ns" for n
    using b that by (simp only: unsigned_of_nat list_all_iff) (auto intro!: take_bit_nat_eq_self)
  have "inj_on (\<lambda>n. of_nat (n + EPOCH) :: u64) (set ns)" by (rule inj_onI) (metis u add_right_cancel)
  then have "distinct (map snd (cw_log x))" unfolding c(1) using assms(4) by (simp add: distinct_map)
  moreover have "0 \<notin> set (map snd (cw_log x))"
  proof
    assume "0 \<in> set (map snd (cw_log x))"
    then obtain n where "n \<in> set ns" "of_nat (n + EPOCH) = (0 :: u64)" unfolding c(1) by auto
    with u [of n] show False by simp
  qed
  moreover have "correlate_activity (fst (cw_log x ! j)) (cw_corr x) = snd (cw_log x ! j)"
    if "j < length ns" "Max (set ns) - ns ! j < 2147483648" for j
  proof -
    have "fold max ns 0 = Max (insert 0 (set ns))" using Max.set_eq_fold [of 0 ns] by simp
    also have "\<dots> = Max (set ns)" using that(1) by (subst Max_insert) auto
    finally have f: "fold max ns 0 = Max (set ns)" .
    have "ns ! j \<le> Max (set ns)" using that(1) by simp
    then have "correlate_activity (of_nat (ns ! j)) (cw_corr x) = of_nat (ns ! j + EPOCH)"
      unfolding c(2) using activity_placed [of "fold max ns 0" "ns ! j"] mx that(2) by (simp add: f)
    moreover have "fst (cw_log x ! j) = of_nat (ns ! j)"
      using arg_cong [OF assms(2), of "\<lambda>l. l ! j"] that(1) len by simp
    moreover have "snd (cw_log x ! j) = of_nat (ns ! j + EPOCH)"
      using arg_cong [OF c(1), of "\<lambda>l. l ! j"] that(1) len by simp
    ultimately show ?thesis by simp
  qed
  ultimately show ?thesis by blast
qed

text \<open>
  C22: a reordering across the wrap breaks the join. Two threads draw the last id before the wrap and
  the first after it, and the second takes effect first: the late launch is taken for an advance of
  the new epoch, the launch after it for another wrap, and the activity record of the first launch
  of the new epoch is given a correlation no launch has.
\<close>

theorem wrap_reordering_breaks_join:
  "\<exists>x. corr_step\<^sup>*\<^sup>* (corr_start 2) x \<and> map fst (cw_log x) = [0xFFFFFFFE, 0, 0xFFFFFFFF, 1] \<and>
     correlate_activity 0 (cw_corr x) \<notin> set (map snd (cw_log x))"
proof -
  have "corr_run [0xFFFFFFFE, 0, 0xFFFFFFFF, 1] 0 = ([0x1FFFFFFFE, 0x200000000, 0x2FFFFFFFF, 0x300000001], 0x200000001)"
    by (simp add: correlate_launch_def corr_round_def make_corr_def Let_def)
  then obtain x where "corr_step\<^sup>*\<^sup>* (corr_start 2) x" "cw_log x = zip [0xFFFFFFFE, 0, 0xFFFFFFFF, 1] [0x1FFFFFFFE, 0x200000000, 0x2FFFFFFFF, 0x300000001]"
    "cw_corr x = 0x200000001"
    using corr_calls_reachable [of 1 "[0xFFFFFFFE, 0, 0xFFFFFFFF, 1]", unfolded Suc_1] by auto
  moreover have "correlate_activity 0 0x200000001 = 0x300000000" by (simp add: correlate_activity_def make_corr_def Let_def)
  ultimately show ?thesis by (intro exI [of _ x]) simp
qed

section \<open>A concrete history\<close>

text \<open>The ids wrap between the third launch and the fourth, and two launches of the new epoch are reordered.\<close>

theorem launch_activity_correlate_witness:
  "\<exists>x. corr_step\<^sup>*\<^sup>* (corr_start 2) x \<and> map fst (cw_log x) = [0, 0x7FFFFFFF, 0xFFFFFFFE, 1, 0] \<and> distinct (map snd (cw_log x)) \<and>
     correlate_activity 0xFFFFFFFE (cw_corr x) = snd (cw_log x ! 2) \<and> correlate_activity 0 (cw_corr x) = snd (cw_log x ! 4)"
proof -
  let ?ns = "[0, 2147483647, 4294967294, 4294967297, 4294967296] :: nat list"
  obtain x where x: "corr_step\<^sup>*\<^sup>* (corr_start 2) x" "cw_log x = zip (map of_nat ?ns) (fst (corr_run (map of_nat ?ns) 0))"
    using corr_calls_reachable [of 1 "map of_nat ?ns", unfolded Suc_1] by blast
  have m: "map fst (cw_log x) = map of_nat ?ns" unfolding x(2) by (simp add: case_prod_unfold Let_def)
  have "placed_all 0 ?ns" by (simp add: placed_def)
  note at = launch_activity_correlate [OF x(1) m this]
  have l: "length (cw_log x) = 5" using arg_cong [OF m, of length] by simp
  have f: "fst (cw_log x ! 2) = 0xFFFFFFFE" "fst (cw_log x ! 4) = 0"
    using arg_cong [OF m, of "\<lambda>l. l ! 2"] arg_cong [OF m, of "\<lambda>l. l ! 4"] l by simp_all
  have "distinct (map snd (cw_log x))" using at by simp
  moreover have "correlate_activity 0xFFFFFFFE (cw_corr x) = snd (cw_log x ! 2)" "correlate_activity 0 (cw_corr x) = snd (cw_log x ! 4)"
    using at [THEN conjunct2, THEN conjunct2, THEN spec, of 2] at [THEN conjunct2, THEN conjunct2, THEN spec, of 4] by (simp_all add: f)
  ultimately show ?thesis using x(1) m by (intro exI [of _ x]) simp
qed

end
