(* ===== verification/Cupti_State.thy ===== *)
theory Cupti_State
  imports Shim_Transport Shim_Tier Shim_Burst
begin

text \<open>
  The state the handlers of the NVIDIA adapter share, \<open>src/shim/nvidia/cupti_adapter.cc\<close>, and what
  they see of their surroundings.

  The vendor library is a parameter: every call the adapter makes is appended to \<open>pa_calls\<close>, and what
  a call answers is an arbitrary function, in the record \<open>env\<close>, of the calls made so far. The same
  record answers whether a consumer listens to a probe (a semaphore that may change between any two
  questions), what the clock reads, whether the driver's synchronise call is found in the process, and
  how doubles are rounded. The counters of the file are the constructors of \<open>counter\<close>,
  with the names the source gives them; a probe that is fired is appended to \<open>pa_wire\<close> with its
  sequence number. Log lines are not modelled.
\<close>

section \<open>The vendor library\<close>

type_synonym CUcontext = u64

datatype CUptiResult = CUPTI_SUCCESS | CUPTI_ERROR_OUT_OF_MEMORY | CUPTI_ERROR_MAX_LIMIT_REACHED | CUPTI_ERROR nat

datatype collection_mode = MODE_CONTINUOUS | MODE_KERNEL_SERIALIZED

datatype config_info = COLLECTION_MODE collection_mode | ENABLE_START_STOP_CONTROL u32 | STALL_REASON u64 "u32 list"
  | OUTPUT_DATA_FORMAT_PARSED | SAMPLING_DATA_BUFFER CUcontext | SAMPLING_PERIOD u32 | SCRATCH_BUFFER_SIZE u64
  | HARDWARE_BUFFER_SIZE u64 | WORKER_THREAD_PERIODIC_SLEEP_SPAN u32

record stall_sample =
  sr_index :: u32
  sr_samples :: u32

record pc_data =
  pd_cubinCrc :: u64
  pd_pcOffset :: u64
  pd_functionIndex :: u32
  pd_correlationId :: u32
  pd_stallReasonCount :: u64
  pd_stallReason :: "stall_sample list"

record pc_sampling_data =
  sd_totalNumPcs :: u64
  sd_remainingNumPcs :: u64
  sd_totalSamples :: u64
  sd_droppedSamples :: u64
  sd_nonUsrKernelsTotalSamples :: u64
  sd_hardwareBufferFull :: bool
  sd_pcs :: "pc_data list"

datatype callback_domain = RUNTIME_API_DOMAIN | RESOURCE_DOMAIN | DRIVER_API_DOMAIN | STATE_DOMAIN

datatype activity_kind = CONCURRENT_KERNEL_KIND | DEVICE_KIND

datatype vcall = PCSamplingEnable CUcontext | PCSamplingDisable CUcontext | PCSamplingGetNumStallReasons CUcontext
  | PCSamplingGetStallReasons CUcontext u64 | PCSamplingSetConfigurationAttribute CUcontext "config_info list"
  | PCSamplingGetConfigurationAttribute CUcontext | PCSamplingGetData CUcontext | PCSamplingStart CUcontext
  | PCSamplingStop CUcontext | CuCtxSynchronize | GetTimestamp | ActivityFlushAll u32 | Subscribe | EnableDomain callback_domain
  | ActivityRegisterCallbacks | ActivityEnable activity_kind

datatype probe = P_launch | P_exec | P_sampled | P_name | P_module | P_pc | P_stall | P_config | P_window | P_dropped

record env =
  v_result :: "vcall list \<Rightarrow> CUptiResult"
  v_num_stalls :: "vcall list \<Rightarrow> u64"
  v_stalls :: "vcall list \<Rightarrow> (u32 \<times> string option) list"
  v_stall_string_size :: nat
  v_attr_status :: "vcall list \<Rightarrow> CUptiResult list"
  v_period :: "vcall list \<Rightarrow> CUptiResult \<times> u32"
  v_data :: "vcall list \<Rightarrow> pc_sampling_data"
  v_timestamp :: "vcall list \<Rightarrow> u64"
  v_crc :: "u8 list \<Rightarrow> CUptiResult \<times> u64"
  e_sem :: "probe \<Rightarrow> nat \<Rightarrow> bool"
  e_batch_sem :: "probe \<Rightarrow> nat \<Rightarrow> bool"
  e_clock :: "nat \<Rightarrow> u64"
  e_sync_found :: bool
  e_round :: "real \<Rightarrow> real"

section \<open>Records\<close>

abbreviation GPU_DROP_CLASS_PC_DROPPED_HW :: u8 where "GPU_DROP_CLASS_PC_DROPPED_HW \<equiv> 1"
abbreviation GPU_DROP_CLASS_PC_BUFFER_FULL :: u8 where "GPU_DROP_CLASS_PC_BUFFER_FULL \<equiv> 2"
abbreviation GPU_DROP_CLASS_PC_NON_USER_KERNEL :: u8 where "GPU_DROP_CLASS_PC_NON_USER_KERNEL \<equiv> 3"
abbreviation GPU_DROP_CLASS_GRAPH_EXEC :: u8 where "GPU_DROP_CLASS_GRAPH_EXEC \<equiv> 4"
abbreviation GPU_VENDOR_NVIDIA :: u8 where "GPU_VENDOR_NVIDIA \<equiv> 1"
abbreviation GPU_SAMPLING_MODE_KERNEL_SERIALIZED :: u8 where "GPU_SAMPLING_MODE_KERNEL_SERIALIZED \<equiv> 2"

record pc_sample =
  ps_cubin_crc :: u64
  ps_correlation :: u64
  ps_pc_offset :: u64
  ps_function_index :: u32
  ps_stall_index :: u32
  ps_count :: u32

record stall_map =
  sm_name_len :: u16
  sm_truncated :: u8
  sm_name :: "char list"

record gpu_config =
  gc_clock_hz :: u64
  gc_sampling_factor :: u32
  gc_sm_count :: u32
  gc_vendor :: u8

record module_load =
  ml_cubin_crc :: u64
  ml_module_id :: u64
  ml_size_bytes :: u64
  ml_load_ns :: u64
  ml_bytes :: "u8 list"

record launch_sampled =
  ls_correlation :: u64
  ls_kernel_id :: u64
  ls_queue_id :: u64
  ls_context_id :: u64
  ls_time_ns :: u64
  ls_tid :: u32
  ls_sample_period :: u32
  ls_launch_seq :: u64

record sampling_window =
  sw_start_ns :: u64
  sw_end_ns :: u64
  sw_mode :: u8
  sw_next_start_delta_ms :: u32

text \<open>What a probe that is fired outside a batch carries.\<close>

datatype wire = W_dropped u64 u8 | W_stall "u32 \<times> stall_map" | W_config gpu_config | W_window sampling_window
  | W_name kernel_name | W_sampled launch_sampled | W_module module_load

section \<open>The state\<close>

datatype (plugins only:) counter = g_ctx_seen | g_ctx_enabled | g_ctx_enable_failed | g_ctx_destroyed | g_ctx_disable_failed | g_pc_records
  | g_pc_pcs | g_pc_getdata_calls | g_pc_getdata_failed | g_pc_drain_rounds_capped | g_pc_dropped_hw | g_pc_buffer_full
  | g_pc_non_user | g_pc_total_samples | g_pc_emitted_counts | g_pc_unattached | g_pc_zero_stall | g_module_unload_drains
  | g_finalize_seen | g_finalize_contended | g_exec_from_graph | g_graph_exec_reported | g_config_emitted | g_config_no_device
  | g_sampling_bursts | g_sampling_burst_ns | g_windows_emitted | g_burst_start_failed | g_burst_stop_failed
  | g_tier_a_graph_refused | g_burst_calls_on_timer | g_burst_sync_missing | g_burst_sync_failed | g_burst_enter_polls
  | g_burst_exit_polls | g_bursts_empty | g_pc_pcs_at_open | g_launch_ordinal | g_launch_unattached | g_exec_unattached
  | g_exec_no_clock | g_exec_no_time | g_activity_records | g_activity_other | g_cupti_dropped | g_buffers
  | g_buffer_alloc_failed | g_module_retained | g_module_no_bytes | g_multi_device | g_pc_tier_refused

record pc_context =
  px_ctx :: CUcontext
  px_pcs :: "pc_data list"
  px_last_dropped :: u64
  px_last_non_user :: u64
  px_enabled :: bool

record pc_state =
  pa_calls :: "vcall list"
  pa_asked :: nat
  pa_reads :: nat
  pa_n :: "counter \<Rightarrow> u64"
  pa_seq :: "probe \<Rightarrow> u64"
  pa_wire :: "(wire \<times> u64) list"
  pa_pcb :: "pc_sample batch"
  pa_replay :: "(module_load, stall_map, gpu_config) replay_log"
  pa_schedule :: pc_drain
  pa_pc_enabled :: bool
  pa_tier_a :: bool
  pa_period :: u32
  pa_collect_num_pcs :: u64
  pa_scratch_bytes :: u64
  pa_hw_buffer_bytes :: u64
  pa_worker_sleep_ms :: u32
  pa_stall_indices :: "u32 list"
  pa_num_stall_reasons :: u64
  pa_stall_queried :: bool
  pa_ctxs :: "pc_context list"

definition add_to :: "counter \<Rightarrow> u64 \<Rightarrow> 'a pc_state_scheme \<Rightarrow> 'a pc_state_scheme" where
  "add_to c d s = s\<lparr>pa_n := (pa_n s)(c := pa_n s c + d)\<rparr>"

abbreviation bump :: "counter \<Rightarrow> 'a pc_state_scheme \<Rightarrow> 'a pc_state_scheme" where
  "bump c \<equiv> add_to c 1"

definition cupti :: "env \<Rightarrow> vcall \<Rightarrow> 'a pc_state_scheme \<Rightarrow> CUptiResult \<times> 'a pc_state_scheme" where
  "cupti ev c s = (v_result ev (pa_calls s @ [c]), s\<lparr>pa_calls := pa_calls s @ [c]\<rparr>)"

definition probe_enabled :: "env \<Rightarrow> probe \<Rightarrow> 'a pc_state_scheme \<Rightarrow> bool \<times> 'a pc_state_scheme" where
  "probe_enabled ev p s = (e_sem ev p (pa_asked s), s\<lparr>pa_asked := Suc (pa_asked s)\<rparr>)"

definition probe_emit :: "probe \<Rightarrow> wire \<Rightarrow> 'a pc_state_scheme \<Rightarrow> 'a pc_state_scheme" where
  "probe_emit p w s = s\<lparr>pa_wire := pa_wire s @ [(w, pa_seq s p)], pa_seq := (pa_seq s)(p := pa_seq s p + 1)\<rparr>"

definition mono_ns :: "env \<Rightarrow> 'a pc_state_scheme \<Rightarrow> u64 \<times> 'a pc_state_scheme" where
  "mono_ns ev s = (e_clock ev (pa_reads s), s\<lparr>pa_reads := Suc (pa_reads s)\<rparr>)"

definition emit_if_enabled :: "env \<Rightarrow> probe \<Rightarrow> wire \<Rightarrow> 'a pc_state_scheme \<Rightarrow> 'a pc_state_scheme" where
  "emit_if_enabled ev p w s = (let (on, s) = probe_enabled ev p s in if on then probe_emit p w s else s)"

end
