(* ===== verification/Cupti_Pc.thy ===== *)
theory Cupti_Pc
  imports Cupti_State "HOL-Library.Multiset"
begin

text \<open>
  PC sampling in the NVIDIA adapter, \<open>src/shim/nvidia/cupti_adapter.cc\<close>: the stall-reason table,
  enabling and configuring a context, pulling its PC data, and the resource callbacks that do so.
  The CUPTI guard is held across each handler, so a handler is one step.

  The lemmas show that the adapter follows the vendor's protocol in any sequence of callbacks (a
  context is pulled, configured, started, stopped and disabled only while it is enabled, and no
  context is left enabled that the adapter does not track), that every context is counted as
  enabled or failed, that a pull makes at most 64 calls and turns every pair of an instruction and a
  stall reason into one record or one count, and that the losses reported are the vendor's
  cumulative counters.
\<close>

section \<open>Losses and stall reasons\<close>

definition emit_dropped :: "env \<Rightarrow> u64 \<Rightarrow> u8 \<Rightarrow> 'a pc_state_scheme \<Rightarrow> 'a pc_state_scheme" where
  "emit_dropped ev cnt klass s = (if cnt = 0 then s else emit_if_enabled ev P_dropped (W_dropped cnt klass) s)"

text \<open>\<open>fill d n xs\<close>: an array of \<open>n\<close> elements \<open>d\<close> whose front the vendor has overwritten with \<open>xs\<close>.\<close>

definition fill :: "'b \<Rightarrow> nat \<Rightarrow> 'b list \<Rightarrow> 'b list" where
  "fill d n xs = take n xs @ replicate (n - length xs) d"

definition stall_map_rec :: "env \<Rightarrow> u32 \<times> string option \<Rightarrow> u32 \<times> stall_map" where
  "stall_map_rec ev r =
     (let nm = (case snd r of None \<Rightarrow> '''' | Some nm \<Rightarrow> nm);
          len = min (length nm) (v_stall_string_size ev);
          n = (if len > GPU_STALL_NAME_MAX then GPU_STALL_NAME_MAX else len)
      in (fst r, \<lparr>sm_name_len = of_nat n, sm_truncated = (if len > GPU_STALL_NAME_MAX then 1 else 0),
                  sm_name = take n nm @ replicate (GPU_STALL_NAME_MAX - n) (CHR 0x00)\<rparr>))"

definition publish_stall :: "env \<Rightarrow> u32 \<times> string option \<Rightarrow> 'a pc_state_scheme \<Rightarrow> 'a pc_state_scheme" where
  "publish_stall ev r s =
     (let m = stall_map_rec ev r; s = s\<lparr>pa_replay := snd (record_stall_reason m (pa_replay s))\<rparr>
      in emit_if_enabled ev P_stall (W_stall m) s)"

definition pc_query_stall_reasons :: "env \<Rightarrow> CUcontext \<Rightarrow> 'a pc_state_scheme \<Rightarrow> bool \<times> 'a pc_state_scheme" where
  "pc_query_stall_reasons ev ctx s =
     (if pa_stall_queried s then (pa_num_stall_reasons s > 0, s)
      else
        let s = s\<lparr>pa_stall_queried := True\<rparr>;
            (st, s) = cupti ev (PCSamplingGetNumStallReasons ctx) s;
            num = v_num_stalls ev (pa_calls s)
        in if st \<noteq> CUPTI_SUCCESS then (False, s)
           else if num = 0 then (False, s)
           else
             let (st, s) = cupti ev (PCSamplingGetStallReasons ctx num) s;
                 reasons = fill (0, Some '''') (unat num) (v_stalls ev (pa_calls s))
             in if st \<noteq> CUPTI_SUCCESS then (False, s)
                else
                  let s = s\<lparr>pa_stall_indices := map fst reasons, pa_num_stall_reasons := num\<rparr>
                  in (True, fold (publish_stall ev) reasons s))"

section \<open>Contexts\<close>

definition zero_pc :: "nat \<Rightarrow> pc_data" where
  "zero_pc n = \<lparr>pd_cubinCrc = 0, pd_pcOffset = 0, pd_functionIndex = 0, pd_correlationId = 0, pd_stallReasonCount = 0,
     pd_stallReason = replicate n \<lparr>sr_index = 0, sr_samples = 0\<rparr>\<rparr>"

definition pc_setup_buffer :: "'a pc_state_scheme \<Rightarrow> pc_context \<Rightarrow> pc_context" where
  "pc_setup_buffer s c = c\<lparr>px_pcs := replicate (unat (pa_collect_num_pcs s)) (zero_pc (unat (pa_num_stall_reasons s)))\<rparr>"

definition pc_disable_ctx :: "env \<Rightarrow> pc_context \<Rightarrow> 'a pc_state_scheme \<Rightarrow> pc_context \<times> 'a pc_state_scheme" where
  "pc_disable_ctx ev c s =
     (if \<not> px_enabled c then (c, s)
      else
        let (st, s) = cupti ev (PCSamplingDisable (px_ctx c)) s
        in (c\<lparr>px_enabled := False\<rparr>, if st \<noteq> CUPTI_SUCCESS then bump g_ctx_disable_failed s else s))"

definition pc_config :: "CUcontext \<Rightarrow> 'a pc_state_scheme \<Rightarrow> config_info list" where
  "pc_config ctx s =
     [COLLECTION_MODE (if pa_tier_a s then MODE_KERNEL_SERIALIZED else MODE_CONTINUOUS)] @
     (if pa_tier_a s then [ENABLE_START_STOP_CONTROL 1] else []) @
     [STALL_REASON (pa_num_stall_reasons s) (pa_stall_indices s), OUTPUT_DATA_FORMAT_PARSED, SAMPLING_DATA_BUFFER ctx] @
     (if pa_period s \<noteq> 0 then [SAMPLING_PERIOD (pa_period s)] else []) @
     (if pa_scratch_bytes s \<noteq> 0 then [SCRATCH_BUFFER_SIZE (pa_scratch_bytes s)] else []) @
     (if pa_hw_buffer_bytes s \<noteq> 0 then [HARDWARE_BUFFER_SIZE (pa_hw_buffer_bytes s)] else []) @
     (if pa_worker_sleep_ms s \<noteq> 0 then [WORKER_THREAD_PERIODIC_SLEEP_SPAN (pa_worker_sleep_ms s)] else [])"

text \<open>The context is given up after the enable: it is disabled again and its record deleted.\<close>

definition pc_enable_undo :: "env \<Rightarrow> pc_context \<Rightarrow> 'a pc_state_scheme \<Rightarrow> 'a pc_state_scheme" where
  "pc_enable_undo ev c s = bump g_ctx_enable_failed (snd (pc_disable_ctx ev c s))"

definition pc_read_period :: "env \<Rightarrow> CUcontext \<Rightarrow> 'a pc_state_scheme \<Rightarrow> 'a pc_state_scheme" where
  "pc_read_period ev ctx s =
     (if pa_period s \<noteq> 0 then s
      else
        let (st, s) = cupti ev (PCSamplingGetConfigurationAttribute ctx) s; (attr, period) = v_period ev (pa_calls s)
        in if st = CUPTI_SUCCESS \<and> attr = CUPTI_SUCCESS then s\<lparr>pa_period := period\<rparr> else s)"

definition pc_enable_ctx :: "env \<Rightarrow> CUcontext \<Rightarrow> 'a pc_state_scheme \<Rightarrow> 'a pc_state_scheme" where
  "pc_enable_ctx ev ctx s =
     (if pa_tier_a s \<and> pa_n s g_exec_from_graph \<noteq> 0 then bump g_ctx_enable_failed (bump g_tier_a_graph_refused s)
      else
        let (st, s) = cupti ev (PCSamplingEnable ctx) s
        in if st \<noteq> CUPTI_SUCCESS then bump g_ctx_enable_failed s
           else
             let c = \<lparr>px_ctx = ctx, px_pcs = [], px_last_dropped = 0, px_last_non_user = 0, px_enabled = True\<rparr>;
                 (ok, s) = pc_query_stall_reasons ev ctx s
             in if \<not> ok then pc_enable_undo ev c s
                else
                  let c = pc_setup_buffer s c;
                      info = pc_config ctx s;
                      (st, s) = cupti ev (PCSamplingSetConfigurationAttribute ctx info) s
                  in if st \<noteq> CUPTI_SUCCESS then pc_enable_undo ev c s
                     else if \<not> list_all (\<lambda>a. a = CUPTI_SUCCESS) (fill CUPTI_SUCCESS (length info) (v_attr_status ev (pa_calls s)))
                     then pc_enable_undo ev c s
                     else
                       let s = pc_read_period ev ctx s
                       in bump g_ctx_enabled (s\<lparr>pa_ctxs := pa_ctxs s @ [c]\<rparr>))"

section \<open>Pulling PC data\<close>

abbreviation kPCMaxDrainRounds :: nat where "kPCMaxDrainRounds \<equiv> 64"

definition pc_add_pair :: "env \<Rightarrow> pc_data \<Rightarrow> stall_sample \<Rightarrow> 'a pc_state_scheme \<Rightarrow> 'a pc_state_scheme" where
  "pc_add_pair ev pc sr s =
     (if sr_samples sr = 0 then bump g_pc_zero_stall s
      else
        let r = \<lparr>ps_cubin_crc = pd_cubinCrc pc, ps_correlation = ucast (pd_correlationId pc), ps_pc_offset = pd_pcOffset pc,
                 ps_function_index = pd_functionIndex pc, ps_stall_index = sr_index sr, ps_count = sr_samples sr\<rparr>;
            s = add_to g_pc_emitted_counts (ucast (sr_samples sr)) s;
            (added, b) = batch_add (e_batch_sem ev P_pc) r (pa_pcb s);
            s = s\<lparr>pa_pcb := b\<rparr>
        in if added then bump g_pc_records s else bump g_pc_unattached s)"

definition pc_add_pc :: "env \<Rightarrow> pc_data \<Rightarrow> 'a pc_state_scheme \<Rightarrow> 'a pc_state_scheme" where
  "pc_add_pc ev pc s =
     (let nst = min (unat (pd_stallReasonCount pc)) (unat (pa_num_stall_reasons s))
      in fold (\<lambda>j. pc_add_pair ev pc (pd_stallReason pc ! j)) [0..<nst] s)"

text \<open>
  The vendor writes the arrays the context owns; an element it does not write keeps its contents.
\<close>

definition overlay :: "'b list \<Rightarrow> 'b list \<Rightarrow> 'b list" where
  "overlay old new = take (length old) new @ drop (length new) old"

definition write_pcs :: "pc_data list \<Rightarrow> pc_data list \<Rightarrow> pc_data list" where
  "write_pcs old new =
     overlay old (map2 (\<lambda>a b. b\<lparr>pd_stallReason := overlay (pd_stallReason a) (pd_stallReason b)\<rparr>) old new)"

definition pc_dropped_delta :: "env \<Rightarrow> u64 \<Rightarrow> pc_context \<Rightarrow> 'a pc_state_scheme \<Rightarrow> pc_context \<times> 'a pc_state_scheme" where
  "pc_dropped_delta ev tot c s =
     (if tot > px_last_dropped c
      then let d = tot - px_last_dropped c
        in (c\<lparr>px_last_dropped := tot\<rparr>, emit_dropped ev d GPU_DROP_CLASS_PC_DROPPED_HW (add_to g_pc_dropped_hw d s))
      else (c, s))"

definition pc_non_user_delta :: "env \<Rightarrow> u64 \<Rightarrow> pc_context \<Rightarrow> 'a pc_state_scheme \<Rightarrow> pc_context \<times> 'a pc_state_scheme" where
  "pc_non_user_delta ev tot c s =
     (if tot > px_last_non_user c
      then let d = tot - px_last_non_user c
        in (c\<lparr>px_last_non_user := tot\<rparr>, emit_dropped ev d GPU_DROP_CLASS_PC_NON_USER_KERNEL (add_to g_pc_non_user d s))
      else (c, s))"

text \<open>What a successful call returned is accounted for and put on the wire, one record per pair.\<close>

definition pc_take_data :: "env \<Rightarrow> pc_sampling_data \<Rightarrow> pc_context \<Rightarrow> 'a pc_state_scheme \<Rightarrow> pc_context \<times> 'a pc_state_scheme" where
  "pc_take_data ev d c s =
     (let c = c\<lparr>px_pcs := write_pcs (px_pcs c) (sd_pcs d)\<rparr>;
          s = (if sd_hardwareBufferFull d then emit_dropped ev 1 GPU_DROP_CLASS_PC_BUFFER_FULL (bump g_pc_buffer_full s) else s);
          (c, s) = pc_dropped_delta ev (sd_droppedSamples d) c s;
          (c, s) = pc_non_user_delta ev (sd_nonUsrKernelsTotalSamples d) c s;
          s = add_to g_pc_total_samples (sd_totalSamples d) s;
          npcs = min (unat (sd_totalNumPcs d)) (unat (pa_collect_num_pcs s));
          s = add_to g_pc_pcs (of_nat npcs) s
      in (c, fold (\<lambda>i. pc_add_pc ev (px_pcs c ! i)) [0..<npcs] s))"

text \<open>One pull; the first component says whether there is more.\<close>

definition pc_drain_round :: "env \<Rightarrow> pc_context \<Rightarrow> 'a pc_state_scheme \<Rightarrow> bool \<times> pc_context \<times> 'a pc_state_scheme" where
  "pc_drain_round ev c s =
     (let s = bump g_pc_getdata_calls s; (st, s) = cupti ev (PCSamplingGetData (px_ctx c)) s; d = v_data ev (pa_calls s)
      in if st = CUPTI_ERROR_OUT_OF_MEMORY
         then (False, c, emit_dropped ev 1 GPU_DROP_CLASS_PC_BUFFER_FULL (bump g_pc_buffer_full s))
         else if st \<noteq> CUPTI_SUCCESS then (False, c, bump g_pc_getdata_failed s)
         else (sd_remainingNumPcs d \<noteq> 0, pc_take_data ev d c s))"

fun pc_drain_rounds :: "env \<Rightarrow> nat \<Rightarrow> pc_context \<Rightarrow> 'a pc_state_scheme \<Rightarrow> pc_context \<times> 'a pc_state_scheme" where
  "pc_drain_rounds ev 0 c s = (c, s)"
| "pc_drain_rounds ev (Suc n) c s =
     (let (more, c, s) = pc_drain_round ev c s
      in if \<not> more then (c, s)
         else pc_drain_rounds ev n c (if n = 0 then bump g_pc_drain_rounds_capped s else s))"

definition pc_drain_ctx_locked :: "env \<Rightarrow> pc_context \<Rightarrow> 'a pc_state_scheme \<Rightarrow> pc_context \<times> 'a pc_state_scheme" where
  "pc_drain_ctx_locked ev c s = (if \<not> px_enabled c then (c, s) else pc_drain_rounds ev kPCMaxDrainRounds c s)"

text \<open>A step that may change a context, taken on each of them in turn.\<close>

fun each_ctx ::
  "(pc_context \<Rightarrow> 'a pc_state_scheme \<Rightarrow> pc_context \<times> 'a pc_state_scheme) \<Rightarrow> pc_context list \<Rightarrow> 'a pc_state_scheme \<Rightarrow>
   pc_context list \<times> 'a pc_state_scheme" where
  "each_ctx f [] s = ([], s)"
| "each_ctx f (c # cs) s = (let (c, s) = f c s; (cs, s) = each_ctx f cs s in (c # cs, s))"

definition all_ctxs :: "(pc_context \<Rightarrow> 'a pc_state_scheme \<Rightarrow> pc_context \<times> 'a pc_state_scheme) \<Rightarrow> 'a pc_state_scheme \<Rightarrow> 'a pc_state_scheme" where
  "all_ctxs f s = (let (cs, s) = each_ctx f (pa_ctxs s) s in s\<lparr>pa_ctxs := cs\<rparr>)"

definition flush_pcb :: "env \<Rightarrow> 'a pc_state_scheme \<Rightarrow> 'a pc_state_scheme" where
  "flush_pcb ev s = s\<lparr>pa_pcb := batch_flush (e_batch_sem ev P_pc) (pa_pcb s)\<rparr>"

definition pc_drain_all :: "env \<Rightarrow> PCDrainReason \<Rightarrow> 'a pc_state_scheme \<Rightarrow> 'a pc_state_scheme" where
  "pc_drain_all ev reason s =
     (let s = all_ctxs (pc_drain_ctx_locked ev) s in if reason \<noteq> kPeriodic then flush_pcb ev s else s)"

definition pc_teardown_ctx :: "env \<Rightarrow> pc_context \<Rightarrow> 'a pc_state_scheme \<Rightarrow> pc_context \<times> 'a pc_state_scheme" where
  "pc_teardown_ctx ev c s = (let (c, s) = pc_drain_ctx_locked ev c s in pc_disable_ctx ev c s)"

section \<open>Resource callbacks\<close>

datatype resource_cbid = CONTEXT_CREATED | CONTEXT_DESTROY_STARTING | MODULE_LOADED | MODULE_UNLOAD_STARTING | RESOURCE_OTHER nat

text \<open>The first tracked context with this handle is drained, disabled and deleted.\<close>

fun pc_destroy_ctx ::
  "env \<Rightarrow> CUcontext \<Rightarrow> pc_context list \<Rightarrow> 'a pc_state_scheme \<Rightarrow> pc_context list \<times> 'a pc_state_scheme" where
  "pc_destroy_ctx ev ctx [] s = ([], s)"
| "pc_destroy_ctx ev ctx (c # cs) s =
     (if px_ctx c \<noteq> ctx then let (cs, s) = pc_destroy_ctx ev ctx cs s in (c # cs, s)
      else (cs, snd (pc_teardown_ctx ev c s)))"

definition force_schedule :: "env \<Rightarrow> PCDrainReason \<Rightarrow> 'a pc_state_scheme \<Rightarrow> 'a pc_state_scheme" where
  "force_schedule ev reason s = (let (now, s) = mono_ns ev s in s\<lparr>pa_schedule := force now reason (pa_schedule s)\<rparr>)"

definition on_resource :: "env \<Rightarrow> resource_cbid \<Rightarrow> CUcontext option \<Rightarrow> 'a pc_state_scheme \<Rightarrow> 'a pc_state_scheme" where
  "on_resource ev cbid rd s =
     (case rd of None \<Rightarrow> s
      | Some ctx \<Rightarrow>
          if \<not> pa_pc_enabled s then s
          else
            case cbid of
              CONTEXT_CREATED \<Rightarrow> pc_enable_ctx ev ctx (bump g_ctx_seen s)
            | CONTEXT_DESTROY_STARTING \<Rightarrow>
                let s = bump g_ctx_destroyed s;
                    (cs, s) = pc_destroy_ctx ev ctx (pa_ctxs s) s;
                    s = flush_pcb ev (s\<lparr>pa_ctxs := cs\<rparr>)
                in force_schedule ev kTeardown s
            | MODULE_UNLOAD_STARTING \<Rightarrow> pc_drain_all ev kModuleUnload (force_schedule ev kModuleUnload (bump g_module_unload_drains s))
            | _ \<Rightarrow> s)"

section \<open>What the handlers change\<close>

text \<open>
  A relation between states that is kept by the elementary updates of this theory is kept by every
  handler of it: a frame condition is stated once and holds of pulls, enables and callbacks. The
  counters of launches and executions are not theirs to move.
\<close>

abbreviation launch_counters :: "counter set" where
  "launch_counters \<equiv> {g_launch_ordinal, g_launch_unattached, g_exec_unattached, g_exec_no_clock, g_exec_no_time, g_activity_records}"

locale pc_frame =
  fixes ev :: env and R :: "'a pc_state_scheme \<Rightarrow> 'a pc_state_scheme \<Rightarrow> bool"
  assumes same: "R s s"
    and chain: "R s t \<Longrightarrow> R t u \<Longrightarrow> R s u"
    and calls: "R s (s\<lparr>pa_calls := a\<rparr>)"
    and counters: "(\<forall>c \<in> launch_counters. n c = pa_n s c) \<Longrightarrow> R s (s\<lparr>pa_n := n\<rparr>)"
    and reads: "R s (s\<lparr>pa_reads := k\<rparr>)"
    and batch: "R s (s\<lparr>pa_pcb := b\<rparr>)"
    and contexts: "R s (s\<lparr>pa_ctxs := cs\<rparr>)"
    and schedule: "R s (s\<lparr>pa_schedule := d\<rparr>)"
    and period: "R s (s\<lparr>pa_period := p\<rparr>)"
    and queried: "R s (s\<lparr>pa_stall_queried := q\<rparr>)"
    and table: "R s (s\<lparr>pa_stall_indices := is, pa_num_stall_reasons := m\<rparr>)"
    and recorded: "R s (s\<lparr>pa_replay := snd (record_stall_reason r (pa_replay s))\<rparr>)"
    and dropped: "R s (emit_if_enabled ev P_dropped (W_dropped k1 k2) s)"
    and stall: "R s (emit_if_enabled ev P_stall (W_stall r) s)"
begin

lemma count: "c \<notin> launch_counters \<Longrightarrow> R s (add_to c d s)"
  unfolding add_to_def by (rule counters) auto

lemma call: "cupti ev c s = (st, t) \<Longrightarrow> R s t"
  by (auto simp: cupti_def intro: calls)

lemma call_made: "R s (snd (cupti ev c s))"
  by (auto simp: cupti_def intro: calls)

lemma loss: "R s (emit_dropped ev n k s)"
  by (simp add: emit_dropped_def same dropped)

lemma folds: "(\<And>a t. R t (f a t)) \<Longrightarrow> R s (fold f as s)"
  by (induction "as" arbitrary: s) (auto intro: same chain)

lemma pair: "R s (pc_add_pair ev pc sr s)"
proof (cases "sr_samples sr = 0")
  case False
  have "R s (add_to c 1 ((add_to g_pc_emitted_counts d s)\<lparr>pa_pcb := b\<rparr>))" if "c \<notin> launch_counters" for c d b
    by (rule chain [OF chain [OF count batch] count]) (use that in simp_all)
  then show ?thesis using False by (simp add: pc_add_pair_def Let_def split: prod.split)
qed (simp add: pc_add_pair_def count)

lemma pc: "R s (pc_add_pc ev pc s)"
  unfolding pc_add_pc_def Let_def by (rule folds, rule pair)

lemma full: "c \<notin> launch_counters \<Longrightarrow> R s (emit_dropped ev n k (add_to c d s))"
  by (rule chain [OF count loss])

lemma take_data:
  assumes "pc_take_data ev d c s = (c', t)"
  shows "R s t"
proof -
  let ?c = "c\<lparr>px_pcs := write_pcs (px_pcs c) (sd_pcs d)\<rparr>"
  let ?s = "if sd_hardwareBufferFull d then emit_dropped ev 1 GPU_DROP_CLASS_PC_BUFFER_FULL (bump g_pc_buffer_full s) else s"
  obtain c1 s1 where 1: "pc_dropped_delta ev (sd_droppedSamples d) ?c ?s = (c1, s1)" by fastforce
  obtain c2 s2 where 2: "pc_non_user_delta ev (sd_nonUsrKernelsTotalSamples d) c1 s1 = (c2, s2)" by fastforce
  have "R s ?s" by (simp add: full same)
  moreover have "R ?s s1" using 1 by (auto simp: pc_dropped_delta_def Let_def full same split: if_splits)
  moreover have "R s1 s2" using 2 by (auto simp: pc_non_user_delta_def Let_def full same split: if_splits)
  ultimately have "R s s2" by (blast intro: chain)
  moreover have "\<exists>js n m. t = fold (\<lambda>i. pc_add_pc ev (px_pcs c2 ! i)) js (add_to g_pc_pcs n (add_to g_pc_total_samples m s2))"
    using assms 1 2 by (auto simp: pc_take_data_def Let_def)
  ultimately show ?thesis by (auto intro!: chain [OF _ folds [OF pc]] chain [OF _ count])
qed

lemma round:
  assumes "pc_drain_round ev c s = (go, c', t)"
  shows "R s t"
proof -
  obtain st u where u: "cupti ev (PCSamplingGetData (px_ctx c)) (bump g_pc_getdata_calls s) = (st, u)" by fastforce
  have "R s u" by (rule chain [OF count call [OF u]]) simp
  moreover have "R u t"
    using assms u by (auto simp: pc_drain_round_def Let_def full count take_data split: if_splits)
  ultimately show ?thesis by (rule chain)
qed

lemma drain_ctx:
  assumes "pc_drain_ctx_locked ev c s = (c', t)"
  shows "R s t"
proof -
  have "pc_drain_rounds ev n c s = (c', t) \<Longrightarrow> R s t" for n c s
  proof (induction n arbitrary: c s)
    case (Suc n)
    obtain go d u where r: "pc_drain_round ev c s = (go, d, u)" by (metis prod_cases3)
    show ?case using Suc r round [OF r] by (auto split: if_splits intro: chain [OF _ chain [OF count]] chain)
  qed (simp add: same)
  then show ?thesis using assms same by (auto simp: pc_drain_ctx_locked_def split: if_splits)
qed

lemma disable_ctx: "pc_disable_ctx ev c s = (c', t) \<Longrightarrow> R s t"
  by (auto simp: pc_disable_ctx_def Let_def case_prod_unfold same intro: chain [OF call_made count] call_made split: if_splits)

lemma teardown_ctx:
  assumes "pc_teardown_ctx ev c s = (c', t)"
  shows "R s t"
proof -
  obtain d u where d: "pc_drain_ctx_locked ev c s = (d, u)" by fastforce
  then have "pc_disable_ctx ev d u = (c', t)" using assms by (simp add: pc_teardown_ctx_def)
  with d show ?thesis by (blast intro: chain drain_ctx disable_ctx)
qed

lemma each:
  assumes "\<And>c s c' t. f c s = (c', t) \<Longrightarrow> R s t"
  shows "each_ctx f cs s = (cs', t) \<Longrightarrow> R s t"
proof (induction cs arbitrary: s cs')
  case (Cons c cs)
  obtain d u where d: "f c s = (d, u)" by fastforce
  then show ?case using Cons by (auto simp: Let_def split: prod.splits intro: chain [OF assms [OF d]])
qed (simp add: same)

lemma all:
  assumes "\<And>c s c' t. f c s = (c', t) \<Longrightarrow> R s t"
  shows "R s (all_ctxs f s)"
  using each [of f, OF assms] by (auto simp: all_ctxs_def Let_def split: prod.split intro: chain [OF _ contexts])

lemma flush: "R s (flush_pcb ev s)"
  unfolding flush_pcb_def by (rule batch)

lemma forced: "R s (force_schedule ev r s)"
  by (auto simp: force_schedule_def mono_ns_def Let_def intro: chain [OF reads schedule])

lemma drain_all: "R s (pc_drain_all ev r s)"
  using all [of "pc_drain_ctx_locked ev", OF drain_ctx] by (auto simp: pc_drain_all_def Let_def intro: chain [OF _ flush])

lemma teardown_all: "R s (flush_pcb ev (all_ctxs (pc_teardown_ctx ev) s))"
  by (rule chain [OF all flush]) (erule teardown_ctx)

lemma query:
  assumes "pc_query_stall_reasons ev x s = (ok, t)"
  shows "R s t"
proof -
  have p: "R u (fold (publish_stall ev) rs u)" for rs u
    by (rule folds) (auto simp: publish_stall_def Let_def intro: chain [OF recorded stall])
  show ?thesis
    using assms unfolding pc_query_stall_reasons_def
    by (auto simp: Let_def cupti_def same split: if_splits intro!: chain [OF chain [OF chain [OF queried calls] table] p] chain [OF queried calls])
qed

lemma undo: "R s (pc_enable_undo ev c s)"
  by (auto simp: pc_enable_undo_def intro: chain [OF disable_ctx [of c s "fst (pc_disable_ctx ev c s)"] count])

lemma read_period: "R s (pc_read_period ev x s)"
  by (auto simp: pc_read_period_def Let_def case_prod_unfold same intro: call_made chain [OF call_made period])

lemma enable: "R s (pc_enable_ctx ev x s)"
proof -
  let ?u = "snd (cupti ev (PCSamplingEnable x) s)"
  obtain ok t where q: "pc_query_stall_reasons ev x ?u = (ok, t)" by fastforce
  have t: "R s t" by (rule chain [OF call_made query [OF q]])
  let ?v = "\<lambda>c. snd (cupti ev c t)"
  have v: "R s (?v c)" for c by (rule chain [OF t call_made])
  show ?thesis
    unfolding pc_enable_ctx_def
    by (auto simp: Let_def case_prod_unfold q count call_made t
        intro: chain [OF count count] chain [OF call_made count] chain [OF t undo] chain [OF v undo]
          chain [OF chain [OF chain [OF v read_period] contexts] count])
qed

lemma destroy: "pc_destroy_ctx ev x cs s = (cs', t) \<Longrightarrow> R s t"
proof (induction cs arbitrary: cs')
  case (Cons c cs)
  then show ?case by (auto simp: Let_def intro: teardown_ctx [OF prod.collapse [symmetric]] split: if_splits prod.splits)
qed (simp add: same)

lemma resource: "R s (on_resource ev cb rd s)"
proof (cases "rd = None \<or> \<not> pa_pc_enabled s")
  case False
  then obtain x where x: "rd = Some x" by auto
  obtain cs t where d: "pc_destroy_ctx ev x (pa_ctxs (bump g_ctx_destroyed s)) (bump g_ctx_destroyed s) = (cs, t)" by fastforce
  have d': "R s t" by (rule chain [OF count destroy [OF d]]) simp
  show ?thesis
    using False x d unfolding on_resource_def
    by (cases cb) (auto simp: Let_def same intro: chain [OF count enable] chain [OF chain [OF chain [OF d' contexts] flush] forced]
        chain [OF chain [OF count forced] drain_all])
qed (auto simp: on_resource_def same split: option.split)

end

section \<open>The vendor's protocol\<close>

text \<open>
  Three readings of the calls made so far. The contexts the adapter owes a disable: enabled with
  success and not yet asked to be disabled; a context enabled twice counts twice. All calls but the enable need the context
  to be among them. The contexts on which the vendor samples: enabled with success and not disabled with
  success. The contexts whose disable the vendor refused.
\<close>

fun owed_rev :: "env \<Rightarrow> vcall list \<Rightarrow> CUcontext multiset" where
  "owed_rev ev [] = {#}"
| "owed_rev ev (c # cs) =
     (case c of PCSamplingEnable x \<Rightarrow> if v_result ev (rev (c # cs)) = CUPTI_SUCCESS then add_mset x (owed_rev ev cs) else owed_rev ev cs
      | PCSamplingDisable x \<Rightarrow> owed_rev ev cs - {#x#}
      | _ \<Rightarrow> owed_rev ev cs)"

definition owed_ctxs :: "env \<Rightarrow> vcall list \<Rightarrow> CUcontext multiset" where
  "owed_ctxs ev h = owed_rev ev (rev h)"

fun subject :: "vcall \<Rightarrow> CUcontext option" where
  "subject (PCSamplingDisable x) = Some x"
| "subject (PCSamplingGetNumStallReasons x) = Some x"
| "subject (PCSamplingGetStallReasons x n) = Some x"
| "subject (PCSamplingSetConfigurationAttribute x i) = Some x"
| "subject (PCSamplingGetConfigurationAttribute x) = Some x"
| "subject (PCSamplingGetData x) = Some x"
| "subject (PCSamplingStart x) = Some x"
| "subject (PCSamplingStop x) = Some x"
| "subject _ = None"

fun legal_rev :: "env \<Rightarrow> vcall list \<Rightarrow> bool" where
  "legal_rev ev [] \<longleftrightarrow> True"
| "legal_rev ev (c # cs) \<longleftrightarrow> (case subject c of None \<Rightarrow> True | Some x \<Rightarrow> x \<in># owed_rev ev cs) \<and> legal_rev ev cs"

definition legal :: "env \<Rightarrow> vcall list \<Rightarrow> bool" where
  "legal ev h \<longleftrightarrow> legal_rev ev (rev h)"

fun sampled_rev :: "env \<Rightarrow> vcall list \<Rightarrow> CUcontext multiset" where
  "sampled_rev ev [] = {#}"
| "sampled_rev ev (c # cs) =
     (case c of PCSamplingEnable x \<Rightarrow> if v_result ev (rev (c # cs)) = CUPTI_SUCCESS then add_mset x (sampled_rev ev cs) else sampled_rev ev cs
      | PCSamplingDisable x \<Rightarrow> if v_result ev (rev (c # cs)) = CUPTI_SUCCESS then sampled_rev ev cs - {#x#} else sampled_rev ev cs
      | _ \<Rightarrow> sampled_rev ev cs)"

definition sampled_ctxs :: "env \<Rightarrow> vcall list \<Rightarrow> CUcontext multiset" where
  "sampled_ctxs ev h = sampled_rev ev (rev h)"

fun failed_rev :: "env \<Rightarrow> vcall list \<Rightarrow> CUcontext multiset" where
  "failed_rev ev [] = {#}"
| "failed_rev ev (c # cs) =
     (case c of PCSamplingDisable x \<Rightarrow> if v_result ev (rev (c # cs)) = CUPTI_SUCCESS then failed_rev ev cs else add_mset x (failed_rev ev cs)
      | _ \<Rightarrow> failed_rev ev cs)"

definition failed_disables :: "env \<Rightarrow> vcall list \<Rightarrow> CUcontext multiset" where
  "failed_disables ev h = failed_rev ev (rev h)"

text \<open>In a history in order, the vendor samples what the adapter owes a disable and what it could not disable.\<close>

lemma sampled_owed: "legal ev h \<Longrightarrow> sampled_ctxs ev h = owed_ctxs ev h + failed_disables ev h"
proof -
  have "legal_rev ev cs \<Longrightarrow> sampled_rev ev cs = owed_rev ev cs + failed_rev ev cs" for cs
    by (induction cs) (auto split: vcall.splits)
  then show "legal ev h \<Longrightarrow> sampled_ctxs ev h = owed_ctxs ev h + failed_disables ev h"
    by (simp add: legal_def sampled_ctxs_def owed_ctxs_def failed_disables_def)
qed

text \<open>The refused disables are counted.\<close>

definition failed_counted :: "env \<Rightarrow> 'a pc_state_scheme \<Rightarrow> bool" where
  [simp]: "failed_counted ev s \<longleftrightarrow> pa_n s g_ctx_disable_failed = of_nat (size (failed_disables ev (pa_calls s)))"

lemma failed_disables_simps [simp]:
  "failed_disables ev [] = {#}"
  "failed_disables ev (h @ [PCSamplingDisable x]) =
     (if v_result ev (h @ [PCSamplingDisable x]) = CUPTI_SUCCESS then failed_disables ev h else add_mset x (failed_disables ev h))"
  by (simp_all add: failed_disables_def)

lemma failed_disables_other [simp]: "\<forall>x. c \<noteq> PCSamplingDisable x \<Longrightarrow> failed_disables ev (h @ [c]) = failed_disables ev h"
  by (cases c) (simp_all add: failed_disables_def)

text \<open>A call on context \<open>x\<close> that leaves its enabling alone.\<close>

definition on_ctx :: "CUcontext \<Rightarrow> vcall \<Rightarrow> bool" where
  "on_ctx x c \<longleftrightarrow> subject c = Some x \<and> c \<noteq> PCSamplingDisable x"

lemma owed_ctxs_simps [simp]:
  "owed_ctxs ev [] = {#}"
  "owed_ctxs ev (h @ [PCSamplingEnable x]) =
     (if v_result ev (h @ [PCSamplingEnable x]) = CUPTI_SUCCESS then add_mset x (owed_ctxs ev h) else owed_ctxs ev h)"
  "owed_ctxs ev (h @ [PCSamplingDisable x]) = owed_ctxs ev h - {#x#}"
  by (simp_all add: owed_ctxs_def)

lemma legal_simps [simp]:
  "legal ev []"
  "legal ev (h @ [c]) \<longleftrightarrow> (case subject c of None \<Rightarrow> True | Some x \<Rightarrow> x \<in># owed_ctxs ev h) \<and> legal ev h"
  by (simp_all add: legal_def owed_ctxs_def split: option.split)

lemma owed_ctxs_on_ctx: "on_ctx x c \<Longrightarrow> owed_ctxs ev (h @ [c]) = owed_ctxs ev h"
  by (cases c) (auto simp: owed_ctxs_def on_ctx_def)

lemma failed_disables_on_ctx: "on_ctx x c \<Longrightarrow> failed_disables ev (h @ [c]) = failed_disables ev h"
  by (rule failed_disables_other) (auto simp: on_ctx_def)

lemma failed_disables_pulls [simp]: "failed_disables ev (h @ replicate k (PCSamplingGetData x)) = failed_disables ev h"
  by (induction k) (simp_all add: replicate_append_same [symmetric] append_assoc [symmetric] del: append_assoc)

lemma on_ctxs:
  assumes "list_all (on_ctx x) cs"
  shows "owed_ctxs ev (h @ cs) = owed_ctxs ev h" "x \<in># owed_ctxs ev h \<Longrightarrow> legal ev (h @ cs) \<longleftrightarrow> legal ev h"
proof -
  have *: "owed_ctxs ev (h @ cs) = owed_ctxs ev h" if "list_all (on_ctx x) cs" for cs
    using that by (induction cs rule: rev_induct) (simp_all add: append_assoc [symmetric] owed_ctxs_on_ctx [where x = x] del: append_assoc)
  show "owed_ctxs ev (h @ cs) = owed_ctxs ev h" by (rule * [OF assms])
  show "legal ev (h @ cs) \<longleftrightarrow> legal ev h" if "x \<in># owed_ctxs ev h"
    using assms that by (induction cs rule: rev_induct) (auto simp: append_assoc [symmetric] on_ctx_def * simp del: append_assoc)
qed

section \<open>What a pull leaves alone\<close>

definition pc_counters :: "counter set" where
  "pc_counters = {g_pc_records, g_pc_pcs, g_pc_getdata_calls, g_pc_getdata_failed, g_pc_drain_rounds_capped, g_pc_dropped_hw,
     g_pc_buffer_full, g_pc_non_user, g_pc_total_samples, g_pc_emitted_counts, g_pc_unattached, g_pc_zero_stall}"

definition frame :: "'a pc_state_scheme \<Rightarrow> 'a pc_state_scheme" where
  "frame s = s\<lparr>pa_calls := [], pa_asked := 0, pa_n := \<lambda>c. 0, pa_seq := \<lambda>p. 0, pa_wire := [], pa_pcb := new_batch []\<rparr>"

definition still :: "'a pc_state_scheme \<Rightarrow> 'a pc_state_scheme \<Rightarrow> bool" where
  "still s t \<longleftrightarrow> frame t = frame s \<and> pa_calls t = pa_calls s \<and> (\<forall>c. c \<notin> pc_counters \<longrightarrow> pa_n t c = pa_n s c)"

lemma frame_eqD:
  assumes "frame t = frame s"
  shows "pa_ctxs t = pa_ctxs s" "pa_collect_num_pcs t = pa_collect_num_pcs s" "pa_num_stall_reasons t = pa_num_stall_reasons s"
    "pa_pc_enabled t = pa_pc_enabled s" "pa_tier_a t = pa_tier_a s" "pa_replay t = pa_replay s" "pa_schedule t = pa_schedule s"
    "pa_reads t = pa_reads s" "pa_period t = pa_period s" "pc_state.more t = pc_state.more s"
  using arg_cong [OF assms, of pa_ctxs] arg_cong [OF assms, of pa_collect_num_pcs] arg_cong [OF assms, of pa_num_stall_reasons]
    arg_cong [OF assms, of pa_pc_enabled] arg_cong [OF assms, of pa_tier_a] arg_cong [OF assms, of pa_replay]
    arg_cong [OF assms, of pa_schedule] arg_cong [OF assms, of pa_reads] arg_cong [OF assms, of pa_period]
    arg_cong [OF assms, of pc_state.more]
  by (simp_all add: frame_def)

lemma still_refl [simp, intro]: "still s s"
  by (simp add: still_def)

lemma still_trans: "still s t \<Longrightarrow> still t u \<Longrightarrow> still s u"
  by (simp add: still_def)

lemma still_add_to: "c \<in> pc_counters \<Longrightarrow> still s (add_to c d s)"
  by (auto simp: still_def frame_def add_to_def)

lemma still_pcb: "still s (s\<lparr>pa_pcb := b\<rparr>)"
  by (simp add: still_def frame_def)

lemma still_emit_dropped: "still s (emit_dropped ev cnt k s)"
  by (simp add: still_def frame_def emit_dropped_def emit_if_enabled_def probe_enabled_def probe_emit_def)

lemma still_fold: "(\<And>a t. still t (f a t)) \<Longrightarrow> still s (fold f as s)"
  by (induction "as" arbitrary: s) (auto intro: still_trans)

lemma counters_in [simp]:
  "g_pc_records \<in> pc_counters" "g_pc_pcs \<in> pc_counters" "g_pc_getdata_calls \<in> pc_counters" "g_pc_getdata_failed \<in> pc_counters"
  "g_pc_drain_rounds_capped \<in> pc_counters" "g_pc_dropped_hw \<in> pc_counters" "g_pc_buffer_full \<in> pc_counters"
  "g_pc_non_user \<in> pc_counters" "g_pc_total_samples \<in> pc_counters" "g_pc_emitted_counts \<in> pc_counters"
  "g_pc_unattached \<in> pc_counters" "g_pc_zero_stall \<in> pc_counters"
  by (simp_all add: pc_counters_def)

lemma still_pair: "still s (pc_add_pair ev pc sr s)"
proof (cases "sr_samples sr = 0")
  case False
  have "still s (add_to c 1 ((add_to g_pc_emitted_counts d s)\<lparr>pa_pcb := b\<rparr>))" if "c \<in> pc_counters" for c d b
    by (intro still_trans [OF still_trans [OF still_add_to still_pcb] still_add_to]) (simp_all add: that)
  then show ?thesis using False by (simp add: pc_add_pair_def Let_def split: prod.split)
qed (simp add: pc_add_pair_def still_add_to)

lemma still_pc: "still s (pc_add_pc ev pc s)"
  unfolding pc_add_pc_def Let_def by (rule still_fold, rule still_pair)

lemma still_buffer_full: "still s (emit_dropped ev 1 k (bump g_pc_buffer_full s))"
  by (rule still_trans [OF _ still_emit_dropped]) (simp add: still_add_to)

lemma still_dropped_delta: "pc_dropped_delta ev d c s = (c', s') \<Longrightarrow> still s s' \<and> px_ctx c' = px_ctx c \<and> px_enabled c' = px_enabled c \<and> px_pcs c' = px_pcs c"
  by (auto simp: pc_dropped_delta_def Let_def split: if_splits intro!: still_trans [OF _ still_emit_dropped] still_add_to)

lemma still_non_user_delta: "pc_non_user_delta ev d c s = (c', s') \<Longrightarrow> still s s' \<and> px_ctx c' = px_ctx c \<and> px_enabled c' = px_enabled c \<and> px_pcs c' = px_pcs c"
  by (auto simp: pc_non_user_delta_def Let_def split: if_splits intro!: still_trans [OF _ still_emit_dropped] still_add_to)

definition ctx_wf :: "u64 \<Rightarrow> u64 \<Rightarrow> pc_context \<Rightarrow> bool" where
  "ctx_wf npcs nstalls c \<longleftrightarrow> length (px_pcs c) = unat npcs \<and> list_all (\<lambda>pc. length (pd_stallReason pc) = unat nstalls) (px_pcs c)"

definition same_ctx :: "pc_context \<Rightarrow> pc_context \<Rightarrow> bool" where
  "same_ctx c d \<longleftrightarrow> px_ctx d = px_ctx c \<and> px_enabled d = px_enabled c \<and> (\<forall>m n. ctx_wf m n c \<longrightarrow> ctx_wf m n d)"

lemma length_overlay [simp]: "length (overlay old new) = length old"
  by (simp add: overlay_def)

lemma length_write_pcs [simp]: "length (write_pcs old new) = length old"
  by (simp add: write_pcs_def)

lemma overlay_nth: "i < length old \<Longrightarrow> overlay old new ! i = (if i < length new then new ! i else old ! i)"
  by (auto simp: overlay_def nth_append)

lemma write_pcs_wf:
  assumes "list_all (\<lambda>pc. length (pd_stallReason pc) = n) old"
  shows "list_all (\<lambda>pc. length (pd_stallReason pc) = n) (write_pcs old new)"
  using assms by (auto simp: list_all_length write_pcs_def overlay_nth)

lemma same_ctx_refl [simp]: "same_ctx c c"
  by (simp add: same_ctx_def)

lemma same_ctx_trans: "same_ctx c d \<Longrightarrow> same_ctx d e \<Longrightarrow> same_ctx c e"
  by (simp add: same_ctx_def)

lemma take_data_still:
  assumes "pc_take_data ev d c s = (c', s')"
  shows "still s s' \<and> same_ctx c c'"
proof -
  let ?c = "c\<lparr>px_pcs := write_pcs (px_pcs c) (sd_pcs d)\<rparr>"
  let ?s = "if sd_hardwareBufferFull d then emit_dropped ev 1 GPU_DROP_CLASS_PC_BUFFER_FULL (bump g_pc_buffer_full s) else s"
  obtain c1 s1 where 1: "pc_dropped_delta ev (sd_droppedSamples d) ?c ?s = (c1, s1)" by fastforce
  obtain c2 s2 where 2: "pc_non_user_delta ev (sd_nonUsrKernelsTotalSamples d) c1 s1 = (c2, s2)" by fastforce
  have "still s ?s" by (simp add: still_buffer_full)
  then have "still s s2" using still_dropped_delta [OF 1] still_non_user_delta [OF 2] still_trans by metis
  then have "still s (fold (\<lambda>i. pc_add_pc ev (px_pcs c' ! i)) is (add_to g_pc_pcs n (add_to g_pc_total_samples m s2)))" for "is" n m
    by (intro still_trans [OF _ still_fold [OF still_pc]] still_trans [OF _ still_add_to]) simp_all
  moreover have "px_ctx c2 = px_ctx c" "px_enabled c2 = px_enabled c" "px_pcs c2 = write_pcs (px_pcs c) (sd_pcs d)"
    using still_dropped_delta [OF 1] still_non_user_delta [OF 2] by simp_all
  moreover have "c' = c2" "\<exists>is n m. s' = fold (\<lambda>i. pc_add_pc ev (px_pcs c' ! i)) is (add_to g_pc_pcs n (add_to g_pc_total_samples m s2))"
    using assms 1 2 by (auto simp: pc_take_data_def Let_def)
  ultimately show ?thesis by (auto simp: same_ctx_def ctx_wf_def write_pcs_wf)
qed

text \<open>Some calls that pull data of context \<open>x\<close>, at least one and at most \<open>n\<close>.\<close>

definition pulled :: "CUcontext \<Rightarrow> nat \<Rightarrow> 'a pc_state_scheme \<Rightarrow> 'a pc_state_scheme \<Rightarrow> bool" where
  "pulled x n s t \<longleftrightarrow> frame t = frame s \<and> (\<exists>k. 0 < k \<and> k \<le> n \<and> pa_calls t = pa_calls s @ replicate k (PCSamplingGetData x)) \<and>
     (\<forall>c. c \<notin> pc_counters \<longrightarrow> pa_n t c = pa_n s c)"

lemma pulled_get_data: "pulled x 1 s (snd (cupti ev (PCSamplingGetData x) s))"
  by (auto simp: pulled_def cupti_def frame_def intro!: exI [of _ 1])

lemma still_pulled: "still s t \<Longrightarrow> pulled x n t u \<Longrightarrow> pulled x n s u"
  by (simp add: still_def pulled_def)

lemma pulled_still: "pulled x n s t \<Longrightarrow> still t u \<Longrightarrow> pulled x n s u"
  by (simp add: still_def pulled_def)

lemma pulled_trans: "pulled x m s t \<Longrightarrow> pulled x n t u \<Longrightarrow> pulled x (m + n) s u"
proof -
  assume a: "pulled x m s t" "pulled x n t u"
  then obtain i j where "0 < i" "i \<le> m" "pa_calls t = pa_calls s @ replicate i (PCSamplingGetData x)" "j \<le> n"
    "pa_calls u = pa_calls t @ replicate j (PCSamplingGetData x)" unfolding pulled_def by blast
  then show ?thesis
    using a unfolding pulled_def by (intro conjI exI [of _ "i + j"]) (simp_all add: replicate_add)
qed

lemma pulled_mono: "pulled x m s t \<Longrightarrow> m \<le> n \<Longrightarrow> pulled x n s t"
  unfolding pulled_def by (meson le_trans)

lemma drain_round_pulls:
  assumes "pc_drain_round ev c s = (go, c', s')"
  shows "pulled (px_ctx c) 1 s s' \<and> same_ctx c c'"
proof -
  obtain st t where t: "cupti ev (PCSamplingGetData (px_ctx c)) (bump g_pc_getdata_calls s) = (st, t)" by fastforce
  have p: "pulled (px_ctx c) 1 s t"
    using still_pulled [OF still_add_to [of g_pc_getdata_calls s 1] pulled_get_data, of "px_ctx c" ev] t by simp
  consider "c' = c" "s' = emit_dropped ev 1 GPU_DROP_CLASS_PC_BUFFER_FULL (bump g_pc_buffer_full t)" | "c' = c" "s' = bump g_pc_getdata_failed t"
    | "pc_take_data ev (v_data ev (pa_calls t)) c t = (c', s')"
    using assms t by (auto simp: pc_drain_round_def Let_def split: if_splits)
  then have "still t s' \<and> same_ctx c c'"
    by cases (simp_all add: still_buffer_full still_add_to take_data_still)
  then show ?thesis using pulled_still [OF p] by blast
qed

lemma drain_rounds_pull:
  assumes "pc_drain_rounds ev n c s = (c', s')" and "0 < n"
  shows "pulled (px_ctx c) n s s' \<and> same_ctx c c'"
  using assms
proof (induction ev n c s rule: pc_drain_rounds.induct)
  case (2 ev n c s)
  obtain go d t where r: "pc_drain_round ev c s = (go, d, t)" by (metis prod_cases3)
  note p = drain_round_pulls [OF r]
  show ?case
  proof (cases "go \<and> 0 < n")
    case True
    then have "pulled (px_ctx d) n t s' \<and> same_ctx d c'" using 2 r by (simp add: Let_def)
    moreover have "px_ctx d = px_ctx c" using p by (simp add: same_ctx_def)
    ultimately show ?thesis using p pulled_trans [of "px_ctx c" 1 s t n s'] by (simp add: same_ctx_trans [of c d])
  next
    case False
    then have "still t s' \<and> c' = d" using 2(2) r by (auto simp: Let_def still_add_to split: if_splits)
    moreover have "pulled (px_ctx c) (Suc n) s t" by (rule pulled_mono [of _ 1]) (use p in simp_all)
    ultimately show ?thesis using p pulled_still [of "px_ctx c" "Suc n" s t s'] by blast
  qed
qed simp

section \<open>Pulls and the protocol\<close>

definition enabled_ctxs :: "pc_context list \<Rightarrow> CUcontext multiset" where
  "enabled_ctxs cs = mset (map px_ctx (filter px_enabled cs))"

lemma enabled_ctxs_simps [simp]:
  "enabled_ctxs [] = {#}"
  "enabled_ctxs (c # cs) = (if px_enabled c then {#px_ctx c#} else {#}) + enabled_ctxs cs"
  "enabled_ctxs (cs @ ds) = enabled_ctxs cs + enabled_ctxs ds"
  by (simp_all add: enabled_ctxs_def)

text \<open>A step that keeps to the protocol, makes calls on tracked contexts only and leaves the rest of the state alone.\<close>

definition polite :: "env \<Rightarrow> 'a pc_state_scheme \<Rightarrow> 'a pc_state_scheme \<Rightarrow> bool" where
  "polite ev s t \<longleftrightarrow> frame t = frame s \<and> (legal ev (pa_calls s) \<longrightarrow> legal ev (pa_calls t)) \<and>
     (\<forall>c. c \<notin> insert g_ctx_disable_failed pc_counters \<longrightarrow> pa_n t c = pa_n s c) \<and> (failed_counted ev s \<longrightarrow> failed_counted ev t)"

lemma polite_refl [simp]: "polite ev s s"
  by (simp add: polite_def)

lemma polite_trans: "polite ev s t \<Longrightarrow> polite ev t u \<Longrightarrow> polite ev s u"
  by (simp add: polite_def)

lemma drain_ctx_polite:
  assumes "pc_drain_ctx_locked ev c s = (c', t)" and "px_enabled c \<Longrightarrow> px_ctx c \<in># owed_ctxs ev (pa_calls s)"
  shows "polite ev s t \<and> owed_ctxs ev (pa_calls t) = owed_ctxs ev (pa_calls s) \<and> same_ctx c c'"
proof (cases "px_enabled c")
  case True
  with drain_rounds_pull [of ev 64 c s c' t] assms(1) have p: "pulled (px_ctx c) 64 s t" "same_ctx c c'"
    by (simp_all add: pc_drain_ctx_locked_def)
  then obtain k where "pa_calls t = pa_calls s @ replicate k (PCSamplingGetData (px_ctx c))" by (auto simp: pulled_def)
  moreover have "list_all (on_ctx (px_ctx c)) (replicate k (PCSamplingGetData (px_ctx c)))"
    by (simp add: list_all_iff on_ctx_def)
  ultimately show ?thesis
    using p assms(2) [OF True] by (simp add: polite_def pulled_def on_ctxs pc_counters_def)
next
  case False
  then show ?thesis using assms(1) by (auto simp: pc_drain_ctx_locked_def)
qed

lemma disable_ctx_polite:
  assumes "pc_disable_ctx ev c s = (c', t)" and "px_enabled c \<Longrightarrow> px_ctx c \<in># owed_ctxs ev (pa_calls s)"
  shows "polite ev s t \<and> owed_ctxs ev (pa_calls t) = owed_ctxs ev (pa_calls s) - enabled_ctxs [c] \<and> \<not> px_enabled c' \<and> px_ctx c' = px_ctx c \<and>
    px_pcs c' = px_pcs c"
  using assms by (auto simp: pc_disable_ctx_def cupti_def polite_def frame_def add_to_def)

lemma teardown_ctx_polite:
  assumes "pc_teardown_ctx ev c s = (c', t)" and "px_enabled c \<Longrightarrow> px_ctx c \<in># owed_ctxs ev (pa_calls s)"
  shows "polite ev s t \<and> owed_ctxs ev (pa_calls t) = owed_ctxs ev (pa_calls s) - enabled_ctxs [c] \<and> \<not> px_enabled c' \<and>
    (ctx_wf m n c \<longrightarrow> ctx_wf m n c')"
proof -
  obtain d u where d: "pc_drain_ctx_locked ev c s = (d, u)" by fastforce
  note 1 = drain_ctx_polite [OF d assms(2)]
  then have "px_enabled d \<Longrightarrow> px_ctx d \<in># owed_ctxs ev (pa_calls u)" using assms(2) by (simp add: same_ctx_def)
  moreover have "pc_disable_ctx ev d u = (c', t)" using assms(1) d by (simp add: pc_teardown_ctx_def)
  ultimately show ?thesis
    using 1 disable_ctx_polite [of ev d u c' t] polite_trans [of ev s u t] by (auto simp: same_ctx_def ctx_wf_def)
qed

lemma each_drain_polite:
  assumes "each_ctx (pc_drain_ctx_locked ev) cs s = (cs', t)" and "enabled_ctxs cs \<subseteq># owed_ctxs ev (pa_calls s)"
  shows "polite ev s t \<and> owed_ctxs ev (pa_calls t) = owed_ctxs ev (pa_calls s) \<and> list_all2 same_ctx cs cs'"
  using assms
proof (induction cs arbitrary: s cs' t)
  case (Cons c cs)
  obtain d u where d: "pc_drain_ctx_locked ev c s = (d, u)" by fastforce
  obtain ds v where ds: "each_ctx (pc_drain_ctx_locked ev) cs u = (ds, v)" by fastforce
  have m: "px_enabled c \<Longrightarrow> px_ctx c \<in># owed_ctxs ev (pa_calls s)" "enabled_ctxs cs \<subseteq># owed_ctxs ev (pa_calls s)"
    using Cons.prems(2) by (auto split: if_splits dest: mset_subset_eq_insertD subset_mset.trans [rotated] simp: insert_subset_eq_iff)
       (metis diff_subset_eq_self subset_mset.trans)
  note 1 = drain_ctx_polite [OF d m(1)]
  have "polite ev u v \<and> owed_ctxs ev (pa_calls v) = owed_ctxs ev (pa_calls u) \<and> list_all2 same_ctx cs ds"
    using Cons.IH [OF ds] 1 m(2) by simp
  then show ?case using Cons.prems(1) d ds 1 polite_trans [of ev s u v] by auto
qed simp

lemma each_teardown_polite:
  assumes "each_ctx (pc_teardown_ctx ev) cs s = (cs', t)" and "enabled_ctxs cs \<subseteq># owed_ctxs ev (pa_calls s)"
  shows "polite ev s t \<and> owed_ctxs ev (pa_calls t) = owed_ctxs ev (pa_calls s) - enabled_ctxs cs \<and>
    list_all (\<lambda>c. \<not> px_enabled c) cs' \<and> (list_all (ctx_wf m n) cs \<longrightarrow> list_all (ctx_wf m n) cs') \<and> length cs' = length cs"
  using assms
proof (induction cs arbitrary: s cs' t)
  case (Cons c cs)
  obtain d u where d: "pc_teardown_ctx ev c s = (d, u)" by fastforce
  obtain ds v where ds: "each_ctx (pc_teardown_ctx ev) cs u = (ds, v)" by fastforce
  have m: "px_enabled c \<Longrightarrow> px_ctx c \<in># owed_ctxs ev (pa_calls s)"
    using Cons.prems(2) by (auto simp: insert_subset_eq_iff)
  note 1 = teardown_ctx_polite [OF d m, of m n]
  have "enabled_ctxs cs \<subseteq># owed_ctxs ev (pa_calls u)"
    using Cons.prems(2) 1 by (auto simp: insert_subset_eq_iff)
  then have "polite ev u v \<and> owed_ctxs ev (pa_calls v) = owed_ctxs ev (pa_calls u) - enabled_ctxs cs \<and>
      list_all (\<lambda>c. \<not> px_enabled c) ds \<and> (list_all (ctx_wf m n) cs \<longrightarrow> list_all (ctx_wf m n) ds) \<and> length ds = length cs"
    by (rule Cons.IH [OF ds])
  then show ?case using Cons.prems(1) d ds 1 polite_trans [of ev s u v] by auto
qed simp

section \<open>Enabling a context\<close>

lemma publish_stalls_frame:
  "pa_calls (fold (publish_stall ev) rs s) = pa_calls s \<and> pa_ctxs (fold (publish_stall ev) rs s) = pa_ctxs s \<and>
   pa_n (fold (publish_stall ev) rs s) = pa_n s \<and> pa_collect_num_pcs (fold (publish_stall ev) rs s) = pa_collect_num_pcs s \<and>
   pa_num_stall_reasons (fold (publish_stall ev) rs s) = pa_num_stall_reasons s \<and>
   pa_stall_queried (fold (publish_stall ev) rs s) = pa_stall_queried s \<and> pa_pcb (fold (publish_stall ev) rs s) = pa_pcb s \<and>
   pa_pc_enabled (fold (publish_stall ev) rs s) = pa_pc_enabled s \<and> pa_tier_a (fold (publish_stall ev) rs s) = pa_tier_a s \<and>
   pc_state.more (fold (publish_stall ev) rs s) = pc_state.more s"
  by (induction rs arbitrary: s) (simp_all add: publish_stall_def emit_if_enabled_def probe_enabled_def probe_emit_def Let_def)

lemma on_ctx_calls [simp]:
  "on_ctx x (PCSamplingGetNumStallReasons x)" "on_ctx x (PCSamplingGetStallReasons x n)"
  "on_ctx x (PCSamplingSetConfigurationAttribute x i)" "on_ctx x (PCSamplingGetConfigurationAttribute x)"
  "on_ctx x (PCSamplingGetData x)" "on_ctx x (PCSamplingStart x)" "on_ctx x (PCSamplingStop x)"
  by (simp_all add: on_ctx_def)

lemma owed_ctxs_call [simp]:
  "on_ctx x c \<Longrightarrow> subject c = Some x \<and> owed_ctxs ev (h @ [c]) = owed_ctxs ev h"
  using owed_ctxs_on_ctx by (auto simp: on_ctx_def)

lemma query_stalls:
  assumes "pc_query_stall_reasons ev x s = (ok, t)" and "x \<in># owed_ctxs ev (pa_calls s)"
  shows "owed_ctxs ev (pa_calls t) = owed_ctxs ev (pa_calls s) \<and> (legal ev (pa_calls s) \<longrightarrow> legal ev (pa_calls t)) \<and>
    failed_disables ev (pa_calls t) = failed_disables ev (pa_calls s) \<and>
    pa_ctxs t = pa_ctxs s \<and> pa_collect_num_pcs t = pa_collect_num_pcs s \<and> pa_n t = pa_n s \<and> pa_stall_queried t \<and> pa_pcb t = pa_pcb s \<and>
    (pa_stall_queried s \<longrightarrow> pa_num_stall_reasons t = pa_num_stall_reasons s) \<and> pa_pc_enabled t = pa_pc_enabled s \<and> pa_tier_a t = pa_tier_a s \<and>
    pc_state.more t = pc_state.more s"
proof -
  note c = failed_disables_other [of "PCSamplingGetNumStallReasons x"] failed_disables_other [of "PCSamplingGetStallReasons x n" for n] owed_ctxs_on_ctx [of x "PCSamplingGetNumStallReasons x"] owed_ctxs_on_ctx [of x "PCSamplingGetStallReasons x n" for n]
  have 2: "h @ [a, b] = (h @ [a]) @ [b]" for h and a b :: vcall by simp
  show ?thesis
    using assms unfolding pc_query_stall_reasons_def cupti_def
    by (auto simp: Let_def publish_stalls_frame 2 c split: if_splits simp del: append_assoc)
qed

lemma enable_undo:
  assumes "px_ctx c \<in># owed_ctxs ev (pa_calls s)" and "px_enabled c"
  shows "owed_ctxs ev (pa_calls (pc_enable_undo ev c s)) = owed_ctxs ev (pa_calls s) - {#px_ctx c#} \<and>
    (legal ev (pa_calls s) \<longrightarrow> legal ev (pa_calls (pc_enable_undo ev c s))) \<and>
    (failed_counted ev s \<longrightarrow> failed_counted ev (pc_enable_undo ev c s)) \<and> pa_ctxs (pc_enable_undo ev c s) = pa_ctxs s \<and>
    pa_collect_num_pcs (pc_enable_undo ev c s) = pa_collect_num_pcs s \<and> pa_num_stall_reasons (pc_enable_undo ev c s) = pa_num_stall_reasons s \<and>
    pa_stall_queried (pc_enable_undo ev c s) = pa_stall_queried s \<and> pa_n (pc_enable_undo ev c s) g_ctx_seen = pa_n s g_ctx_seen \<and>
    pa_n (pc_enable_undo ev c s) g_ctx_enabled = pa_n s g_ctx_enabled \<and>
    pa_n (pc_enable_undo ev c s) g_ctx_enable_failed = pa_n s g_ctx_enable_failed + 1"
  using assms by (simp add: pc_enable_undo_def pc_disable_ctx_def cupti_def add_to_def failed_counted_def)

definition pc_ok :: "env \<Rightarrow> 'a pc_state_scheme \<Rightarrow> bool" where
  "pc_ok ev s \<longleftrightarrow> legal ev (pa_calls s) \<and> failed_counted ev s \<and> owed_ctxs ev (pa_calls s) = enabled_ctxs (pa_ctxs s) \<and>
     list_all (ctx_wf (pa_collect_num_pcs s) (pa_num_stall_reasons s)) (pa_ctxs s) \<and> (pa_ctxs s \<noteq> [] \<longrightarrow> pa_stall_queried s)"

text \<open>Between the vendor's enable of \<open>x\<close> and the end of the handler.\<close>

definition half_enabled :: "env \<Rightarrow> CUcontext \<Rightarrow> (counter \<Rightarrow> u64) \<Rightarrow> 'a pc_state_scheme \<Rightarrow> bool" where
  "half_enabled ev x n s \<longleftrightarrow> legal ev (pa_calls s) \<and> n g_ctx_disable_failed = of_nat (size (failed_disables ev (pa_calls s))) \<and>
      owed_ctxs ev (pa_calls s) = add_mset x (enabled_ctxs (pa_ctxs s)) \<and>
     list_all (ctx_wf (pa_collect_num_pcs s) (pa_num_stall_reasons s)) (pa_ctxs s) \<and> (pa_ctxs s \<noteq> [] \<longrightarrow> pa_stall_queried s) \<and> pa_n s = n"

definition tried :: "(counter \<Rightarrow> u64) \<Rightarrow> 'a pc_state_scheme \<Rightarrow> bool" where
  "tried n t \<longleftrightarrow> pa_n t g_ctx_seen = n g_ctx_seen \<and>
     pa_n t g_ctx_enabled + pa_n t g_ctx_enable_failed = n g_ctx_enabled + n g_ctx_enable_failed + 1"

lemma undo_half:
  assumes "half_enabled ev x n s" and "px_ctx c = x" and "px_enabled c"
  shows "pc_ok ev (pc_enable_undo ev c s) \<and> tried n (pc_enable_undo ev c s)"
  using assms enable_undo [of c ev s] by (simp add: half_enabled_def pc_ok_def tried_def)

lemma call_half: "half_enabled ev x n s \<Longrightarrow> on_ctx x c \<Longrightarrow> half_enabled ev x n (snd (cupti ev c s))"
  by (simp add: half_enabled_def cupti_def failed_disables_on_ctx)

lemma read_period_half: "half_enabled ev x n s \<Longrightarrow> half_enabled ev x n (pc_read_period ev x s)"
  using call_half [of ev x n s "PCSamplingGetConfigurationAttribute x"]
  by (auto simp: pc_read_period_def Let_def cupti_def half_enabled_def split: prod.split)

lemma query_half:
  assumes "half_enabled ev x n s" and "pc_query_stall_reasons ev x s = (ok, t)"
  shows "half_enabled ev x n t \<and> pa_stall_queried t"
proof -
  have "x \<in># owed_ctxs ev (pa_calls s)" using assms(1) by (simp add: half_enabled_def)
  from query_stalls [OF assms(2) this] show ?thesis
    using assms(1) by (cases "pa_ctxs s = []") (simp_all add: half_enabled_def)
qed

lemma setup_buffer_wf [simp]:
  "ctx_wf (pa_collect_num_pcs s) (pa_num_stall_reasons s) (pc_setup_buffer s c)"
  "px_ctx (pc_setup_buffer s c) = px_ctx c" "px_enabled (pc_setup_buffer s c) = px_enabled c"
  by (simp_all add: ctx_wf_def pc_setup_buffer_def zero_pc_def list_all_iff)

lemma read_period_frame [simp]:
  "pa_ctxs (pc_read_period ev x s) = pa_ctxs s" "pa_collect_num_pcs (pc_read_period ev x s) = pa_collect_num_pcs s"
  "pa_num_stall_reasons (pc_read_period ev x s) = pa_num_stall_reasons s" "pa_stall_queried (pc_read_period ev x s) = pa_stall_queried s"
  by (simp_all add: pc_read_period_def cupti_def Let_def split: prod.split)

text \<open>The ways an enable ends: refused for graphs, refused by the vendor, undone after the query or the configuration, or done.\<close>

lemma enable_cases [consumes 5, case_names no fail query undo on]:
  fixes s :: "'a pc_state_scheme"
  assumes "pc_query_stall_reasons ev x (snd (cupti ev (PCSamplingEnable x) s)) = (ok, s2)"
    and "c = \<lparr>px_ctx = x, px_pcs = [], px_last_dropped = 0, px_last_non_user = 0, px_enabled = True\<rparr>" and "d = pc_setup_buffer s2 c"
    and "s3 = snd (cupti ev (PCSamplingSetConfigurationAttribute x (pc_config x s2)) s2)" and "s4 = pc_read_period ev x s3"
  obtains (no) "pc_enable_ctx ev x s = bump g_ctx_enable_failed (bump g_tier_a_graph_refused s)"
  | (fail) "fst (cupti ev (PCSamplingEnable x) s) \<noteq> CUPTI_SUCCESS"
      "pc_enable_ctx ev x s = bump g_ctx_enable_failed (snd (cupti ev (PCSamplingEnable x) s))"
  | (query) "fst (cupti ev (PCSamplingEnable x) s) = CUPTI_SUCCESS" "pc_enable_ctx ev x s = pc_enable_undo ev c s2"
  | (undo) "fst (cupti ev (PCSamplingEnable x) s) = CUPTI_SUCCESS" "pc_enable_ctx ev x s = pc_enable_undo ev d s3"
  | (on) "fst (cupti ev (PCSamplingEnable x) s) = CUPTI_SUCCESS" "pc_enable_ctx ev x s = bump g_ctx_enabled (s4\<lparr>pa_ctxs := pa_ctxs s4 @ [d]\<rparr>)"
proof -
  let ?A = "pa_tier_a s \<and> pa_n s g_exec_from_graph \<noteq> 0"
  let ?F = "fst (cupti ev (PCSamplingSetConfigurationAttribute x (pc_config x s2)) s2) \<noteq> CUPTI_SUCCESS \<or>
    \<not> list_all (\<lambda>a. a = CUPTI_SUCCESS) (fill CUPTI_SUCCESS (length (pc_config x s2)) (v_attr_status ev (pa_calls s3)))"
  have "pc_enable_ctx ev x s =
     (if ?A then bump g_ctx_enable_failed (bump g_tier_a_graph_refused s)
      else if fst (cupti ev (PCSamplingEnable x) s) \<noteq> CUPTI_SUCCESS then bump g_ctx_enable_failed (snd (cupti ev (PCSamplingEnable x) s))
      else if \<not> ok then pc_enable_undo ev c s2
      else if ?F then pc_enable_undo ev d s3
      else bump g_ctx_enabled (s4\<lparr>pa_ctxs := pa_ctxs s4 @ [d]\<rparr>))"
    by (simp add: pc_enable_ctx_def case_prod_unfold Let_def assms)
  then show thesis
    using that by (cases ?A; cases "fst (cupti ev (PCSamplingEnable x) s) = CUPTI_SUCCESS"; cases ok; cases ?F) (simp_all only: simp_thms if_True if_False)
qed

lemma enable_ok:
  assumes "pc_ok ev s"
  shows "pc_ok ev (pc_enable_ctx ev x s) \<and> tried (pa_n s) (pc_enable_ctx ev x s)"
proof -
  let ?s1 = "snd (cupti ev (PCSamplingEnable x) s)"
  let ?c = "\<lparr>px_ctx = x, px_pcs = [], px_last_dropped = 0, px_last_non_user = 0, px_enabled = True\<rparr>"
  obtain ok s2 where q: "pc_query_stall_reasons ev x ?s1 = (ok, s2)" by fastforce
  let ?d = "pc_setup_buffer s2 ?c" and ?s3 = "snd (cupti ev (PCSamplingSetConfigurationAttribute x (pc_config x s2)) s2)"
  let ?s4 = "pc_read_period ev x ?s3"
  from q refl refl refl refl show ?thesis
  proof (cases rule: enable_cases)
    case no
    then show ?thesis using assms by (simp add: pc_ok_def tried_def add_to_def)
  next
    case fail
    then show ?thesis using assms by (simp add: pc_ok_def tried_def add_to_def cupti_def)
  next
    case query
    then have "half_enabled ev x (pa_n s) ?s1" using assms by (simp add: half_enabled_def pc_ok_def cupti_def)
    with query_half [OF _ q] have "half_enabled ev x (pa_n s) s2" by blast
    from undo_half [OF this, of ?c] show ?thesis unfolding query(2) by simp
  next
    case undo
    then have "half_enabled ev x (pa_n s) ?s1" using assms by (simp add: half_enabled_def pc_ok_def cupti_def)
    with query_half [OF _ q] have "half_enabled ev x (pa_n s) ?s3" by (blast intro: call_half on_ctx_calls)
    from undo_half [OF this, of ?d] show ?thesis unfolding undo(2) by simp
  next
    case on
    then have "half_enabled ev x (pa_n s) ?s1" using assms by (simp add: half_enabled_def pc_ok_def cupti_def)
    with query_half [OF _ q] have h: "half_enabled ev x (pa_n s) ?s4" "pa_stall_queried s2"
      by (blast intro: call_half on_ctx_calls read_period_half)+
    have "ctx_wf (pa_collect_num_pcs ?s4) (pa_num_stall_reasons ?s4) ?d" by (simp add: cupti_def)
    then show ?thesis
      using h unfolding on(2) by (simp add: half_enabled_def pc_ok_def tried_def add_to_def cupti_def)
  qed
qed

section \<open>The invariant\<close>

definition pc_inv :: "env \<Rightarrow> 'a pc_state_scheme \<Rightarrow> bool" where
  "pc_inv ev s \<longleftrightarrow> pc_ok ev s \<and> pa_n s g_ctx_seen = pa_n s g_ctx_enabled + pa_n s g_ctx_enable_failed"

text \<open>The invariant reads these fields only.\<close>

lemma pc_inv_cong:
  assumes "pa_calls t = pa_calls s" "pa_ctxs t = pa_ctxs s" "pa_collect_num_pcs t = pa_collect_num_pcs s"
    "pa_num_stall_reasons t = pa_num_stall_reasons s" "pa_stall_queried t = pa_stall_queried s"
    "pa_n t g_ctx_seen = pa_n s g_ctx_seen" "pa_n t g_ctx_enabled = pa_n s g_ctx_enabled"
    "pa_n t g_ctx_enable_failed = pa_n s g_ctx_enable_failed" "pa_n t g_ctx_disable_failed = pa_n s g_ctx_disable_failed"
  shows "pc_inv ev t \<longleftrightarrow> pc_inv ev s"
  by (simp add: pc_inv_def pc_ok_def failed_counted_def assms)

lemma pc_inv_flush [simp]: "pc_inv ev (flush_pcb ev s) \<longleftrightarrow> pc_inv ev s"
  by (rule pc_inv_cong) (simp_all add: flush_pcb_def)

lemma pc_inv_force [simp]: "pc_inv ev (force_schedule ev r s) \<longleftrightarrow> pc_inv ev s"
  by (rule pc_inv_cong) (simp_all add: force_schedule_def mono_ns_def Let_def)

lemma pc_inv_count [simp]: "c \<notin> {g_ctx_seen, g_ctx_enabled, g_ctx_enable_failed, g_ctx_disable_failed} \<Longrightarrow> pc_inv ev (add_to c d s) \<longleftrightarrow> pc_inv ev s"
  by (rule pc_inv_cong) (auto simp: add_to_def)

lemma same_ctxs:
  "list_all2 same_ctx cs ds \<Longrightarrow> enabled_ctxs ds = enabled_ctxs cs \<and> (list_all (ctx_wf m n) cs \<longrightarrow> list_all (ctx_wf m n) ds)"
  by (induction cs ds rule: list_all2_induct) (auto simp: same_ctx_def)

lemma stall_queried_frame: "frame t = frame s \<Longrightarrow> pa_stall_queried t = pa_stall_queried s"
  by (drule arg_cong [of _ _ pa_stall_queried]) (simp add: frame_def)

lemma polite_inv:
  assumes "polite ev s t" and "pc_inv ev s" and "owed_ctxs ev (pa_calls t) = enabled_ctxs cs"
    and "list_all (ctx_wf (pa_collect_num_pcs s) (pa_num_stall_reasons s)) cs" and "cs \<noteq> [] \<Longrightarrow> pa_ctxs s \<noteq> []"
  shows "pc_inv ev (t\<lparr>pa_ctxs := cs\<rparr>)"
  using assms frame_eqD [of t s] stall_queried_frame [of t s]
  by (auto simp: polite_def pc_inv_def pc_ok_def pc_counters_def)

lemma drain_all_inv:
  assumes "pc_inv ev s"
  shows "pc_inv ev (pc_drain_all ev r s)"
proof -
  obtain cs t where e: "each_ctx (pc_drain_ctx_locked ev) (pa_ctxs s) s = (cs, t)" by fastforce
  have p: "polite ev s t \<and> owed_ctxs ev (pa_calls t) = owed_ctxs ev (pa_calls s) \<and> list_all2 same_ctx (pa_ctxs s) cs"
    using each_drain_polite [OF e] assms by (simp add: pc_inv_def pc_ok_def)
  then have "pc_inv ev (t\<lparr>pa_ctxs := cs\<rparr>)"
    using assms same_ctxs [of "pa_ctxs s" cs] by (intro polite_inv [of ev s]) (auto simp: pc_inv_def pc_ok_def)
  then show ?thesis by (simp add: pc_drain_all_def all_ctxs_def e Let_def)
qed

lemma teardown_all_inv:
  assumes "pc_inv ev s"
  shows "pc_inv ev (all_ctxs (pc_teardown_ctx ev) s) \<and> owed_ctxs ev (pa_calls (all_ctxs (pc_teardown_ctx ev) s)) = {#}"
proof -
  obtain cs t where e: "each_ctx (pc_teardown_ctx ev) (pa_ctxs s) s = (cs, t)" by fastforce
  have p: "polite ev s t \<and> owed_ctxs ev (pa_calls t) = {#} \<and> list_all (\<lambda>c. \<not> px_enabled c) cs \<and>
      list_all (ctx_wf (pa_collect_num_pcs s) (pa_num_stall_reasons s)) cs \<and> length cs = length (pa_ctxs s)"
    using each_teardown_polite [OF e, of "pa_collect_num_pcs s" "pa_num_stall_reasons s"] assms by (simp add: pc_inv_def pc_ok_def)
  then have "enabled_ctxs cs = {#}" by (simp add: enabled_ctxs_def list_all_iff filter_empty_conv)
  with p have "pc_inv ev (t\<lparr>pa_ctxs := cs\<rparr>)" using assms by (intro polite_inv [of ev s]) auto
  then show ?thesis using p by (simp add: all_ctxs_def e)
qed

lemma destroy_polite:
  assumes "pc_destroy_ctx ev x cs s = (cs', t)" and "owed_ctxs ev (pa_calls s) = M + enabled_ctxs cs"
  shows "polite ev s t \<and> owed_ctxs ev (pa_calls t) = M + enabled_ctxs cs' \<and> (list_all P cs \<longrightarrow> list_all P cs') \<and> (cs' \<noteq> [] \<longrightarrow> cs \<noteq> [])"
  using assms
proof (induction ev x cs s arbitrary: cs' t M rule: pc_destroy_ctx.induct)
  case (2 ev x c cs s)
  show ?case
  proof (cases "px_ctx c = x")
    case True
    obtain d where d: "pc_teardown_ctx ev c s = (d, t)" using True 2(2) by (simp add: prod_eq_iff)
    have "px_enabled c \<Longrightarrow> px_ctx c \<in># owed_ctxs ev (pa_calls s)" using 2(3) by simp
    from teardown_ctx_polite [OF d this] show ?thesis using True 2(2,3) by (simp add: add.assoc [symmetric])
  next
    case False
    obtain ds u where r: "pc_destroy_ctx ev x cs s = (ds, u)" by fastforce
    have "owed_ctxs ev (pa_calls s) = (M + enabled_ctxs [c]) + enabled_ctxs cs" using 2(3) by (simp add: add.assoc)
    from 2(1) [OF False r this] show ?thesis using False 2(2) r by (auto simp: add.assoc)
  qed
qed simp

lemma on_resource_inv:
  assumes "pc_inv ev s"
  shows "pc_inv ev (on_resource ev cb rd s)"
proof (cases "pa_pc_enabled s \<and> rd \<noteq> None")
  case True
  then obtain x where x: "rd = Some x" by auto
  show ?thesis
  proof (cases cb)
    case CONTEXT_CREATED
    have "pc_ok ev (bump g_ctx_seen s)" using assms by (simp add: pc_inv_def pc_ok_def add_to_def)
    then show ?thesis
      using enable_ok [of ev "bump g_ctx_seen s" x] True x CONTEXT_CREATED assms
      by (simp add: on_resource_def pc_inv_def tried_def add_to_def)
  next
    case CONTEXT_DESTROY_STARTING
    let ?s = "bump g_ctx_destroyed s"
    obtain cs t where d: "pc_destroy_ctx ev x (pa_ctxs s) ?s = (cs, t)" by fastforce
    have i: "pc_inv ev ?s" using assms by simp
    then have "owed_ctxs ev (pa_calls ?s) = {#} + enabled_ctxs (pa_ctxs s)" by (simp add: pc_inv_def pc_ok_def add_to_def)
    note p = destroy_polite [OF d this]
    have "pc_inv ev (t\<lparr>pa_ctxs := cs\<rparr>)"
      using p [of "ctx_wf (pa_collect_num_pcs s) (pa_num_stall_reasons s)"] i
      by (intro polite_inv [of ev ?s]) (auto simp: pc_inv_def pc_ok_def add_to_def)
    then show ?thesis using True x CONTEXT_DESTROY_STARTING d by (simp add: on_resource_def add_to_def)
  next
    case MODULE_UNLOAD_STARTING
    then show ?thesis using True x assms by (simp add: on_resource_def drain_all_inv)
  qed (use True x assms in \<open>simp_all add: on_resource_def\<close>)
qed (use assms in \<open>auto simp: on_resource_def split: option.split\<close>)

section \<open>Pairs\<close>

text \<open>
  What one reply holds, read without the loops: the pairs of an instruction and a stall reason, in
  order, the samples of those with a count, and what a batch has taken in.
\<close>

definition pc_pairs :: "nat \<Rightarrow> pc_data list \<Rightarrow> (pc_data \<times> stall_sample) list" where
  "pc_pairs nst pcs = concat (map (\<lambda>pc. map (Pair pc) (take (min (unat (pd_stallReasonCount pc)) nst) (pd_stallReason pc))) pcs)"

definition counted_pair :: "pc_data \<times> stall_sample \<Rightarrow> bool" where
  "counted_pair p \<longleftrightarrow> sr_samples (snd p) \<noteq> 0"

definition sample_of :: "pc_data \<times> stall_sample \<Rightarrow> pc_sample" where
  "sample_of p = \<lparr>ps_cubin_crc = pd_cubinCrc (fst p), ps_correlation = ucast (pd_correlationId (fst p)), ps_pc_offset = pd_pcOffset (fst p),
     ps_function_index = pd_functionIndex (fst p), ps_stall_index = sr_index (snd p), ps_count = sr_samples (snd p)\<rparr>"

definition taken_in :: "'b batch \<Rightarrow> 'b list" where
  "taken_in b = concat (map fst (bt_emitted b)) @ take (bt_n b) (bt_buf b)"

lemma add_taken_in:
  assumes "\<And>n. en n" and "room b"
  shows "taken_in (snd (batch_add en r b)) = taken_in b @ [r] \<and> room (snd (batch_add en r b)) \<and> fst (batch_add en r b)"
proof -
  have "(bt_buf b)[bt_n b := r] = take (bt_n b) (bt_buf b) @ [r]" if "Suc (bt_n b) = length (bt_buf b)"
    using take_snoc_update [of "bt_n b" "bt_buf b" r] that by simp
  then show ?thesis using assms by (auto simp: taken_in_def room_def batch_add_def flush_locked_def Let_def take_snoc_update)
qed

definition pairs_added :: "env \<Rightarrow> (pc_data \<times> stall_sample) list \<Rightarrow> 'a pc_state_scheme \<Rightarrow> 'a pc_state_scheme \<Rightarrow> bool" where
  "pairs_added ev ps s t \<longleftrightarrow>
     ((\<forall>n. e_batch_sem ev P_pc n) \<longrightarrow> room (pa_pcb s) \<longrightarrow>
        taken_in (pa_pcb t) = taken_in (pa_pcb s) @ map sample_of (filter counted_pair ps) \<and> room (pa_pcb t) \<and>
        pa_n t g_pc_unattached = pa_n s g_pc_unattached) \<and>
     pa_n t g_pc_records + pa_n t g_pc_unattached =
       pa_n s g_pc_records + pa_n s g_pc_unattached + of_nat (length (filter counted_pair ps)) \<and>
     pa_n t g_pc_zero_stall = pa_n s g_pc_zero_stall + of_nat (length (filter (\<lambda>p. \<not> counted_pair p) ps)) \<and>
     pa_n t g_pc_emitted_counts = pa_n s g_pc_emitted_counts + sum_list (map (\<lambda>p. ucast (sr_samples (snd p))) ps) \<and>
     pa_num_stall_reasons t = pa_num_stall_reasons s"

lemma pairs_added_append: "pairs_added ev ps s t \<Longrightarrow> pairs_added ev qs t u \<Longrightarrow> pairs_added ev (ps @ qs) s u"
  by (simp add: pairs_added_def)

lemma pairs_added_one: "pairs_added ev [(pc, sr)] s (pc_add_pair ev pc sr s)"
proof (cases "sr_samples sr = 0")
  case False
  obtain a b where b: "batch_add (e_batch_sem ev P_pc) (sample_of (pc, sr)) (pa_pcb s) = (a, b)" by fastforce
  show ?thesis
    using False b add_taken_in [of "e_batch_sem ev P_pc" "pa_pcb s" "sample_of (pc, sr)"]
    by (auto simp: pairs_added_def pc_add_pair_def counted_pair_def sample_of_def add_to_def Let_def)
qed (simp add: pairs_added_def pc_add_pair_def counted_pair_def add_to_def)

lemma pairs_added_fold:
  assumes "\<And>a t. pa_num_stall_reasons t = m \<Longrightarrow> pairs_added ev (g a) t (f a t)" and "pa_num_stall_reasons s = m"
  shows "pairs_added ev (concat (map g as)) s (fold f as s)"
  using assms(2)
proof (induction "as" arbitrary: s)
  case (Cons a "as")
  have 1: "pairs_added ev (g a) s (f a s)" by (rule assms(1) [OF Cons.prems])
  then have "pa_num_stall_reasons (f a s) = m" using Cons.prems by (simp add: pairs_added_def)
  from pairs_added_append [OF 1 Cons.IH [OF this]] show ?case by simp
qed (simp add: pairs_added_def)

lemma take_eq_map_nth: "n \<le> length xs \<Longrightarrow> map ((!) xs) [0..<n] = take n xs"
  by (simp add: list_eq_iff_nth_eq)

lemma pairs_added_pc:
  assumes "unat (pa_num_stall_reasons s) = length (pd_stallReason pc)"
  shows "pairs_added ev (pc_pairs (unat (pa_num_stall_reasons s)) [pc]) s (pc_add_pc ev pc s)"
proof -
  let ?n = "min (unat (pd_stallReasonCount pc)) (unat (pa_num_stall_reasons s))"
  have "concat (map (\<lambda>j. [(pc, pd_stallReason pc ! j)]) [0..<?n]) = pc_pairs (unat (pa_num_stall_reasons s)) [pc]"
    using assms by (simp add: pc_pairs_def take_eq_map_nth [symmetric] concat_map_singleton comp_def)
  with pairs_added_fold [OF pairs_added_one refl, of ev "\<lambda>j. pc" "\<lambda>j. pd_stallReason pc ! j" "[0..<?n]" s] show ?thesis
    by (simp add: pc_add_pc_def Let_def)
qed

lemma pc_pairs_concat: "concat (map (\<lambda>pc. pc_pairs n [pc]) pcs) = pc_pairs n pcs"
  by (simp add: pc_pairs_def)

lemma pairs_added_cong:
  assumes "pairs_added ev ps s t" and "pa_pcb s = pa_pcb r" and "pa_num_stall_reasons s = pa_num_stall_reasons r"
    and "\<And>c. c \<in> {g_pc_records, g_pc_unattached, g_pc_zero_stall, g_pc_emitted_counts} \<Longrightarrow> pa_n s c = pa_n r c"
  shows "pairs_added ev ps r t"
  using assms by (simp add: pairs_added_def)

text \<open>The state after the losses of one reply have been taken.\<close>

definition count_losses :: "env \<Rightarrow> pc_sampling_data \<Rightarrow> pc_context \<Rightarrow> 'a pc_state_scheme \<Rightarrow> pc_context \<times> 'a pc_state_scheme" where
  "count_losses ev d c s =
     (let c = c\<lparr>px_pcs := write_pcs (px_pcs c) (sd_pcs d)\<rparr>;
          s = (if sd_hardwareBufferFull d then emit_dropped ev 1 GPU_DROP_CLASS_PC_BUFFER_FULL (bump g_pc_buffer_full s) else s);
          (c, s) = pc_dropped_delta ev (sd_droppedSamples d) c s
      in pc_non_user_delta ev (sd_nonUsrKernelsTotalSamples d) c s)"

lemma take_data_split:
  "pc_take_data ev d c s =
     (let (c, s) = count_losses ev d c s; s = add_to g_pc_total_samples (sd_totalSamples d) s;
          npcs = min (unat (sd_totalNumPcs d)) (unat (pa_collect_num_pcs s)); s = add_to g_pc_pcs (of_nat npcs) s
      in (c, fold (\<lambda>i. pc_add_pc ev (px_pcs c ! i)) [0..<npcs] s))"
  by (simp add: pc_take_data_def count_losses_def Let_def case_prod_unfold)

lemma emit_dropped_frame [simp]:
  "pa_pcb (emit_dropped ev k q s) = pa_pcb s" "pa_num_stall_reasons (emit_dropped ev k q s) = pa_num_stall_reasons s"
  "pa_collect_num_pcs (emit_dropped ev k q s) = pa_collect_num_pcs s" "pa_n (emit_dropped ev k q s) = pa_n s"
  "pa_ctxs (emit_dropped ev k q s) = pa_ctxs s" "pa_calls (emit_dropped ev k q s) = pa_calls s"
  by (simp_all add: emit_dropped_def emit_if_enabled_def probe_enabled_def probe_emit_def)

lemma add_to_frame [simp]:
  "pa_pcb (add_to k d s) = pa_pcb s" "pa_num_stall_reasons (add_to k d s) = pa_num_stall_reasons s"
  "pa_collect_num_pcs (add_to k d s) = pa_collect_num_pcs s" "pa_wire (add_to k d s) = pa_wire s"
  "pa_n (add_to k d s) c = (if c = k then pa_n s c + d else pa_n s c)"
  "pa_ctxs (add_to k d s) = pa_ctxs s" "pa_calls (add_to k d s) = pa_calls s" "pa_stall_queried (add_to k d s) = pa_stall_queried s"
  "pa_tier_a (add_to k d s) = pa_tier_a s" "pa_pc_enabled (add_to k d s) = pa_pc_enabled s" "pa_replay (add_to k d s) = pa_replay s"
  "pa_asked (add_to k d s) = pa_asked s" "pa_reads (add_to k d s) = pa_reads s" "pa_schedule (add_to k d s) = pa_schedule s"
  "pa_seq (add_to k d s) = pa_seq s" "pa_period (add_to k d s) = pa_period s" "pc_state.more (add_to k d s) = pc_state.more s"
  by (simp_all add: add_to_def)

lemma count_losses_frame:
  assumes "count_losses ev d c s = (c', t)"
  shows "pa_pcb t = pa_pcb s" "pa_num_stall_reasons t = pa_num_stall_reasons s" "pa_collect_num_pcs t = pa_collect_num_pcs s"
    "k \<notin> {g_pc_buffer_full, g_pc_dropped_hw, g_pc_non_user} \<Longrightarrow> pa_n t k = pa_n s k" "px_pcs c' = write_pcs (px_pcs c) (sd_pcs d)"
  using assms by (auto simp: count_losses_def pc_dropped_delta_def pc_non_user_delta_def Let_def split: if_splits)

lemma pairs_added_take:
  assumes "pc_take_data ev d c s = (c', t)" and "ctx_wf (pa_collect_num_pcs s) (pa_num_stall_reasons s) c"
  shows "pairs_added ev (pc_pairs (unat (pa_num_stall_reasons s)) (take (unat (sd_totalNumPcs d)) (write_pcs (px_pcs c) (sd_pcs d)))) s t"
proof -
  let ?pcs = "write_pcs (px_pcs c) (sd_pcs d)" and ?m = "pa_num_stall_reasons s"
  let ?n = "min (unat (sd_totalNumPcs d)) (unat (pa_collect_num_pcs s))"
  obtain c1 s1 where l: "count_losses ev d c s = (c1, s1)" by fastforce
  note f = count_losses_frame [OF l]
  let ?s = "add_to g_pc_pcs (of_nat ?n) (add_to g_pc_total_samples (sd_totalSamples d) s1)"
  have len: "length ?pcs = unat (pa_collect_num_pcs s)" using assms(2) by (simp add: ctx_wf_def)
  have wf: "list_all (\<lambda>pc. length (pd_stallReason pc) = unat ?m) ?pcs" using assms(2) by (simp add: ctx_wf_def write_pcs_wf)
  have "t = fold (\<lambda>i. pc_add_pc ev (?pcs ! i)) [0..<?n] ?s"
    using assms(1) l f(3,5) by (simp add: take_data_split Let_def)
  also have "\<dots> = fold (pc_add_pc ev) (take ?n ?pcs) ?s"
    using len by (simp add: take_eq_map_nth [symmetric] fold_map comp_def)
  finally have t: "t = fold (pc_add_pc ev) (take ?n ?pcs) ?s" .
  have "pairs_added ev (concat (map (\<lambda>pc. pc_pairs (unat ?m) [pc]) ps)) u (fold (pc_add_pc ev) ps u)"
    if "pa_num_stall_reasons u = ?m" "set ps \<subseteq> set ?pcs" for ps u
    using that
  proof (induction ps arbitrary: u)
    case (Cons p ps)
    have "unat (pa_num_stall_reasons u) = length (pd_stallReason p)" using wf Cons.prems by (auto simp: list_all_iff)
    then have 1: "pairs_added ev (pc_pairs (unat ?m) [p]) u (pc_add_pc ev p u)" using pairs_added_pc [of u p ev] Cons.prems(1) by simp
    then have "pa_num_stall_reasons (pc_add_pc ev p u) = ?m" using Cons.prems(1) by (simp add: pairs_added_def)
    from pairs_added_append [OF 1 Cons.IH [OF this]] Cons.prems(2) show ?case by simp
  qed (simp add: pairs_added_def)
  from this [of ?s "take ?n ?pcs"] have "pairs_added ev (pc_pairs (unat ?m) (take ?n ?pcs)) ?s t"
    unfolding t using f(2) set_take_subset [of ?n ?pcs] by (simp add: pc_pairs_concat)
  moreover have "take ?n ?pcs = take (unat (sd_totalNumPcs d)) ?pcs" using len by (simp add: min_def)
  ultimately show ?thesis using f by (intro pairs_added_cong [of ev _ ?s t s]) auto
qed

section \<open>Losses\<close>

text \<open>What the drop records of one class on the wire add up to, and the counter of the class.\<close>

fun lost_in :: "u8 \<Rightarrow> wire \<Rightarrow> u64" where
  "lost_in k (W_dropped n k') = (if k' = k then n else 0)"
| "lost_in k _ = 0"

definition lost :: "u8 \<Rightarrow> (wire \<times> u64) list \<Rightarrow> u64" where
  "lost k ws = sum_list (map (lost_in k \<circ> fst) ws)"

definition losses :: "'a pc_state_scheme \<Rightarrow> u64 \<times> u64 \<times> u64" where
  "losses s = (pa_n s g_pc_dropped_hw, pa_n s g_pc_buffer_full, pa_n s g_pc_non_user)"

definition lost3 :: "'a pc_state_scheme \<Rightarrow> u64 \<times> u64 \<times> u64" where
  "lost3 s = (lost GPU_DROP_CLASS_PC_DROPPED_HW (pa_wire s), lost GPU_DROP_CLASS_PC_BUFFER_FULL (pa_wire s),
     lost GPU_DROP_CLASS_PC_NON_USER_KERNEL (pa_wire s))"

definition told :: "env \<Rightarrow> 'a pc_state_scheme \<Rightarrow> 'a pc_state_scheme \<Rightarrow> bool" where
  "told ev s t \<longleftrightarrow> ((\<forall>n. e_sem ev P_dropped n) \<longrightarrow> lost3 s = losses s \<longrightarrow> lost3 t = losses t)"

text \<open>
  What the vendor answered to \<open>k\<close> further pulls of a context, and what it reported in a field of the
  successful answers. Its two loss counts are cumulative; a full buffer is an answer of its own or a
  mark on an answer.
\<close>

primrec replies :: "env \<Rightarrow> CUcontext \<Rightarrow> vcall list \<Rightarrow> nat \<Rightarrow> (CUptiResult \<times> pc_sampling_data) list" where
  "replies ev x h 0 = []"
| "replies ev x h (Suc k) =
     (v_result ev (h @ [PCSamplingGetData x]), v_data ev (h @ [PCSamplingGetData x])) # replies ev x (h @ [PCSamplingGetData x]) k"

definition reported :: "(pc_sampling_data \<Rightarrow> u64) \<Rightarrow> (CUptiResult \<times> pc_sampling_data) list \<Rightarrow> u64 list" where
  "reported f rs = map (f \<circ> snd) (filter (\<lambda>r. fst r = CUPTI_SUCCESS) rs)"

definition full_replies :: "(CUptiResult \<times> pc_sampling_data) list \<Rightarrow> nat" where
  "full_replies rs = length (filter (\<lambda>(st, d). st = CUPTI_ERROR_OUT_OF_MEMORY \<or> st = CUPTI_SUCCESS \<and> sd_hardwareBufferFull d) rs)"

text \<open>The counts of a context are the greatest reported so far, and the process-wide ones moved by as much.\<close>

definition telescopes :: "(CUptiResult \<times> pc_sampling_data) list \<Rightarrow> pc_context \<Rightarrow> 'a pc_state_scheme \<Rightarrow> pc_context \<Rightarrow> 'a pc_state_scheme \<Rightarrow> bool" where
  "telescopes rs c s c' t \<longleftrightarrow> px_last_dropped c' = fold max (reported sd_droppedSamples rs) (px_last_dropped c) \<and>
     px_last_non_user c' = fold max (reported sd_nonUsrKernelsTotalSamples rs) (px_last_non_user c) \<and>
     pa_n t g_pc_dropped_hw - pa_n s g_pc_dropped_hw = px_last_dropped c' - px_last_dropped c \<and>
     pa_n t g_pc_non_user - pa_n s g_pc_non_user = px_last_non_user c' - px_last_non_user c \<and>
     pa_n t g_pc_buffer_full = pa_n s g_pc_buffer_full + of_nat (full_replies rs)"

lemma told_trans: "told ev s t \<Longrightarrow> told ev t u \<Longrightarrow> told ev s u"
  by (simp add: told_def)

lemma diff_trans:
  fixes a :: "'b::ab_group_add"
  assumes "b - a = q - p" and "c - b = r - q"
  shows "c - a = r - p"
proof -
  have "c - a = (c - b) + (b - a)" by simp
  also have "\<dots> = r - p" unfolding assms by simp
  finally show ?thesis .
qed

lemma telescopes_trans: "telescopes rs c s d t \<Longrightarrow> telescopes rs' d t e u \<Longrightarrow> telescopes (rs @ rs') c s e u"
  unfolding telescopes_def
  by (elim conjE, intro conjI) (simp_all add: reported_def full_replies_def, (erule (1) diff_trans)+)

lemma telescopes_after: "telescopes [] c s d t \<Longrightarrow> telescopes rs d t e u \<Longrightarrow> telescopes rs c s e u"
  "telescopes rs c s d t \<Longrightarrow> telescopes [] d t e u \<Longrightarrow> telescopes rs c s e u"
  using telescopes_trans [of "[]" c s d t rs] telescopes_trans [of rs c s d t "[]"] by simp_all

lemma emit_dropped_wire:
  "(\<And>n. e_sem ev P_dropped n) \<Longrightarrow> lost k (pa_wire (emit_dropped ev n q s)) = lost k (pa_wire s) + (if q = k then n else 0)"
  by (simp add: emit_dropped_def emit_if_enabled_def probe_enabled_def probe_emit_def lost_def)

lemma quiet_told:
  "pa_wire t = pa_wire s \<Longrightarrow> (\<And>k. k \<in> {g_pc_dropped_hw, g_pc_buffer_full, g_pc_non_user} \<Longrightarrow> pa_n t k = pa_n s k) \<Longrightarrow>
   told ev s t \<and> telescopes [] c s c t"
  by (simp add: told_def telescopes_def lost3_def losses_def reported_def full_replies_def)

lemma buffer_full_told: "told ev s (emit_dropped ev 1 GPU_DROP_CLASS_PC_BUFFER_FULL (bump g_pc_buffer_full s))"
  "telescopes [(CUPTI_ERROR_OUT_OF_MEMORY, d)] c s c (emit_dropped ev 1 GPU_DROP_CLASS_PC_BUFFER_FULL (bump g_pc_buffer_full s))"
  by (simp_all add: told_def telescopes_def lost3_def losses_def emit_dropped_wire reported_def full_replies_def)

lemma failed_told: "st \<noteq> CUPTI_SUCCESS \<Longrightarrow> st \<noteq> CUPTI_ERROR_OUT_OF_MEMORY \<Longrightarrow> telescopes [] c s c' t \<Longrightarrow> telescopes [(st, d)] c s c' t"
  by (simp add: telescopes_def reported_def full_replies_def)

lemma count_losses_told:
  assumes "count_losses ev d c s = (c', t)"
  shows "told ev s t \<and> telescopes [(CUPTI_SUCCESS, d)] c s c' t"
proof -
  let ?c = "c\<lparr>px_pcs := write_pcs (px_pcs c) (sd_pcs d)\<rparr>"
  let ?s = "if sd_hardwareBufferFull d then emit_dropped ev 1 GPU_DROP_CLASS_PC_BUFFER_FULL (bump g_pc_buffer_full s) else s"
  obtain c1 s1 where 1: "pc_dropped_delta ev (sd_droppedSamples d) ?c ?s = (c1, s1)" by fastforce
  have 2: "pc_non_user_delta ev (sd_nonUsrKernelsTotalSamples d) c1 s1 = (c', t)" using assms 1 by (simp add: count_losses_def Let_def)
  have "told ev s ?s" using buffer_full_told(1) [of ev s] by (auto simp: told_def)
  moreover have "told ev ?s s1"
    using 1 by (auto simp: pc_dropped_delta_def Let_def told_def lost3_def losses_def emit_dropped_wire split: if_splits)
  moreover have "told ev s1 t"
    using 2 by (auto simp: pc_non_user_delta_def Let_def told_def lost3_def losses_def emit_dropped_wire split: if_splits)
  ultimately have "told ev s t" by (blast intro: told_trans)
  moreover have "telescopes [(CUPTI_SUCCESS, d)] c s c' t"
    using 1 2 by (auto simp: pc_dropped_delta_def pc_non_user_delta_def Let_def telescopes_def reported_def full_replies_def max_def
        split: if_splits)
  ultimately show ?thesis by blast
qed

lemma add_pair_quiet:
  "pa_wire (pc_add_pair ev pc sr s) = pa_wire s"
  "k \<in> {g_pc_dropped_hw, g_pc_buffer_full, g_pc_non_user} \<Longrightarrow> pa_n (pc_add_pair ev pc sr s) k = pa_n s k"
  by (auto simp: pc_add_pair_def Let_def split: prod.split)

lemma fold_quiet:
  assumes "\<And>a t. pa_wire (f a t) = pa_wire t" and "\<And>a t k. k \<in> K \<Longrightarrow> pa_n (f a t) k = pa_n t k"
  shows "pa_wire (fold f as s) = pa_wire s \<and> (\<forall>k \<in> K. pa_n (fold f as s) k = pa_n s k)"
  using assms by (induction "as" arbitrary: s) auto

lemma add_pc_quiet:
  fixes s :: "'a pc_state_scheme"
  shows
  "pa_wire (pc_add_pc ev pc s) = pa_wire s"
  "k \<in> {g_pc_dropped_hw, g_pc_buffer_full, g_pc_non_user} \<Longrightarrow> pa_n (pc_add_pc ev pc s) k = pa_n s k"
proof -
  let ?f = "\<lambda>j. pc_add_pair ev pc (pd_stallReason pc ! j)"
  have q: "pa_wire (fold ?f js u) = pa_wire u \<and> (\<forall>k \<in> {g_pc_dropped_hw, g_pc_buffer_full, g_pc_non_user}. pa_n (fold ?f js u) k = pa_n u k)" for js and u :: "'a pc_state_scheme"
    by (rule fold_quiet) (rule add_pair_quiet, (erule add_pair_quiet))
  show "pa_wire (pc_add_pc ev pc s) = pa_wire s" unfolding pc_add_pc_def Let_def by (rule q [THEN conjunct1])
  show "pa_n (pc_add_pc ev pc s) k = pa_n s k" if "k \<in> {g_pc_dropped_hw, g_pc_buffer_full, g_pc_non_user}"
    unfolding pc_add_pc_def Let_def by (rule q [THEN conjunct2, THEN bspec, OF that])
qed

lemma drain_round_told:
  fixes s t :: "'a pc_state_scheme"
  assumes "pc_drain_round ev c s = (go, c', t)"
  shows "told ev s t \<and> telescopes (replies ev (px_ctx c) (pa_calls s) 1) c s c' t"
proof -
  let ?h = "pa_calls s @ [PCSamplingGetData (px_ctx c)]"
  let ?u = "snd (cupti ev (PCSamplingGetData (px_ctx c)) (bump g_pc_getdata_calls s))"
  have u: "told ev s ?u \<and> telescopes [] c s c ?u" by (rule quiet_told) (auto simp: cupti_def)
  have h: "pa_calls ?u = ?h" "fst (cupti ev (PCSamplingGetData (px_ctx c)) (bump g_pc_getdata_calls s)) = v_result ev ?h"
    by (simp_all add: cupti_def add_to_def)
  obtain c1 s1 where l: "count_losses ev (v_data ev ?h) c ?u = (c1, s1)" by fastforce
  consider "v_result ev ?h = CUPTI_ERROR_OUT_OF_MEMORY" "c' = c" "t = emit_dropped ev 1 GPU_DROP_CLASS_PC_BUFFER_FULL (bump g_pc_buffer_full ?u)"
    | "v_result ev ?h \<noteq> CUPTI_SUCCESS" "v_result ev ?h \<noteq> CUPTI_ERROR_OUT_OF_MEMORY" "c' = c" "t = bump g_pc_getdata_failed ?u"
    | js n m where "v_result ev ?h = CUPTI_SUCCESS" "c' = c1"
        "t = fold (\<lambda>i. pc_add_pc ev (px_pcs c1 ! i)) js (add_to g_pc_pcs n (add_to g_pc_total_samples m s1))"
    using assms l h by (auto simp: pc_drain_round_def take_data_split Let_def case_prod_unfold split: if_splits)
  then have "told ev ?u t \<and> telescopes [(v_result ev ?h, v_data ev ?h)] c ?u c' t"
  proof cases
    case 1
    then show ?thesis by (simp add: buffer_full_told)
  next
    case 2
    have "told ev ?u t \<and> telescopes [] c ?u c' t" unfolding 2 by (rule quiet_told) auto
    then show ?thesis using 2(1,2) failed_told by blast
  next
    case (3 js n m)
    let ?f = "\<lambda>i. pc_add_pc ev (px_pcs c1 ! i)"
    have q: "pa_wire (fold ?f js u) = pa_wire u \<and> (\<forall>k \<in> {g_pc_dropped_hw, g_pc_buffer_full, g_pc_non_user}. pa_n (fold ?f js u) k = pa_n u k)" for u :: "'a pc_state_scheme"
      by (rule fold_quiet) (rule add_pc_quiet, (erule add_pc_quiet))
    have "told ev s1 t \<and> telescopes [] c1 s1 c1 t" unfolding 3 using q by (intro quiet_told) auto
    then show ?thesis using count_losses_told [OF l] 3(1,2) by (metis told_trans telescopes_after(2))
  qed
  then show ?thesis using u telescopes_after(1) [of c s c ?u] told_trans [of ev s ?u t] by simp
qed

text \<open>The calls of a pull of a context, with what they were told.\<close>

definition pulled_told :: "env \<Rightarrow> nat \<Rightarrow> pc_context \<Rightarrow> 'a pc_state_scheme \<Rightarrow> pc_context \<Rightarrow> 'a pc_state_scheme \<Rightarrow> bool" where
  "pulled_told ev k c s c' t \<longleftrightarrow> pa_calls t = pa_calls s @ replicate k (PCSamplingGetData (px_ctx c)) \<and> told ev s t \<and>
     telescopes (replies ev (px_ctx c) (pa_calls s) k) c s c' t \<and> px_ctx c' = px_ctx c"

lemma round_pulled:
  assumes "pc_drain_round ev c s = (go, d, u)"
  shows "pulled_told ev 1 c s d u"
proof -
  obtain k where "0 < k" "k \<le> 1" "pa_calls u = pa_calls s @ replicate k (PCSamplingGetData (px_ctx c))" "px_ctx d = px_ctx c"
    using drain_round_pulls [OF assms] by (auto simp: pulled_def same_ctx_def)
  moreover from this have "k = 1" by simp
  ultimately show ?thesis using drain_round_told [OF assms] by (simp add: pulled_told_def)
qed

lemma pulled_told_Suc:
  assumes "pulled_told ev 1 c s d u" and "pulled_told ev k d u e v"
  shows "pulled_told ev (Suc k) c s e v"
proof -
  let ?x = "px_ctx c"
  have "telescopes (replies ev ?x (pa_calls s) 1 @ replies ev ?x (pa_calls u) k) c s e v"
    using assms by (intro telescopes_trans [of _ c s d u]) (simp_all add: pulled_told_def)
  moreover have "pa_calls u = pa_calls s @ [PCSamplingGetData ?x]" using assms(1) by (simp add: pulled_told_def)
  ultimately show ?thesis using assms told_trans [of ev s u v] by (simp add: pulled_told_def)
qed

lemma rounds_pulled:
  assumes "pc_drain_rounds ev n c s = (c', t)" and "0 < n"
  shows "\<exists>k. 0 < k \<and> k \<le> n \<and> pulled_told ev k c s c' t"
  using assms
proof (induction ev n c s rule: pc_drain_rounds.induct)
  case (2 ev n c s)
  obtain go d u where r: "pc_drain_round ev c s = (go, d, u)" by (metis prod_cases3)
  note p = round_pulled [OF r]
  show ?case
  proof (cases "go \<and> 0 < n")
    case True
    then have "\<exists>k. 0 < k \<and> k \<le> n \<and> pulled_told ev k d u c' t" using 2 r by (simp add: Let_def)
    then obtain k where "k \<le> n" "pulled_told ev k d u c' t" by blast
    with pulled_told_Suc [OF p] show ?thesis by (intro exI [of _ "Suc k"]) simp
  next
    case False
    then have t: "c' = d" "t = u \<or> t = bump g_pc_drain_rounds_capped u" using 2(2) r by (auto simp: Let_def split: if_splits)
    have "told ev u t \<and> telescopes [] d u d t" by (rule quiet_told) (use t(2) in \<open>auto simp: add_to_def\<close>)
    moreover have "pa_calls t = pa_calls u" using t(2) by (auto simp: add_to_def)
    ultimately have "pulled_told ev 1 c s c' t"
      using p t(1) told_trans [of ev s u t] telescopes_after(2) [of _ c s d u d t] by (simp add: pulled_told_def)
    then show ?thesis by (intro exI [of _ 1]) simp
  qed
qed simp

section \<open>Properties of a pull\<close>

text \<open>
  C17: one record per pair. When the vendor returns PC data for a tracked context, the adapter reads
  inside its arrays, and for every instruction returned and every stall reason it carries there is
  one record in the order of the data, or one count: a pair without samples is counted as such, a
  pair nobody listens to as unattached, and with a consumer attached the batch takes in exactly the
  samples of the pairs that have some. The sample counts are added up over all of them.
\<close>

theorem pull_delivers_pairs:
  assumes "pc_inv ev s" and "c \<in> set (pa_ctxs s)" and "pc_drain_round ev c s = (go, c', t)"
    and "h = pa_calls s @ [PCSamplingGetData (px_ctx c)]" and "v_result ev h = CUPTI_SUCCESS"
    and "ps = pc_pairs (unat (pa_num_stall_reasons s)) (take (unat (sd_totalNumPcs (v_data ev h))) (write_pcs (px_pcs c) (sd_pcs (v_data ev h))))"
  shows "(go \<longleftrightarrow> sd_remainingNumPcs (v_data ev h) \<noteq> 0) \<and> length (px_pcs c') = unat (pa_collect_num_pcs s) \<and>
    pa_n t g_pc_records + pa_n t g_pc_unattached = pa_n s g_pc_records + pa_n s g_pc_unattached + of_nat (length (filter counted_pair ps)) \<and>
    pa_n t g_pc_zero_stall = pa_n s g_pc_zero_stall + of_nat (length (filter (\<lambda>p. \<not> counted_pair p) ps)) \<and>
    pa_n t g_pc_emitted_counts = pa_n s g_pc_emitted_counts + sum_list (map (\<lambda>p. ucast (sr_samples (snd p))) ps) \<and>
    ((\<forall>n. e_batch_sem ev P_pc n) \<and> room (pa_pcb s) \<longrightarrow> taken_in (pa_pcb t) = taken_in (pa_pcb s) @ map sample_of (filter counted_pair ps))"
proof -
  let ?s = "snd (cupti ev (PCSamplingGetData (px_ctx c)) (bump g_pc_getdata_calls s))"
  have wf: "ctx_wf (pa_collect_num_pcs s) (pa_num_stall_reasons s) c"
    using assms(1,2) by (simp add: pc_inv_def pc_ok_def list_all_iff)
  have t: "pc_take_data ev (v_data ev h) c ?s = (c', t)" and go: "go \<longleftrightarrow> sd_remainingNumPcs (v_data ev h) \<noteq> 0"
    using assms(3-5) by (auto simp: pc_drain_round_def cupti_def Let_def)
  from pairs_added_take [OF t] wf have "pairs_added ev ps ?s t" by (simp add: assms(6) cupti_def)
  then have "pairs_added ev ps s t" by (rule pairs_added_cong) (auto simp: cupti_def)
  moreover have "ctx_wf (pa_collect_num_pcs s) (pa_num_stall_reasons s) c'"
    using take_data_still [OF t] wf by (simp add: same_ctx_def)
  ultimately show ?thesis using go by (simp add: pairs_added_def ctx_wf_def)
qed

text \<open>
  C18: losses are reported once, as the vendor reports them. A pull of an enabled context makes at
  least one and at most 64 calls, and one of a disabled context none. Afterwards the context's two counts are the
  greatest dropped-samples and non-user-kernel counts of the successful answers to those calls and of the counts
  before; the process-wide counters have grown by exactly as much, and the buffer-full counter by the number of
  answers that said so. While a consumer listens, the drop records on the wire add up to the counters, class by class.
\<close>

theorem pc_losses_telescope:
  assumes "pc_drain_ctx_locked ev c s = (c', t)"
  shows "\<exists>k \<le> 64. (0 < k \<longleftrightarrow> px_enabled c) \<and> pa_calls t = pa_calls s @ replicate k (PCSamplingGetData (px_ctx c)) \<and>
    px_last_dropped c' = fold max (reported sd_droppedSamples (replies ev (px_ctx c) (pa_calls s) k)) (px_last_dropped c) \<and>
    px_last_non_user c' = fold max (reported sd_nonUsrKernelsTotalSamples (replies ev (px_ctx c) (pa_calls s) k)) (px_last_non_user c) \<and>
    pa_n t g_pc_dropped_hw = pa_n s g_pc_dropped_hw + (px_last_dropped c' - px_last_dropped c) \<and>
    pa_n t g_pc_non_user = pa_n s g_pc_non_user + (px_last_non_user c' - px_last_non_user c) \<and>
    pa_n t g_pc_buffer_full = pa_n s g_pc_buffer_full + of_nat (full_replies (replies ev (px_ctx c) (pa_calls s) k)) \<and>
    ((\<forall>n. e_sem ev P_dropped n) \<and> lost3 s = losses s \<longrightarrow> lost3 t = losses t)"
proof -
  have "\<exists>k \<le> 64. (0 < k \<longleftrightarrow> px_enabled c) \<and> pulled_told ev k c s c' t"
  proof (cases "px_enabled c")
    case True
    then show ?thesis using assms rounds_pulled [of ev 64 c s c' t] by (auto simp: pc_drain_ctx_locked_def)
  next
    case False
    then show ?thesis
      using assms quiet_told [of s s ev c] by (intro exI [of _ 0]) (simp add: pc_drain_ctx_locked_def pulled_told_def)
  qed
  then show ?thesis by (auto simp: pulled_told_def telescopes_def told_def diff_eq_eq add.commute)
qed

section \<open>A concrete device\<close>

definition new_pc_state :: "bool \<Rightarrow> bool \<Rightarrow> u32 \<Rightarrow> u64 \<Rightarrow> pc_sample list \<Rightarrow> u64 \<Rightarrow> pc_state" where
  "new_pc_state on tier_a period collect buf drain_ns =
     \<lparr>pa_calls = [], pa_asked = 0, pa_reads = 0, pa_n = (\<lambda>c. 0), pa_seq = (\<lambda>p. 0), pa_wire = [], pa_pcb = new_batch buf,
      pa_replay = new_replay_log \<lparr>gc_clock_hz = 0, gc_sampling_factor = 0, gc_sm_count = 0, gc_vendor = 0\<rparr>,
      pa_schedule = new_pc_drain drain_ns, pa_pc_enabled = on, pa_tier_a = tier_a, pa_period = period, pa_collect_num_pcs = collect,
      pa_scratch_bytes = 0, pa_hw_buffer_bytes = 0, pa_worker_sleep_ms = 10, pa_stall_indices = [], pa_num_stall_reasons = 0,
      pa_stall_queried = False, pa_ctxs = []\<rparr>"

lemma pc_inv_new: "pc_inv ev (new_pc_state on tier_a period collect buf drain_ns)"
  by (simp add: pc_inv_def pc_ok_def new_pc_state_def)

definition demo_env :: env where
  "demo_env = \<lparr>v_result = (\<lambda>h. CUPTI_SUCCESS), v_num_stalls = (\<lambda>h. 2), v_stalls = (\<lambda>h. [(7, Some ''barrier''), (9, Some ''branch'')]),
     v_stall_string_size = 128, v_attr_status = (\<lambda>h. []), v_period = (\<lambda>h. (CUPTI_SUCCESS, 12)),
     v_data = (\<lambda>h. \<lparr>sd_totalNumPcs = 1, sd_remainingNumPcs = 0, sd_totalSamples = 9, sd_droppedSamples = 5, sd_nonUsrKernelsTotalSamples = 1,
       sd_hardwareBufferFull = False,
       sd_pcs = [\<lparr>pd_cubinCrc = 77, pd_pcOffset = 16, pd_functionIndex = 1, pd_correlationId = 3, pd_stallReasonCount = 2,
         pd_stallReason = [\<lparr>sr_index = 7, sr_samples = 3\<rparr>, \<lparr>sr_index = 9, sr_samples = 0\<rparr>]\<rparr>]\<rparr>),
     v_timestamp = (\<lambda>h. 0), v_crc = (\<lambda>b. (CUPTI_SUCCESS, 1)), e_sem = (\<lambda>p n. True), e_batch_sem = (\<lambda>p n. True), e_clock = (\<lambda>n. of_nat n), e_sync_found = True,
     e_round = (\<lambda>x. x)\<rparr>"

definition demo_pc :: pc_state where
  "demo_pc = on_resource demo_env CONTEXT_CREATED (Some 5)
     (new_pc_state True False 0 2 (replicate 4 \<lparr>ps_cubin_crc = 0, ps_correlation = 0, ps_pc_offset = 0, ps_function_index = 0, ps_stall_index = 0, ps_count = 0\<rparr>) 100)"

lemmas pc_eval = new_pc_state_def on_resource_def pc_enable_ctx_def pc_query_stall_reasons_def pc_setup_buffer_def pc_config_def
  pc_read_period_def cupti_def fill_def add_to_def publish_stall_def emit_if_enabled_def probe_enabled_def probe_emit_def
  record_stall_reason_def new_replay_log_def stall_map_rec_def

lemma demo_pc_eval:
  "pa_ctxs demo_pc = [\<lparr>px_ctx = 5, px_pcs = [zero_pc 2, zero_pc 2], px_last_dropped = 0, px_last_non_user = 0, px_enabled = True\<rparr>]"
  "pa_num_stall_reasons demo_pc = 2" "pa_collect_num_pcs demo_pc = 2" "room (pa_pcb demo_pc)" "taken_in (pa_pcb demo_pc) = []"
  "lost3 demo_pc = losses demo_pc"
  by (simp_all add: demo_pc_def demo_env_def pc_eval Let_def room_def taken_in_def new_batch_def lost3_def losses_def lost_def)
    (simp_all add: numeral_2_eq_2)

lemma replicate_2: "replicate 2 x = [x, x]"
  by (simp add: numeral_2_eq_2)

lemma demo_pc_inv: "pc_inv demo_env demo_pc"
  unfolding demo_pc_def by (rule on_resource_inv, rule pc_inv_new)

theorem pull_delivers_pairs_witness:
  "\<exists>t. snd (snd (pc_drain_round demo_env (hd (pa_ctxs demo_pc)) demo_pc)) = t \<and>
     taken_in (pa_pcb t) = [\<lparr>ps_cubin_crc = 77, ps_correlation = 3, ps_pc_offset = 16, ps_function_index = 1, ps_stall_index = 7, ps_count = 3\<rparr>]"
proof -
  let ?c = "hd (pa_ctxs demo_pc)"
  obtain go c' t where r: "pc_drain_round demo_env ?c demo_pc = (go, c', t)" by (metis prod_cases3)
  have "?c \<in> set (pa_ctxs demo_pc)" by (simp add: demo_pc_eval)
  from pull_delivers_pairs [OF demo_pc_inv this r refl _ refl] r show ?thesis
    by (simp add: demo_pc_eval demo_env_def pc_pairs_def write_pcs_def overlay_def zero_pc_def counted_pair_def sample_of_def replicate_2)
qed

theorem pc_losses_telescope_witness:
  "\<exists>c t. pc_drain_ctx_locked demo_env (hd (pa_ctxs demo_pc)) demo_pc = (c, t) \<and> lost3 t = losses t \<and>
     px_last_dropped c = 5 \<and> px_last_non_user c = 1 \<and> pa_n t g_pc_buffer_full = pa_n demo_pc g_pc_buffer_full"
proof -
  let ?c = "hd (pa_ctxs demo_pc)"
  obtain c t where r: "pc_drain_ctx_locked demo_env ?c demo_pc = (c, t)" by fastforce
  obtain k where k: "0 < k"
    "px_last_dropped c = fold max (reported sd_droppedSamples (replies demo_env 5 (pa_calls demo_pc) k)) 0"
    "px_last_non_user c = fold max (reported sd_nonUsrKernelsTotalSamples (replies demo_env 5 (pa_calls demo_pc) k)) 0"
    "pa_n t g_pc_buffer_full = pa_n demo_pc g_pc_buffer_full + of_nat (full_replies (replies demo_env 5 (pa_calls demo_pc) k))"
    "lost3 t = losses t"
    using pc_losses_telescope [OF r] demo_pc_eval(1,6) by (auto simp: demo_env_def)
  have f: "(max a ^^ n) a = a" for n and a :: u64 by (induction n) simp_all
  have rs: "reported sd_droppedSamples (replies demo_env x h n) = replicate n 5"
    "reported sd_nonUsrKernelsTotalSamples (replies demo_env x h n) = replicate n 1"
    "full_replies (replies demo_env x h n) = 0" for x h n
    by (induction n arbitrary: h) (simp_all add: reported_def full_replies_def demo_env_def)
  obtain j where "k = Suc j" using k(1) by (cases k) auto
  then have "px_last_dropped c = 5" "px_last_non_user c = 1" "pa_n t g_pc_buffer_full = pa_n demo_pc g_pc_buffer_full"
    using k(2-4) unfolding rs by (simp_all add: f max_def)
  then show ?thesis using r k(5) by blast
qed

end
