(* ===== verification/Cupti_Burst.thy ===== *)
theory Cupti_Burst
  imports Cupti_Pc Shim_Burst
begin

text \<open>
  The duty cycle of the serialized tier in the NVIDIA adapter, \<open>src/shim/nvidia/cupti_adapter.cc\<close>:
  bursts are opened when a kernel launch is entered and closed when one is left, and each is put on
  the wire as a window when it opens and again when it closes, with the time during which no
  further burst will open. Also the record of the sampling configuration and the finalize handler.

  The state extends that of the PC sampling with the burst controller and the device facts. A
  handler is one step, except that the two parts of a launch exit, the reading of the open burst's
  start and the poll with what follows it, are separate definitions, because the code holds no lock
  across them and launches of other threads come in between.

  The lemmas show that with handlers taken one at a time windows come in pairs of an open and a
  closed one with the same start, that no window opens inside a promised quiet time or after the
  last one, and that the handlers keep the vendor's protocol; that interleaved handlers break both
  the pairing and the promise; and that the finalize handler leaves no context enabled.
\<close>

section \<open>The state\<close>

record burst_state = pc_state +
  ba_burst :: "burst_controller option"
  ba_timer_tid :: u64
  ba_sync_tried :: bool
  ba_sync :: bool
  ba_sm_count :: u32
  ba_core_clock_hz :: u64
  ba_finalized :: bool

section \<open>Windows\<close>

definition emit_window :: "env \<Rightarrow> u64 \<Rightarrow> u64 \<Rightarrow> u32 \<Rightarrow> 'a burst_state_scheme \<Rightarrow> 'a burst_state_scheme" where
  "emit_window ev start_ns end_ns next_start_delta_ms s =
     (let (on, s) = probe_enabled ev P_window s
      in if \<not> on then s
         else
           let w = \<lparr>sw_start_ns = start_ns, sw_end_ns = end_ns, sw_mode = GPU_SAMPLING_MODE_KERNEL_SERIALIZED,
                    sw_next_start_delta_ms = next_start_delta_ms\<rparr>
           in bump g_windows_emitted (probe_emit P_window (W_window w) s))"

definition note_burst_thread :: "u32 \<Rightarrow> 'a burst_state_scheme \<Rightarrow> 'a burst_state_scheme" where
  "note_burst_thread tid s =
     (if ba_timer_tid s \<noteq> 0 \<and> ucast tid = ba_timer_tid s then bump g_burst_calls_on_timer s else s)"

definition pc_resolve_ctx_sync :: "env \<Rightarrow> 'a burst_state_scheme \<Rightarrow> 'a burst_state_scheme" where
  "pc_resolve_ctx_sync ev s = s\<lparr>ba_sync := e_sync_found ev, ba_sync_tried := True\<rparr>"

definition pc_sync_before_start :: "env \<Rightarrow> 'a burst_state_scheme \<Rightarrow> 'a burst_state_scheme" where
  "pc_sync_before_start ev s =
     (let s = (if \<not> ba_sync_tried s then pc_resolve_ctx_sync ev s else s)
      in if \<not> ba_sync s then bump g_burst_sync_missing s
         else let (st, s) = cupti ev CuCtxSynchronize s in if st \<noteq> CUPTI_SUCCESS then bump g_burst_sync_failed s else s)"

definition pc_start_ctx :: "env \<Rightarrow> pc_context \<Rightarrow> 'a burst_state_scheme \<Rightarrow> 'a burst_state_scheme" where
  "pc_start_ctx ev c s =
     (if \<not> px_enabled c then s
      else let (st, s) = cupti ev (PCSamplingStart (px_ctx c)) s in if st \<noteq> CUPTI_SUCCESS then bump g_burst_start_failed s else s)"

definition pc_start_ctxs_locked :: "env \<Rightarrow> u32 \<Rightarrow> 'a burst_state_scheme \<Rightarrow> 'a burst_state_scheme" where
  "pc_start_ctxs_locked ev tid s = (let s = note_burst_thread tid s in fold (pc_start_ctx ev) (pa_ctxs s) s)"

definition pc_stop_ctx :: "env \<Rightarrow> pc_context \<Rightarrow> 'a burst_state_scheme \<Rightarrow> 'a burst_state_scheme" where
  "pc_stop_ctx ev c s =
     (if \<not> px_enabled c then s
      else let (st, s) = cupti ev (PCSamplingStop (px_ctx c)) s in if st \<noteq> CUPTI_SUCCESS then bump g_burst_stop_failed s else s)"

definition pc_stop_ctxs_locked :: "env \<Rightarrow> u32 \<Rightarrow> 'a burst_state_scheme \<Rightarrow> 'a burst_state_scheme" where
  "pc_stop_ctxs_locked ev tid s = (let s = note_burst_thread tid s in fold (pc_stop_ctx ev) (pa_ctxs s) s)"

abbreviation kWindowQuietNever :: u32 where "kWindowQuietNever \<equiv> 0xFFFFFFFF"

definition burst_quiet_ms :: "u64 \<Rightarrow> 'a burst_state_scheme \<Rightarrow> u32" where
  "burst_quiet_ms now s =
     (case ba_burst s of None \<Rightarrow> 0
      | Some b \<Rightarrow>
          if bu_refused b then kWindowQuietNever
          else let next = bu_next_start_ns b
            in if next \<le> now then 0
               else let ms = (next - now) div 1000000
                 in if ms \<ge> ucast kWindowQuietNever then kWindowQuietNever - 1 else ucast ms)"

section \<open>Bursts\<close>

definition burst_close :: "env \<Rightarrow> u32 \<Rightarrow> u64 \<Rightarrow> u64 \<Rightarrow> 'a burst_state_scheme \<Rightarrow> 'a burst_state_scheme" where
  "burst_close ev tid now start_ns s =
     (let pcs_at_open = pa_n s g_pc_pcs_at_open;
          s = pc_stop_ctxs_locked ev tid s;
          s = s\<lparr>pa_schedule := force now kRangeEnd (pa_schedule s)\<rparr>;
          s = pc_drain_all ev kRangeEnd s;
          s = (if pa_n s g_pc_pcs = pcs_at_open then bump g_bursts_empty s else s);
          s = add_to g_sampling_burst_ns (if now > start_ns then now - start_ns else 0) s;
          s = (case ba_burst s of None \<Rightarrow> s | Some b \<Rightarrow> s\<lparr>ba_burst := Some (closed_burst (e_round ev) (pa_n s g_pc_records) b)\<rparr>)
      in emit_window ev start_ns now (burst_quiet_ms now s) s)"

definition note_graph_refusal :: "bool \<Rightarrow> bool \<Rightarrow> burst_controller \<Rightarrow> 'a burst_state_scheme \<Rightarrow> 'a burst_state_scheme" where
  "note_graph_refusal was_refused graphs b s =
     (if was_refused \<or> \<not> bu_refused b \<or> \<not> graphs then s else bump g_tier_a_graph_refused s)"

definition graphs_seen :: "'a burst_state_scheme \<Rightarrow> bool" where
  "graphs_seen s \<longleftrightarrow> pa_n s g_exec_from_graph \<noteq> 0"

text \<open>What a launch that is entered does once the controller told it to start a burst.\<close>

definition burst_open :: "env \<Rightarrow> u32 \<Rightarrow> u64 \<Rightarrow> 'a burst_state_scheme \<Rightarrow> 'a burst_state_scheme" where
  "burst_open ev tid now s =
     (let s = pc_sync_before_start ev s;
          s = pc_start_ctxs_locked ev tid s;
          s = s\<lparr>pa_n := (pa_n s)(g_pc_pcs_at_open := pa_n s g_pc_pcs)\<rparr>;
          s = bump g_sampling_bursts s
      in emit_window ev now 0 0 s)"

definition burst_open_at_launch :: "env \<Rightarrow> u32 \<Rightarrow> u64 \<Rightarrow> 'a burst_state_scheme \<Rightarrow> 'a burst_state_scheme" where
  "burst_open_at_launch ev tid now s =
     (case ba_burst s of None \<Rightarrow> s
      | Some b \<Rightarrow>
          if \<not> pa_tier_a s then s
          else if pa_n s g_ctx_enabled = 0 then s
          else
            let s = bump g_burst_enter_polls s;
                graphs = graphs_seen s;
                was_refused = bu_refused b;
                (act, b') = poll_open now graphs b;
                s = s\<lparr>ba_burst := Some b'\<rparr>;
                s = (if act = kStart then burst_open ev tid now s else s)
            in note_graph_refusal was_refused graphs b' s)"

text \<open>A launch that is left: first what is read of the controller, then the poll with what was read.\<close>

definition burst_exit_read :: "'a burst_state_scheme \<Rightarrow> bool \<times> bool \<times> u64" where
  "burst_exit_read s =
     (case ba_burst s of None \<Rightarrow> (False, False, 0) | Some b \<Rightarrow> (graphs_seen s, bu_refused b, bu_burst_start_ns b))"

definition burst_exit_poll :: "env \<Rightarrow> u64 \<Rightarrow> bool \<Rightarrow> 'a burst_state_scheme \<Rightarrow> BurstAction \<times> 'a burst_state_scheme" where
  "burst_exit_poll ev now graphs s =
     (case ba_burst s of None \<Rightarrow> (kNone, s)
      | Some b \<Rightarrow> let (act, b') = poll_close (e_round ev) now graphs b in (act, s\<lparr>ba_burst := Some b'\<rparr>))"

definition burst_exit_act ::
  "env \<Rightarrow> u32 \<Rightarrow> u64 \<Rightarrow> bool \<times> bool \<times> u64 \<Rightarrow> BurstAction \<Rightarrow> 'a burst_state_scheme \<Rightarrow> 'a burst_state_scheme" where
  "burst_exit_act ev tid now rd act s =
     (let (graphs, was_refused, start_ns) = rd;
          s = (if act = kStop then burst_close ev tid now start_ns s else s)
      in case ba_burst s of None \<Rightarrow> s | Some b \<Rightarrow> note_graph_refusal was_refused graphs b s)"

definition burst_close_at_launch :: "env \<Rightarrow> u32 \<Rightarrow> u64 \<Rightarrow> 'a burst_state_scheme \<Rightarrow> 'a burst_state_scheme" where
  "burst_close_at_launch ev tid now s =
     (if \<not> pa_tier_a s \<or> ba_burst s = None then s
      else
        let s = bump g_burst_exit_polls s;
            rd = burst_exit_read s;
            (act, s) = burst_exit_poll ev now (fst rd) s
        in burst_exit_act ev tid now rd act s)"

definition burst_shutdown :: "env \<Rightarrow> u32 \<Rightarrow> 'a burst_state_scheme \<Rightarrow> 'a burst_state_scheme" where
  "burst_shutdown ev tid s =
     (case ba_burst s of None \<Rightarrow> s
      | Some b \<Rightarrow>
          if \<not> pa_tier_a s then s
          else
            let (now, s) = mono_ns ev s;
                start_ns = bu_burst_start_ns b;
                (act, b') = shutdown (e_round ev) now b;
                s = s\<lparr>ba_burst := Some b'\<rparr>
            in if act = kStop then burst_close ev tid now start_ns s else s)"

section \<open>The configuration record\<close>

abbreviation kPCPeriodMin :: u32 where "kPCPeriodMin \<equiv> 5"
abbreviation kPCPeriodMax :: u32 where "kPCPeriodMax \<equiv> 31"

definition sampling_factor :: "u32 \<Rightarrow> u32" where
  "sampling_factor period = (if period \<ge> kPCPeriodMin \<and> period \<le> kPCPeriodMax then push_bit (unat period) 1 else 0)"

definition pc_emit_config_once :: "env \<Rightarrow> 'a burst_state_scheme \<Rightarrow> 'a burst_state_scheme" where
  "pc_emit_config_once ev s =
     (if pa_n s g_config_emitted \<noteq> 0 then s
      else
        let cfg = \<lparr>gc_clock_hz = ba_core_clock_hz s, gc_sampling_factor = sampling_factor (pa_period s), gc_sm_count = ba_sm_count s,
                   gc_vendor = GPU_VENDOR_NVIDIA\<rparr>;
            s = (if gc_sm_count cfg = 0 then bump g_config_no_device s else s);
            s = s\<lparr>pa_replay := record_config cfg (pa_replay s)\<rparr>;
            s = emit_if_enabled ev P_config (W_config cfg) s
        in bump g_config_emitted s)"

section \<open>Finalize\<close>

text \<open>\<open>free\<close>: whether the try for the CUPTI guard gets it.\<close>

definition on_finalize :: "env \<Rightarrow> bool \<Rightarrow> 'a burst_state_scheme \<Rightarrow> 'a burst_state_scheme" where
  "on_finalize ev free s =
     (if ba_finalized s then s
      else
        let s = bump g_finalize_seen (s\<lparr>ba_finalized := True\<rparr>)
        in if \<not> pa_pc_enabled s then s
           else
             let s = (case ba_burst s of None \<Rightarrow> s
                      | Some b \<Rightarrow> let (now, s) = mono_ns ev s in s\<lparr>ba_burst := Some (snd (shutdown (e_round ev) now b))\<rparr>)
             in if \<not> free then bump g_finalize_contended s
                else flush_pcb ev (all_ctxs (pc_teardown_ctx ev) s))"

section \<open>Windows on the wire\<close>

fun window_of :: "wire \<Rightarrow> sampling_window list" where
  "window_of (W_window w) = [w]"
| "window_of _ = []"

definition windows :: "'a pc_state_scheme \<Rightarrow> sampling_window list" where
  "windows s = concat (map (window_of \<circ> fst) (pa_wire s))"

text \<open>
  The specification: bursts, each an open window and, unless it is the last, a closed one with the
  same start; a burst opens only when the burst before it is closed, has not announced to be the
  last, and after the quiet time it promised. A promise of zero says nothing.
\<close>

type_synonym burst_rec = "sampling_window \<times> sampling_window option"

definition honoured :: "sampling_window \<Rightarrow> u64 \<Rightarrow> bool" where
  "honoured k start \<longleftrightarrow> sw_next_start_delta_ms k \<noteq> kWindowQuietNever \<and>
     (sw_next_start_delta_ms k = 0 \<or> unat (sw_end_ns k) + unat (sw_next_start_delta_ms k) * 1000000 \<le> unat start)"

fun flat_burst :: "burst_rec \<Rightarrow> sampling_window list" where
  "flat_burst (w, None) = [w]"
| "flat_burst (w, Some k) = [w, k]"

fun burst_ok :: "burst_rec \<Rightarrow> bool" where
  "burst_ok (w, k) \<longleftrightarrow> sw_end_ns w = 0 \<and> (case k of None \<Rightarrow> True | Some k \<Rightarrow> sw_start_ns k = sw_start_ns w)"

fun follows :: "burst_rec \<Rightarrow> burst_rec \<Rightarrow> bool" where
  "follows (w, k) (w', k') \<longleftrightarrow> (case k of None \<Rightarrow> False | Some k \<Rightarrow> honoured k (sw_start_ns w'))"

definition window_history :: "burst_rec list \<Rightarrow> sampling_window list \<Rightarrow> bool" where
  "window_history bs ws \<longleftrightarrow> ws = concat (map flat_burst bs) \<and> list_all burst_ok bs \<and> successively follows bs"

text \<open>The controller agrees with what is on the wire.\<close>

definition in_step :: "burst_rec list \<Rightarrow> burst_controller \<Rightarrow> bool" where
  "in_step bs b \<longleftrightarrow>
     (bu_sampling b \<longrightarrow> bu_started b \<and> bs \<noteq> [] \<and> snd (last bs) = None \<and> sw_start_ns (fst (last bs)) = bu_burst_start_ns b) \<and>
     (\<not> bu_sampling b \<and> \<not> bu_refused b \<and> bs \<noteq> [] \<longrightarrow>
        (\<exists>k. snd (last bs) = Some k \<and> bu_started b \<and> honoured k (bu_next_start_ns b)))"

definition win_inv :: "'a burst_state_scheme \<Rightarrow> bool" where
  "win_inv s \<longleftrightarrow> (\<exists>bs. window_history bs (windows s) \<and> (case ba_burst s of None \<Rightarrow> bs = [] | Some b \<Rightarrow> in_step bs b))"

interpretation kept: pc_frame ev "\<lambda>s t. windows t = windows s \<and> pc_state.more t = pc_state.more s" for ev
  by unfold_locales (simp_all add: windows_def emit_if_enabled_def probe_enabled_def probe_emit_def)

lemma more_burst: "pc_state.more t = pc_state.more (s :: 'a burst_state_scheme) \<Longrightarrow> ba_burst t = ba_burst s"
  by (cases s, cases t) simp

lemma windows_simps [simp]:
  "windows (add_to c d s) = windows s" "windows (s\<lparr>pa_n := n\<rparr>) = windows s" "windows (s\<lparr>pa_schedule := d'\<rparr>) = windows s"
  "windows (t\<lparr>ba_burst := x\<rparr>) = windows t" "windows (t\<lparr>ba_sync := q, ba_sync_tried := q'\<rparr>) = windows t"
  "windows (s\<lparr>pa_calls := cs\<rparr>) = windows s"
  by (simp_all add: windows_def add_to_def)

lemma ba_burst_add_to [simp]: "ba_burst (add_to c d s) = ba_burst s"
  by (simp add: add_to_def)

lemma sync_windows [simp]:
  "windows (pc_sync_before_start ev s) = windows s" "ba_burst (pc_sync_before_start ev s) = ba_burst s"
  by (simp_all add: pc_sync_before_start_def pc_resolve_ctx_sync_def Let_def cupti_def)

lemma ctx_windows:
  "windows (pc_start_ctx ev c s) = windows s" "ba_burst (pc_start_ctx ev c s) = ba_burst s"
  "windows (pc_stop_ctx ev c s) = windows s" "ba_burst (pc_stop_ctx ev c s) = ba_burst s"
  by (simp_all add: pc_start_ctx_def pc_stop_ctx_def Let_def cupti_def)

lemma ctxs_windows [simp]:
  "windows (pc_start_ctxs_locked ev tid s) = windows s" "ba_burst (pc_start_ctxs_locked ev tid s) = ba_burst s"
  "windows (pc_stop_ctxs_locked ev tid s) = windows s" "ba_burst (pc_stop_ctxs_locked ev tid s) = ba_burst s"
proof -
  have "windows (fold (pc_start_ctx ev) cs t) = windows t \<and> ba_burst (fold (pc_start_ctx ev) cs t) = ba_burst t" for cs and t :: "'a burst_state_scheme"
    by (induction cs arbitrary: t) (simp_all add: ctx_windows)
  then show "windows (pc_start_ctxs_locked ev tid s) = windows s" "ba_burst (pc_start_ctxs_locked ev tid s) = ba_burst s"
    by (simp_all add: pc_start_ctxs_locked_def note_burst_thread_def Let_def)
  have "windows (fold (pc_stop_ctx ev) cs t) = windows t \<and> ba_burst (fold (pc_stop_ctx ev) cs t) = ba_burst t" for cs and t :: "'a burst_state_scheme"
    by (induction cs arbitrary: t) (simp_all add: ctx_windows)
  then show "windows (pc_stop_ctxs_locked ev tid s) = windows s" "ba_burst (pc_stop_ctxs_locked ev tid s) = ba_burst s"
    by (simp_all add: pc_stop_ctxs_locked_def note_burst_thread_def Let_def)
qed

lemma drain_all_windows [simp]:
  "windows (pc_drain_all ev r s) = windows s" "ba_burst (pc_drain_all ev r (t :: 'a burst_state_scheme)) = ba_burst t"
  using kept.drain_all [where ev = ev and s = s and r = r] more_burst [OF conjunct2 [OF kept.drain_all [where ev = ev and s = t and r = r]]] by simp_all

lemma emit_window_windows:
  assumes "\<And>n. e_sem ev P_window n"
  shows "windows (emit_window ev a b d s) =
      windows s @ [\<lparr>sw_start_ns = a, sw_end_ns = b, sw_mode = GPU_SAMPLING_MODE_KERNEL_SERIALIZED, sw_next_start_delta_ms = d\<rparr>]"
    "ba_burst (emit_window ev a b d s) = ba_burst s"
  using assms by (simp_all add: emit_window_def probe_enabled_def probe_emit_def windows_def add_to_def Let_def)

section \<open>One handler at a time\<close>

lemma quiet_promise:
  assumes "ba_burst s = Some b" and "\<not> bu_refused b" and "sw_end_ns k = now" and "sw_next_start_delta_ms k = burst_quiet_ms now s"
  shows "honoured k (bu_next_start_ns b)"
proof (cases "bu_next_start_ns b \<le> now")
  case False
  let ?d = "bu_next_start_ns b - now" and ?ms = "(bu_next_start_ns b - now) div 1000000"
  have d: "unat ?d = unat (bu_next_start_ns b) - unat now" "unat now < unat (bu_next_start_ns b)"
    using False by (simp_all add: unat_diff_no_wrap word_le_nat_alt)
  have m: "unat ?ms = unat ?d div 1000000" by (simp add: unat_div)
  have "sw_next_start_delta_ms k = (if ?ms \<ge> 0xFFFFFFFF then 0xFFFFFFFE else ucast ?ms)"
    using assms False by (simp add: burst_quiet_ms_def Let_def)
  then have "unat (sw_next_start_delta_ms k) \<le> unat ?ms \<and> unat (sw_next_start_delta_ms k) < 4294967295"
    by (auto simp: word_le_nat_alt unsigned_ucast_eq split: if_splits) (simp add: take_bit_nat_eq_self)
  moreover have "unat ?ms * 1000000 \<le> unat ?d" unfolding m by simp
  ultimately have "unat (sw_next_start_delta_ms k) * 1000000 \<le> unat ?d" "sw_next_start_delta_ms k \<noteq> kWindowQuietNever"
    by (auto intro: order_trans [OF mult_le_mono1])
  then have "unat now + unat (sw_next_start_delta_ms k) * 1000000 \<le> unat (bu_next_start_ns b)" "sw_next_start_delta_ms k \<noteq> kWindowQuietNever"
    using d by linarith+
  then show ?thesis using assms(3) by (simp add: honoured_def)
next
  case True
  then show ?thesis using assms by (simp add: honoured_def burst_quiet_ms_def)
qed

lemma closed_burst_frame [simp]:
  "bu_refused (closed_burst rnd n b) = bu_refused b" "bu_sampling (closed_burst rnd n b) = bu_sampling b"
  "bu_started (closed_burst rnd n b) = bu_started b" "bu_burst_start_ns (closed_burst rnd n b) = bu_burst_start_ns b"
  by (simp_all add: closed_burst_def Let_def)

lemma window_history_open:
  assumes "window_history bs ws" and "sw_end_ns w = 0" and "bs \<noteq> [] \<Longrightarrow> \<exists>k. snd (last bs) = Some k \<and> honoured k (sw_start_ns w)"
  shows "window_history (bs @ [(w, None)]) (ws @ [w])"
  using assms by (cases "last bs") (auto simp: window_history_def successively_append_iff split: option.split)

lemma window_history_close:
  assumes "window_history bs ws" and "bs \<noteq> []" and "snd (last bs) = None" and "sw_start_ns k = sw_start_ns (fst (last bs))"
  shows "window_history (butlast bs @ [(fst (last bs), Some k)]) (ws @ [k])"
proof -
  obtain cs w where bs: "bs = cs @ [(w, None)]" using assms(2,3) by (metis append_butlast_last_id prod.collapse)
  show ?thesis
    using assms unfolding bs window_history_def
    by (cases "last cs") (auto simp: successively_append_iff split: option.splits)
qed

lemma burst_close_windows:
  fixes s :: "'a burst_state_scheme"
  assumes "\<And>n. e_sem ev P_window n" and "ba_burst s = Some b"
  obtains q b' where "ba_burst (burst_close ev tid now st s) = Some b'"
    "windows (burst_close ev tid now st s) =
       windows s @ [\<lparr>sw_start_ns = st, sw_end_ns = now, sw_mode = GPU_SAMPLING_MODE_KERNEL_SERIALIZED, sw_next_start_delta_ms = q\<rparr>]"
    "bu_refused b' = bu_refused b" "bu_sampling b' = bu_sampling b" "bu_started b' = bu_started b"
    "\<not> bu_refused b \<Longrightarrow>
       honoured \<lparr>sw_start_ns = st, sw_end_ns = now, sw_mode = GPU_SAMPLING_MODE_KERNEL_SERIALIZED, sw_next_start_delta_ms = q\<rparr> (bu_next_start_ns b')"
proof -
  let ?s1 = "pc_stop_ctxs_locked ev tid s"
  let ?s2 = "pc_drain_all ev kRangeEnd (?s1\<lparr>pa_schedule := force now kRangeEnd (pa_schedule ?s1)\<rparr>)"
  define s3 where "s3 = add_to g_sampling_burst_ns (if now > st then now - st else 0)
    (if pa_n ?s2 g_pc_pcs = pa_n s g_pc_pcs_at_open then bump g_bursts_empty ?s2 else ?s2)"
  define b' where "b' = closed_burst (e_round ev) (pa_n s3 g_pc_records) b"
  let ?s4 = "s3\<lparr>ba_burst := Some b'\<rparr>"
  let ?q = "burst_quiet_ms now ?s4"
  have b: "ba_burst s3 = Some b" and w: "windows s3 = windows s" using assms(2) by (simp_all add: s3_def)
  have eq: "burst_close ev tid now st s = emit_window ev st now ?q ?s4"
    using b by (simp add: burst_close_def s3_def b'_def Let_def cong: if_cong)
  show ?thesis
  proof (rule that [of b' ?q])
    show "\<not> bu_refused b \<Longrightarrow>
       honoured \<lparr>sw_start_ns = st, sw_end_ns = now, sw_mode = GPU_SAMPLING_MODE_KERNEL_SERIALIZED, sw_next_start_delta_ms = ?q\<rparr> (bu_next_start_ns b')"
      by (rule quiet_promise [of ?s4 b' _ now]) (simp_all add: b'_def)
  qed (simp_all add: eq emit_window_windows [OF assms(1)] w, simp_all add: b'_def)
qed

lemma poll_open_cases:
  assumes "poll_open now g b = (act, b')"
  shows "act = kStart \<and> bu_sampling b' \<and> bu_started b' \<and> bu_burst_start_ns b' = now \<and> \<not> bu_sampling b \<and> \<not> bu_refused b \<and>
      (bu_started b \<longrightarrow> bu_next_start_ns b \<le> now) \<or>
    act = kNone \<and> bu_sampling b' = bu_sampling b \<and> bu_started b' = bu_started b \<and> bu_burst_start_ns b' = bu_burst_start_ns b \<and>
      bu_next_start_ns b' = bu_next_start_ns b \<and> (bu_refused b \<longrightarrow> bu_refused b')"
  using assms by (auto simp: poll_open_def note_graphs_locked_def open_locked_def Let_def split: if_splits)

lemma poll_close_cases:
  assumes "poll_close rnd now g b = (act, b')"
  shows "act = kStop \<and> bu_sampling b \<and> \<not> bu_sampling b' \<and> bu_started b' = bu_started b \<or>
    act = kNone \<and> bu_sampling b' = bu_sampling b \<and> bu_started b' = bu_started b \<and> bu_burst_start_ns b' = bu_burst_start_ns b \<and>
      bu_next_start_ns b' = bu_next_start_ns b \<and> (bu_refused b \<longrightarrow> bu_refused b')"
  using assms by (auto simp: poll_close_def note_graphs_locked_def close_locked_def stop_locked_def Let_def split: if_splits)

lemma shutdown_cases:
  assumes "shutdown rnd now b = (act, b')"
  shows "bu_refused b' \<and> \<not> bu_sampling b' \<and> bu_started b' = bu_started b \<and> (act = kStop \<longleftrightarrow> bu_sampling b)"
  using assms by (auto simp: shutdown_def stop_locked_def Let_def split: if_splits)

lemma note_graph_refusal_windows [simp]:
  "windows (note_graph_refusal w g b s) = windows s" "ba_burst (note_graph_refusal w g b s) = ba_burst s"
  by (simp_all add: note_graph_refusal_def)

lemma win_inv_cong: "windows t = windows s \<Longrightarrow> ba_burst t = ba_burst s \<Longrightarrow> win_inv t \<longleftrightarrow> win_inv s"
  by (simp add: win_inv_def)

lemma win_inv_note [simp]: "win_inv (note_graph_refusal w g b s) \<longleftrightarrow> win_inv s"
  by (rule win_inv_cong [OF note_graph_refusal_windows])

lemma win_inv_open:
  fixes s :: "'a burst_state_scheme"
  assumes "\<And>n. e_sem ev P_window n" and "win_inv s"
  shows "win_inv (burst_open_at_launch ev tid now s)"
proof (cases "\<exists>b. ba_burst s = Some b \<and> pa_tier_a s \<and> pa_n s g_ctx_enabled \<noteq> 0")
  case True
  then obtain b where b: "ba_burst s = Some b" "pa_tier_a s" "pa_n s g_ctx_enabled \<noteq> 0" by blast
  let ?s = "bump g_burst_enter_polls s"
  let ?w = "\<lparr>sw_start_ns = now, sw_end_ns = 0, sw_mode = GPU_SAMPLING_MODE_KERNEL_SERIALIZED, sw_next_start_delta_ms = 0\<rparr>"
  obtain act b' where p: "poll_open now (graphs_seen ?s) b = (act, b')" by fastforce
  from assms(2) b obtain bs where bs: "window_history bs (windows s)" "in_step bs b" by (auto simp: win_inv_def)
  define t where "t = burst_open_at_launch ev tid now s"
  have t: "windows t = windows (if act = kStart then burst_open ev tid now (?s\<lparr>ba_burst := Some b'\<rparr>) else s)" "ba_burst t = Some b'"
    using b p by (simp_all add: t_def burst_open_at_launch_def burst_open_def emit_window_windows [OF assms(1)] Let_def)
  from poll_open_cases [OF p] have "win_inv t"
  proof (elim disjE conjE)
    assume k: "act = kStart" "bu_sampling b'" "bu_started b'" "bu_burst_start_ns b' = now" "\<not> bu_sampling b" "\<not> bu_refused b"
      "bu_started b \<longrightarrow> bu_next_start_ns b \<le> now"
    have "windows t = windows s @ [?w]" using t k(1) by (simp add: burst_open_def emit_window_windows [OF assms(1)] Let_def)
    moreover have "window_history (bs @ [(?w, None)]) (windows s @ [?w])"
      using bs k by (intro window_history_open) (auto simp: in_step_def honoured_def word_le_nat_alt)
    moreover have "in_step (bs @ [(?w, None)]) b'" using k by (simp add: in_step_def)
    ultimately show ?thesis using t(2) by (auto simp: win_inv_def)
  next
    assume "act = kNone" "bu_sampling b' = bu_sampling b" "bu_started b' = bu_started b" "bu_burst_start_ns b' = bu_burst_start_ns b"
      "bu_next_start_ns b' = bu_next_start_ns b" "bu_refused b \<longrightarrow> bu_refused b'"
    then show ?thesis using t bs by (auto simp: win_inv_def in_step_def)
  qed
  then show ?thesis by (simp add: t_def)
next
  case False
  then have "burst_open_at_launch ev tid now s = s" by (auto simp: burst_open_at_launch_def split: option.split)
  then show ?thesis using assms(2) by simp
qed

text \<open>A burst that the controller has just stopped is closed on the wire.\<close>

lemma win_inv_stopped:
  fixes s :: "'a burst_state_scheme"
  assumes "\<And>n. e_sem ev P_window n" and "window_history bs (windows s)" and "in_step bs b" and "bu_sampling b"
    and "ba_burst s = Some b'" and "\<not> bu_sampling b'" and "bu_started b' = bu_started b"
  shows "win_inv (burst_close ev tid now (bu_burst_start_ns b) s)"
proof -
  from burst_close_windows [OF assms(1,5)] obtain q b2
    where c: "ba_burst (burst_close ev tid now (bu_burst_start_ns b) s) = Some b2" "windows (burst_close ev tid now (bu_burst_start_ns b) s) =
       windows s @ [\<lparr>sw_start_ns = bu_burst_start_ns b, sw_end_ns = now, sw_mode = GPU_SAMPLING_MODE_KERNEL_SERIALIZED, sw_next_start_delta_ms = q\<rparr>]"
      "bu_refused b2 = bu_refused b'" "bu_sampling b2 = bu_sampling b'" "bu_started b2 = bu_started b'"
      "\<not> bu_refused b' \<Longrightarrow> honoured \<lparr>sw_start_ns = bu_burst_start_ns b, sw_end_ns = now, sw_mode = GPU_SAMPLING_MODE_KERNEL_SERIALIZED,
         sw_next_start_delta_ms = q\<rparr> (bu_next_start_ns b2)"
    by metis
  let ?k = "\<lparr>sw_start_ns = bu_burst_start_ns b, sw_end_ns = now, sw_mode = GPU_SAMPLING_MODE_KERNEL_SERIALIZED, sw_next_start_delta_ms = q\<rparr>"
  have "window_history (butlast bs @ [(fst (last bs), Some ?k)]) (windows s @ [?k])"
    using assms(2-4) by (intro window_history_close) (auto simp: in_step_def)
  moreover have "in_step (butlast bs @ [(fst (last bs), Some ?k)]) b2"
    using c assms(3,4,6,7) by (auto simp: in_step_def)
  ultimately show ?thesis using c(1,2) by (auto simp: win_inv_def)
qed

lemma win_inv_close:
  fixes s :: "'a burst_state_scheme"
  assumes "\<And>n. e_sem ev P_window n" and "win_inv s"
  shows "win_inv (burst_close_at_launch ev tid now s)"
proof (cases "pa_tier_a s \<and> ba_burst s \<noteq> None")
  case True
  then obtain b where b: "ba_burst s = Some b" "pa_tier_a s" by blast
  let ?s = "bump g_burst_exit_polls s"
  obtain act b' where p: "poll_close (e_round ev) now (graphs_seen ?s) b = (act, b')" by fastforce
  let ?t = "?s\<lparr>ba_burst := Some b'\<rparr>"
  let ?u = "if act = kStop then burst_close ev tid now (bu_burst_start_ns b) ?t else ?t"
  from assms(2) b obtain bs where bs: "window_history bs (windows s)" "in_step bs b" by (auto simp: win_inv_def)
  have e: "burst_close_at_launch ev tid now s = (case ba_burst ?u of None \<Rightarrow> ?u | Some c \<Rightarrow> note_graph_refusal (bu_refused b) (graphs_seen ?s) c ?u)"
    using b p by (simp add: burst_close_at_launch_def burst_exit_read_def burst_exit_poll_def burst_exit_act_def Let_def)
  have "win_inv ?u"
  proof (cases "act = kStop")
    case stop: True
    then have "bu_sampling b" "\<not> bu_sampling b'" "bu_started b' = bu_started b" using poll_close_cases [OF p] by auto
    then show ?thesis using stop bs win_inv_stopped [OF assms(1), of bs ?t b b'] by simp
  next
    case False
    then show ?thesis using poll_close_cases [OF p] bs by (auto simp: win_inv_def in_step_def)
  qed
  then show ?thesis unfolding e by (cases "ba_burst ?u") (simp_all only: option.case win_inv_note)
next
  case False
  then show ?thesis using assms(2) by (auto simp: burst_close_at_launch_def)
qed

lemma win_inv_shutdown:
  fixes s :: "'a burst_state_scheme"
  assumes "\<And>n. e_sem ev P_window n" and "win_inv s"
  shows "win_inv (burst_shutdown ev tid s)"
proof (cases "ba_burst s")
  case (Some b)
  let ?now = "fst (mono_ns ev s)" and ?s = "snd (mono_ns ev s)"
  have f: "windows ?s = windows s" by (simp add: mono_ns_def windows_def)
  obtain act b' where p: "shutdown (e_round ev) ?now b = (act, b')" by fastforce
  from assms(2) Some obtain bs where bs: "window_history bs (windows s)" "in_step bs b" by (auto simp: win_inv_def)
  let ?t = "?s\<lparr>ba_burst := Some b'\<rparr>"
  note c = shutdown_cases [OF p]
  have "win_inv (if act = kStop then burst_close ev tid ?now (bu_burst_start_ns b) ?t else ?t)"
  proof (cases "act = kStop")
    case True
    then show ?thesis using c bs win_inv_stopped [OF assms(1), of bs ?t b b'] by (simp add: f)
  next
    case False
    then show ?thesis using c bs by (auto simp: win_inv_def in_step_def f)
  qed
  then show ?thesis using assms(2) Some p by (auto simp: burst_shutdown_def case_prod_unfold Let_def)
qed (use assms(2) in \<open>simp add: burst_shutdown_def\<close>)

lemma win_inv_finalize:
  fixes s :: "'a burst_state_scheme"
  assumes "win_inv s"
  shows "win_inv (on_finalize ev free s)"
proof -
  let ?s = "bump g_finalize_seen (s\<lparr>ba_finalized := True\<rparr>)"
  let ?t = "case ba_burst ?s of None \<Rightarrow> ?s
    | Some b \<Rightarrow> let (now, s) = mono_ns ev ?s in s\<lparr>ba_burst := Some (snd (shutdown (e_round ev) now b))\<rparr>"
  have s: "win_inv ?s" using assms by (simp add: win_inv_def windows_def)
  have "win_inv ?t"
  proof (cases "ba_burst ?s")
    case (Some b)
    then show ?thesis
      using s shutdown_cases [of "e_round ev" "e_clock ev (pa_reads ?s)" b, OF prod.collapse [symmetric]]
      by (auto simp: mono_ns_def win_inv_def in_step_def windows_def)
  qed (use s in simp)
  moreover have "win_inv (flush_pcb ev (all_ctxs (pc_teardown_ctx ev) ?t)) \<longleftrightarrow> win_inv ?t"
    using kept.teardown_all [where ev = ev and s = ?t]
    by (intro win_inv_cong more_burst) blast+
  moreover have "win_inv (bump g_finalize_contended ?t) \<longleftrightarrow> win_inv ?t" by (rule win_inv_cong) simp_all
  ultimately show ?thesis using assms s by (simp add: on_finalize_def Let_def cong: if_cong)
qed

lemma win_inv_resource: "win_inv (on_resource ev cb rd s) \<longleftrightarrow> win_inv s"
  using kept.resource [where ev = ev and s = s and cb = cb and rd = rd] by (intro win_inv_cong more_burst) blast+

lemma win_inv_drain: "win_inv (pc_drain_all ev r s) \<longleftrightarrow> win_inv s"
  by (rule win_inv_cong) simp_all

lemma win_inv_config: "win_inv (pc_emit_config_once ev s) \<longleftrightarrow> win_inv s"
  by (rule win_inv_cong)
    (simp_all add: pc_emit_config_once_def emit_if_enabled_def probe_enabled_def probe_emit_def windows_def add_to_def Let_def)

section \<open>The protocol\<close>

lemma pc_inv_burst [simp]:
  "pc_inv ev (s\<lparr>ba_burst := x\<rparr>) \<longleftrightarrow> pc_inv ev s" "pc_inv ev (s\<lparr>ba_finalized := f\<rparr>) \<longleftrightarrow> pc_inv ev s"
  "pc_inv ev (s\<lparr>ba_sync := q, ba_sync_tried := q'\<rparr>) \<longleftrightarrow> pc_inv ev s" "pc_inv ev (t\<lparr>pa_schedule := d\<rparr>) \<longleftrightarrow> pc_inv ev t"
  by (rule pc_inv_cong; simp)+

lemma pc_inv_call:
  assumes "pc_inv ev s" and "on_ctx x c" and "x \<in># owed_ctxs ev (pa_calls s)"
  shows "pc_inv ev (snd (cupti ev c s))"
  using assms by (simp add: pc_inv_def pc_ok_def cupti_def failed_disables_on_ctx)

lemma owed_other:
  "owed_ctxs ev (h @ [CuCtxSynchronize]) = owed_ctxs ev h" "owed_ctxs ev (h @ [GetTimestamp]) = owed_ctxs ev h"
  "owed_ctxs ev (h @ [ActivityFlushAll f]) = owed_ctxs ev h"
  by (simp_all add: owed_ctxs_def)

lemma pc_inv_other:
  "pc_inv ev s \<Longrightarrow> c \<in> {CuCtxSynchronize, GetTimestamp, ActivityFlushAll f} \<Longrightarrow> pc_inv ev (snd (cupti ev c s))"
  by (auto simp: pc_inv_def pc_ok_def cupti_def owed_other)

lemma pc_inv_window [simp]: "pc_inv ev (emit_window ev a b d s) \<longleftrightarrow> pc_inv ev s"
  by (rule pc_inv_cong) (simp_all add: emit_window_def probe_enabled_def probe_emit_def Let_def)

lemma pc_inv_sync: "pc_inv ev s \<Longrightarrow> pc_inv ev (pc_sync_before_start ev s)"
  by (auto simp: pc_sync_before_start_def pc_resolve_ctx_sync_def Let_def case_prod_unfold intro: pc_inv_other)

lemma pc_inv_enabled: "pc_inv ev s \<Longrightarrow> c \<in> set (pa_ctxs s) \<Longrightarrow> px_enabled c \<Longrightarrow> px_ctx c \<in># owed_ctxs ev (pa_calls s)"
  by (auto simp: pc_inv_def pc_ok_def enabled_ctxs_def)

lemma pc_inv_ctx:
  assumes "pc_inv ev s" and "c \<in> set (pa_ctxs s)"
  shows "pc_inv ev (pc_start_ctx ev c s) \<and> pa_ctxs (pc_start_ctx ev c s) = pa_ctxs s"
    "pc_inv ev (pc_stop_ctx ev c s) \<and> pa_ctxs (pc_stop_ctx ev c s) = pa_ctxs s"
  using assms pc_inv_enabled [OF assms] pc_inv_call [OF assms(1), of "px_ctx c"]
  by (auto simp: pc_start_ctx_def pc_stop_ctx_def Let_def case_prod_unfold cupti_def)

lemma pc_inv_ctxs:
  assumes "pc_inv ev s"
  shows "pc_inv ev (pc_start_ctxs_locked ev tid s)" "pc_inv ev (pc_stop_ctxs_locked ev tid s)"
proof -
  have "pc_inv ev t \<Longrightarrow> set cs \<subseteq> set (pa_ctxs t) \<Longrightarrow> pc_inv ev (fold (pc_start_ctx ev) cs t) \<and> pc_inv ev (fold (pc_stop_ctx ev) cs t)"
    for cs and t :: "'a burst_state_scheme"
    by (rule conjI; induction cs arbitrary: t) (simp_all add: pc_inv_ctx)
  then show "pc_inv ev (pc_start_ctxs_locked ev tid s)" "pc_inv ev (pc_stop_ctxs_locked ev tid s)"
    using assms by (simp_all add: pc_start_ctxs_locked_def pc_stop_ctxs_locked_def note_burst_thread_def Let_def)
qed

lemma pc_inv_set_n:
  "c \<notin> {g_ctx_seen, g_ctx_enabled, g_ctx_enable_failed, g_ctx_disable_failed} \<Longrightarrow> pc_inv ev (s\<lparr>pa_n := (pa_n s)(c := d)\<rparr>) \<longleftrightarrow> pc_inv ev s"
  by (rule pc_inv_cong) auto

lemma pc_inv_note [simp]: "pc_inv ev (note_graph_refusal w g b s) \<longleftrightarrow> pc_inv ev s"
  by (simp add: note_graph_refusal_def)

lemma pc_inv_burst_close: "pc_inv ev s \<Longrightarrow> pc_inv ev (burst_close ev tid now st s)"
  by (auto simp: burst_close_def Let_def drain_all_inv pc_inv_ctxs split: option.split)

lemma pc_inv_burst_open: "pc_inv ev s \<Longrightarrow> pc_inv ev (burst_open_at_launch ev tid now s)"
  by (auto simp: burst_open_at_launch_def burst_open_def Let_def case_prod_unfold pc_inv_ctxs pc_inv_sync pc_inv_set_n split: option.split)

lemma pc_inv_close_at_launch: "pc_inv ev s \<Longrightarrow> pc_inv ev (burst_close_at_launch ev tid now s)"
  by (auto simp: burst_close_at_launch_def burst_exit_poll_def burst_exit_act_def Let_def case_prod_unfold pc_inv_burst_close split: option.split)

lemma pc_inv_mono [simp]: "pc_inv ev (snd (mono_ns ev s)) \<longleftrightarrow> pc_inv ev s"
  by (rule pc_inv_cong) (simp_all add: mono_ns_def)

lemma pc_inv_shutdown: "pc_inv ev s \<Longrightarrow> pc_inv ev (burst_shutdown ev tid s)"
  by (auto simp: burst_shutdown_def Let_def case_prod_unfold pc_inv_burst_close split: option.split)

lemma pc_inv_config [simp]: "pc_inv ev (pc_emit_config_once ev s) \<longleftrightarrow> pc_inv ev s"
  by (rule pc_inv_cong) (simp_all add: pc_emit_config_once_def emit_if_enabled_def probe_enabled_def probe_emit_def Let_def)

lemma flush_pcb_calls [simp]: "pa_calls (flush_pcb ev s) = pa_calls s"
  by (simp add: flush_pcb_def)

lemma pc_inv_finalize:
  fixes s :: "'a burst_state_scheme"
  assumes "pc_inv ev s"
  shows "pc_inv ev (on_finalize ev free s) \<and>
    (pa_pc_enabled s \<and> free \<and> \<not> ba_finalized s \<longrightarrow> owed_ctxs ev (pa_calls (on_finalize ev free s)) = {#} \<and> bt_n (pa_pcb (on_finalize ev free s)) = 0)"
proof -
  let ?s = "bump g_finalize_seen (s\<lparr>ba_finalized := True\<rparr>)"
  define t where "t = (case ba_burst ?s of None \<Rightarrow> ?s
    | Some b \<Rightarrow> let (now, s) = mono_ns ev ?s in s\<lparr>ba_burst := Some (snd (shutdown (e_round ev) now b))\<rparr>)"
  have e: "on_finalize ev free s = (if ba_finalized s then s else if \<not> pa_pc_enabled s then ?s
      else if \<not> free then bump g_finalize_contended t else flush_pcb ev (all_ctxs (pc_teardown_ctx ev) t))"
    by (simp add: on_finalize_def t_def Let_def)
  have "pc_inv ev t" using assms by (auto simp: t_def case_prod_unfold Let_def split: option.split)
  then have "pc_inv ev (flush_pcb ev (all_ctxs (pc_teardown_ctx ev) t)) \<and>
      owed_ctxs ev (pa_calls (flush_pcb ev (all_ctxs (pc_teardown_ctx ev) t))) = {#} \<and> pc_inv ev (bump g_finalize_contended t)"
    using teardown_all_inv [of ev t] by simp
  moreover have "bt_n (pa_pcb (flush_pcb ev u)) = 0" for u :: "'a burst_state_scheme"
    by (simp add: flush_pcb_def batch_flush_def flush_locked_def Let_def)
  ultimately show ?thesis using assms unfolding e by simp
qed

section \<open>Handlers that interleave\<close>

definition new_burst_state :: "burst_controller option \<Rightarrow> pc_state \<Rightarrow> burst_state" where
  "new_burst_state b s = pc_state.extend s (burst_state.fields b 0 False False 0 0 False)"

lemma two_windows_history:
  assumes "window_history bs [v, w]" and "sw_start_ns w \<noteq> sw_start_ns v"
  shows False
  using assms
proof (cases bs)
  case (Cons b cs)
  then show ?thesis
    using assms by (cases b; cases "snd b"; cases cs) (auto simp: window_history_def successively_Cons split: option.splits)
qed (simp add: window_history_def)

text \<open>
  C20: a late launch exit closes a burst it does not know. A thread that leaves a launch reads the
  clock and the start of the open burst before it polls the controller. When another thread opens
  the first burst in between, at a later time, the age of the burst wraps around: the poll stops the
  burst at once, and the closed window carries the start that was read, not that of the burst. The
  burst's own open window stays open on the wire.
\<close>

theorem late_exit_closes_new_burst:
  fixes s :: "'a burst_state_scheme"
  assumes "\<And>n. e_sem ev P_window n" and "windows s = []" and "ba_burst s = Some b" and "pa_tier_a s" and "pa_n s g_ctx_enabled \<noteq> 0"
    and "pa_n s g_exec_from_graph = 0" and "\<not> bu_sampling b" and "\<not> bu_refused b" and "\<not> bu_started b"
    and "bu_burst_start_ns b = 0" and "tA < tB" and "bc_burst_ns (bu_cfg b) \<le> tA - tB"
    and "burst_exit_poll ev tA (fst (burst_exit_read s)) (burst_open_at_launch ev k tB s) = (act, s2)"
  shows "act = kStop \<and> (\<exists>q. windows (burst_exit_act ev j tA (burst_exit_read s) act s2) =
      [\<lparr>sw_start_ns = tB, sw_end_ns = 0, sw_mode = GPU_SAMPLING_MODE_KERNEL_SERIALIZED, sw_next_start_delta_ms = 0\<rparr>,
       \<lparr>sw_start_ns = 0, sw_end_ns = tA, sw_mode = GPU_SAMPLING_MODE_KERNEL_SERIALIZED, sw_next_start_delta_ms = q\<rparr>]) \<and>
    \<not> (\<exists>bs. window_history bs (windows (burst_exit_act ev j tA (burst_exit_read s) act s2)))"
proof -
  let ?w = "\<lparr>sw_start_ns = tB, sw_end_ns = 0, sw_mode = GPU_SAMPLING_MODE_KERNEL_SERIALIZED, sw_next_start_delta_ms = 0\<rparr>"
  let ?s1 = "burst_open_at_launch ev k tB s"
  obtain b1 where p: "poll_open tB False b = (kStart, b1)" "bu_sampling b1" "\<not> bu_refused b1" "bu_burst_start_ns b1 = tB" "bu_cfg b1 = bu_cfg b"
    using assms(7-9) by (simp add: poll_open_def note_graphs_locked_def open_locked_def Let_def)
  have g: "\<not> graphs_seen s" "\<not> graphs_seen (bump g_burst_enter_polls s)" using assms(6) by (simp_all add: graphs_seen_def)
  have s1: "ba_burst ?s1 = Some b1" "windows ?s1 = [?w]"
    using assms(2-5) p(1) g by (simp_all add: burst_open_at_launch_def burst_open_def emit_window_windows [OF assms(1)] note_graph_refusal_def Let_def)
  obtain b2 where c: "poll_close (e_round ev) tA False b1 = (kStop, b2)"
    using p(2-5) assms(12) by (simp add: poll_close_def note_graphs_locked_def close_locked_def stop_locked_def Let_def not_less)
  have rd: "burst_exit_read s = (False, False, 0)" using assms(3,8,10) g(1) by (simp add: burst_exit_read_def)
  have s2: "act = kStop" "s2 = ?s1\<lparr>ba_burst := Some b2\<rparr>" using assms(13) s1 c rd by (simp_all add: burst_exit_poll_def)
  obtain q where q: "windows (burst_close ev j tA 0 s2) = windows s2 @ [\<lparr>sw_start_ns = 0, sw_end_ns = tA, sw_mode = GPU_SAMPLING_MODE_KERNEL_SERIALIZED,
      sw_next_start_delta_ms = q\<rparr>]"
    using burst_close_windows [of ev s2 b2 j tA 0] assms(1) s2 by (metis burst_state.select_convs(1) burst_state.update_convs(1) burst_state.surjective)
  have w: "windows (burst_exit_act ev j tA (burst_exit_read s) act s2) = [?w, \<lparr>sw_start_ns = 0, sw_end_ns = tA,
      sw_mode = GPU_SAMPLING_MODE_KERNEL_SERIALIZED, sw_next_start_delta_ms = q\<rparr>]"
    using q s1 s2 by (simp add: burst_exit_act_def rd Let_def split: option.split)
  moreover have "tB \<noteq> 0" using assms(11) by auto
  ultimately show ?thesis using s2(1) two_windows_history by fastforce
qed

section \<open>Concrete launches\<close>

definition demo_tier_a :: "burst_config \<Rightarrow> burst_state" where
  "demo_tier_a cfg = on_resource demo_env CONTEXT_CREATED (Some 5) (new_burst_state (Some (new_burst_controller (\<lambda>x. x) cfg))
     (new_pc_state True True 12 2 (replicate 4 \<lparr>ps_cubin_crc = 0, ps_correlation = 0, ps_pc_offset = 0, ps_function_index = 0, ps_stall_index = 0, ps_count = 0\<rparr>) 100))"

lemma demo_tier_a_eval:
  "windows (demo_tier_a cfg) = []" "ba_burst (demo_tier_a cfg) = Some (new_burst_controller (\<lambda>x. x) cfg)" "pa_tier_a (demo_tier_a cfg)"
  "pa_n (demo_tier_a cfg) c = (if c = g_ctx_seen \<or> c = g_ctx_enabled then 1 else 0)"
  "pa_ctxs (demo_tier_a cfg) = [\<lparr>px_ctx = 5, px_pcs = [zero_pc 2, zero_pc 2], px_last_dropped = 0, px_last_non_user = 0, px_enabled = True\<rparr>]"
  by (simp_all add: demo_tier_a_def demo_env_def pc_eval new_burst_state_def pc_state.defs burst_state.defs windows_def Let_def) (simp add: replicate_2)

lemma demo_tier_a_room: "room (pa_pcb (demo_tier_a cfg))"
  by (simp add: demo_tier_a_def demo_env_def pc_eval new_burst_state_def pc_state.defs burst_state.defs room_def new_batch_def Let_def)

lemma demo_tier_a_sizes: "pa_collect_num_pcs (demo_tier_a cfg) = 2" "pa_num_stall_reasons (demo_tier_a cfg) = 2"
  by (simp_all add: demo_tier_a_def demo_env_def pc_eval new_burst_state_def pc_state.defs burst_state.defs Let_def)

lemma demo_env_eval: "e_sem demo_env p n" "e_batch_sem demo_env p n" "e_round demo_env = (\<lambda>x. x)"
  by (simp_all add: demo_env_def)

theorem late_exit_closes_new_burst_witness:
  "\<exists>s :: burst_state. ba_burst s \<noteq> None \<and>
     \<not> (\<exists>bs. window_history bs (windows (burst_exit_act demo_env 1 100 (burst_exit_read s) kStop
       (snd (burst_exit_poll demo_env 100 (fst (burst_exit_read s)) (burst_open_at_launch demo_env 2 200 s))))))"
proof -
  let ?s = "demo_tier_a demo_burst_cfg"
  obtain act s2 where p: "burst_exit_poll demo_env 100 (fst (burst_exit_read ?s)) (burst_open_at_launch demo_env 2 200 ?s) = (act, s2)" by fastforce
  have "act = kStop \<and> \<not> (\<exists>bs. window_history bs (windows (burst_exit_act demo_env 1 100 (burst_exit_read ?s) act s2)))"
  proof -
    have "bc_burst_ns (bu_cfg (new_burst_controller (\<lambda>x. x) demo_burst_cfg)) \<le> 100 - 200" "(100 :: u64) < 200"
      by (simp_all add: new_burst_controller_def demo_burst_cfg_def)
    from late_exit_closes_new_burst [OF demo_env_eval(1) demo_tier_a_eval(1-3) _ _ _ _ _ _ this(2,1) p, of 1] show ?thesis
      by (simp add: demo_tier_a_eval new_burst_controller_def) blast
  qed
  then have "\<not> (\<exists>bs. window_history bs (windows (burst_exit_act demo_env 1 100 (burst_exit_read ?s) kStop s2)))" by (elim conjE) simp
  then show ?thesis using p by (intro exI [of _ ?s]) (simp add: demo_tier_a_eval)
qed

section \<open>The promise of quiet\<close>

definition eager_cfg :: burst_config where
  "eager_cfg = \<lparr>bc_burst_ns = 50000000, bc_target_rate = Fin 1, bc_max_duty = Fin 1, bc_max_gap_ns = 10000000000, bc_gain = Fin (1 / 2)\<rparr>"

lemma eager_min_gap: "burst_min_gap_for_ns (\<lambda>x. x) eager_cfg d = 0"
proof -
  note f = fin_exact [OF rounding_exact]
  have 1: "d_div (\<lambda>x. x) (Fin 1) (Fin 1) = Fin 1" by (simp add: d_div_def is_fin_def f)
  have 2: "d_sub (\<lambda>x. x) (Fin 1) (Fin 1) = Fin 0" by (simp add: d_sub_def d_minus_def d_add_def is_fin_def f)
  have 3: "d_mul (\<lambda>x. x) (of_u64 (\<lambda>x. x) d) (Fin 0) = Fin 0" by (simp add: d_mul_def is_fin_def of_u64_def f)
  show ?thesis unfolding burst_min_gap_for_ns_def by (simp add: eager_cfg_def d_gt_def Let_def 1 2 3)
qed

lemma eager_next_gap: "burst_next_gap_ns (\<lambda>x. x) eager_cfg 0 1 50000000 = 475000000"
proof -
  note f = fin_exact [OF rounding_exact]
  have lo: "burst_min_gap_ns (\<lambda>x. x) eager_cfg = 0" by (simp add: burst_min_gap_ns_def eager_min_gap)
  have u: "of_u64 (\<lambda>x. x) 1 = Fin 1" "of_u64 (\<lambda>x. x) 50000000 = Fin 50000000" "of_u64 (\<lambda>x. x) 0 = Fin 0" "of_u64 (\<lambda>x. x) 10000000000 = Fin 10000000000"
    by (simp_all add: of_u64_def)
  have "d_mul (\<lambda>x. x) (Fin 1) (Fin 1000000000) = Fin 1000000000" by (simp add: d_mul_def is_fin_def f)
  moreover have "d_div (\<lambda>x. x) (Fin 1000000000) (Fin 50000000) = Fin 20" by (simp add: d_div_def is_fin_def f)
  moreover have "d_div (\<lambda>x. x) (Fin 20) (Fin 1) = Fin 20" by (simp add: d_div_def is_fin_def f)
  moreover have "d_mul (\<lambda>x. x) (Fin 50000000) (Fin 20) = Fin 1000000000" by (simp add: d_mul_def is_fin_def f)
  moreover have "d_sub (\<lambda>x. x) (Fin 1000000000) (Fin 50000000) = Fin 950000000" by (simp add: d_sub_def d_minus_def d_add_def is_fin_def f)
  moreover have "d_sub (\<lambda>x. x) (Fin 950000000) (Fin 0) = Fin 950000000" by (simp add: d_sub_def d_minus_def d_add_def is_fin_def f)
  moreover have "d_mul (\<lambda>x. x) (Fin (1 / 2)) (Fin 950000000) = Fin 475000000" by (simp add: d_mul_def is_fin_def f)
  moreover have "d_add (\<lambda>x. x) (Fin 0) (Fin 475000000) = Fin 475000000" by (simp add: d_add_def is_fin_def f)
  ultimately show ?thesis
    unfolding burst_next_gap_ns_def lo by (simp add: eager_cfg_def u d_gt_def d_ge_def to_u64_def Let_def)
qed

lemma demo_drain:
  fixes s :: "'a burst_state_scheme"
  assumes "pa_ctxs s = [c]" and "px_enabled c" and "px_pcs c = [zero_pc 2, zero_pc 2]" and "pa_collect_num_pcs s = 2" and "pa_num_stall_reasons s = 2"
    and "room (pa_pcb s)"
  shows "pa_n (pc_drain_all demo_env kRangeEnd s) g_pc_records = pa_n s g_pc_records + 1"
proof -
  let ?u = "snd (cupti demo_env (PCSamplingGetData (px_ctx c)) (bump g_pc_getdata_calls s))"
  let ?d = "v_data demo_env (pa_calls ?u)"
  obtain c' t where t: "pc_take_data demo_env ?d c ?u = (c', t)" by fastforce
  have "ctx_wf (pa_collect_num_pcs ?u) (pa_num_stall_reasons ?u) c"
    using assms by (simp add: ctx_wf_def zero_pc_def cupti_def)
  note take = pairs_added_take [OF t this]
  define ps where "ps = pc_pairs 2 (take (unat (sd_totalNumPcs ?d)) (write_pcs (px_pcs c) (sd_pcs ?d)))"
  have p: "pairs_added demo_env ps ?u t" using take assms(5) by (simp add: ps_def cupti_def)
  have n: "length (filter counted_pair ps) = 1"
    by (simp add: ps_def assms(3) demo_env_def cupti_def pc_pairs_def write_pcs_def overlay_def zero_pc_def counted_pair_def replicate_2)
  have r: "pc_drain_round demo_env c s = (False, c', t)"
    using t by (simp add: pc_drain_round_def Let_def case_prod_unfold) (simp add: cupti_def demo_env_def)
  have "pc_drain_ctx_locked demo_env c s = (c', t)"
    using assms(2) r pc_drain_rounds.simps(2) [of demo_env 63 c s] by (simp add: pc_drain_ctx_locked_def)
  then have "pa_n (pc_drain_all demo_env kRangeEnd s) g_pc_records = pa_n t g_pc_records"
    by (simp add: pc_drain_all_def all_ctxs_def assms(1) flush_pcb_def)
  moreover have "pa_n t g_pc_records + pa_n t g_pc_unattached = pa_n s g_pc_records + pa_n s g_pc_unattached + 1"
    using p n by (simp add: pairs_added_def cupti_def)
  moreover have "pa_n t g_pc_unattached = pa_n s g_pc_unattached"
    using p assms(6) by (simp add: pairs_added_def cupti_def demo_env_eval)
  ultimately show ?thesis by (simp add: algebra_simps)
qed

lemma eager_closed:
  assumes "bu_cfg b = eager_cfg" and "bu_have_open_yield b" and "bu_pairs_at_last_close b = 0" and "bu_last_burst_dur b = 50000000" and "bu_gap_ns b = 0"
  shows "bu_next_start_ns (closed_burst (\<lambda>x. x) 1 b) = bu_last_burst_end_ns b + 475000000"
  using assms by (simp add: closed_burst_def gap_for_duration_locked_def eager_next_gap eager_min_gap Let_def)

definition same_setup :: "'a burst_state_scheme \<Rightarrow> 'a burst_state_scheme \<Rightarrow> bool" where
  "same_setup s t \<longleftrightarrow> pa_ctxs t = pa_ctxs s \<and> pa_tier_a t = pa_tier_a s \<and> pa_collect_num_pcs t = pa_collect_num_pcs s \<and>
     pa_num_stall_reasons t = pa_num_stall_reasons s \<and> pa_pcb t = pa_pcb s \<and> (\<forall>c \<in> {g_ctx_enabled, g_exec_from_graph, g_pc_records}. pa_n t c = pa_n s c)"

lemma same_setup_ctxs: "same_setup s (pc_start_ctxs_locked ev tid s)" "same_setup s (pc_stop_ctxs_locked ev tid s)"
proof -
  have "same_setup t (fold (pc_start_ctx ev) cs t) \<and> same_setup t (fold (pc_stop_ctx ev) cs t)" for cs and t :: "'a burst_state_scheme"
    by (rule conjI; induction cs arbitrary: t) (simp_all add: same_setup_def pc_start_ctx_def pc_stop_ctx_def cupti_def)
  then show "same_setup s (pc_start_ctxs_locked ev tid s)" "same_setup s (pc_stop_ctxs_locked ev tid s)"
    by (simp_all add: pc_start_ctxs_locked_def pc_stop_ctxs_locked_def note_burst_thread_def Let_def) (simp_all add: same_setup_def)
qed

lemma same_setup_sync: "same_setup s (pc_sync_before_start ev s)"
  by (simp add: same_setup_def pc_sync_before_start_def pc_resolve_ctx_sync_def cupti_def Let_def)

lemma opened:
  fixes s :: "'a burst_state_scheme"
  assumes "ba_burst s = Some b" and "pa_tier_a s" and "pa_n s g_ctx_enabled \<noteq> 0" and "pa_n s g_exec_from_graph = 0" and "poll_open now False b = (kStart, b')"
    and "\<And>n. e_sem ev P_window n"
  shows "same_setup s (burst_open_at_launch ev tid now s) \<and> ba_burst (burst_open_at_launch ev tid now s) = Some b' \<and>
    windows (burst_open_at_launch ev tid now s) =
      windows s @ [\<lparr>sw_start_ns = now, sw_end_ns = 0, sw_mode = GPU_SAMPLING_MODE_KERNEL_SERIALIZED, sw_next_start_delta_ms = 0\<rparr>]"
proof -
  let ?t = "(bump g_burst_enter_polls s)\<lparr>ba_burst := Some b'\<rparr>"
  have g: "\<not> graphs_seen (bump g_burst_enter_polls s)" using assms(4) by (simp add: graphs_seen_def)
  have "burst_open_at_launch ev tid now s = burst_open ev tid now ?t"
    using assms(1-5) g by (simp add: burst_open_at_launch_def note_graph_refusal_def Let_def)
  moreover have "same_setup s ?t" by (simp add: same_setup_def)
  moreover have "same_setup ?t (pc_start_ctxs_locked ev tid (pc_sync_before_start ev ?t))"
    using same_setup_sync [of ?t ev] same_setup_ctxs(1) [of "pc_sync_before_start ev ?t" ev tid] by (simp add: same_setup_def)
  ultimately show ?thesis
    by (simp add: burst_open_def emit_window_windows [OF assms(6)] Let_def)
      (simp add: same_setup_def emit_window_def probe_enabled_def probe_emit_def assms(6) Let_def)
qed

text \<open>
  C21: the promise of quiet can be broken. One thread closes a burst; before it has reported the
  yield, another enters a launch and opens the next burst, as the gap in force allows. The report
  then moves the gap up, and the closed window that is put on the wire promises 475 ms without a
  burst, one nanosecond before the burst that is already open.
\<close>

theorem quiet_promise_broken:
  "\<exists>(s :: burst_state) tA tB. \<exists>bs. window_history bs (windows s) \<and>
     (let rd = burst_exit_read s; (act, s2) = burst_exit_poll demo_env tA (fst rd) s;
          s4 = burst_exit_act demo_env 1 tA rd act (burst_open_at_launch demo_env 2 tB s2)
      in windows s4 = windows s @
           [\<lparr>sw_start_ns = tB, sw_end_ns = 0, sw_mode = GPU_SAMPLING_MODE_KERNEL_SERIALIZED, sw_next_start_delta_ms = 0\<rparr>,
            \<lparr>sw_start_ns = bu_burst_start_ns (the (ba_burst s)), sw_end_ns = tA, sw_mode = GPU_SAMPLING_MODE_KERNEL_SERIALIZED,
             sw_next_start_delta_ms = 475\<rparr>] \<and>
         unat tB < unat tA + 475 * 1000000)"
proof -
  let ?ev = demo_env and ?tA = "50001000 :: u64" and ?tB = "50001001 :: u64"
  let ?w = "\<lambda>a b d. \<lparr>sw_start_ns = a, sw_end_ns = b, sw_mode = GPU_SAMPLING_MODE_KERNEL_SERIALIZED, sw_next_start_delta_ms = d\<rparr>"
  let ?b0 = "new_burst_controller (\<lambda>x. x) eager_cfg" and ?s0 = "demo_tier_a eager_cfg"
  let ?b1 = "?b0\<lparr>bu_sampling := True, bu_started := True, bu_first_start_ns := 1000, bu_burst_start_ns := 1000, bu_bursts := 1\<rparr>"
  define b2 where "b2 = ?b1\<lparr>bu_sampling := False, bu_last_stop := kDutyCycle, bu_burst_ns := 50000000, bu_last_burst_dur := 50000000,
    bu_last_burst_end_ns := ?tA, bu_have_open_yield := True, bu_next_start_ns := ?tA\<rparr>"
  let ?b3 = "b2\<lparr>bu_sampling := True, bu_burst_start_ns := ?tB, bu_bursts := 2\<rparr>"
  have g: "bu_gap_ns ?b0 = 0" by (simp add: new_burst_controller_def burst_min_gap_ns_def eager_min_gap)
  have p1: "poll_open 1000 False ?b0 = (kStart, ?b1)"
    by (simp add: poll_open_def note_graphs_locked_def open_locked_def new_burst_controller_def Let_def)
  have p2: "poll_close (\<lambda>x. x) ?tA False ?b1 = (kStop, b2)"
    using g by (simp add: b2_def poll_close_def note_graphs_locked_def close_locked_def stop_locked_def gap_for_duration_locked_def new_burst_controller_def
        eager_min_gap Let_def) (simp add: eager_cfg_def)
  have p3: "poll_open ?tB False b2 = (kStart, ?b3)"
    by (simp add: b2_def poll_open_def note_graphs_locked_def open_locked_def new_burst_controller_def Let_def)
  note d = demo_tier_a_eval [of eager_cfg]
  define s where "s = burst_open_at_launch ?ev 1 1000 ?s0"
  have s: "same_setup ?s0 s" "ba_burst s = Some ?b1" "windows s = [?w 1000 0 0]"
    using opened [OF d(2,3) _ _ p1 demo_env_eval(1), of 1] by (simp_all add: s_def d)
  let ?s2 = "s\<lparr>ba_burst := Some b2\<rparr>"
  define s3 where "s3 = burst_open_at_launch ?ev 2 ?tB ?s2"
  have "pa_tier_a ?s2" "pa_n ?s2 g_ctx_enabled \<noteq> 0" "pa_n ?s2 g_exec_from_graph = 0" using s(1) by (simp_all add: same_setup_def d)
  from opened [OF _ this p3 demo_env_eval(1), of 2]
  have s3: "same_setup ?s2 s3" "ba_burst s3 = Some ?b3" "windows s3 = [?w 1000 0 0, ?w ?tB 0 0]" by (simp_all add: s3_def s)
  let ?t2 = "(pc_stop_ctxs_locked ?ev 1 s3)\<lparr>pa_schedule := force ?tA kRangeEnd (pa_schedule (pc_stop_ctxs_locked ?ev 1 s3))\<rparr>"
  define t3 where "t3 = pc_drain_all ?ev kRangeEnd ?t2"
  have "same_setup ?s0 ?t2" using s(1) s3(1) same_setup_ctxs(2) [of s3 ?ev 1] by (simp add: same_setup_def)
  then have "pa_n t3 g_pc_records = 1"
    unfolding t3_def by (subst demo_drain [where c = "hd (pa_ctxs ?s0)"]) (simp_all add: same_setup_def d demo_tier_a_room demo_tier_a_sizes)
  moreover have "ba_burst t3 = Some ?b3" "windows t3 = [?w 1000 0 0, ?w ?tB 0 0]" using s3 by (simp_all add: t3_def)
  moreover have "bu_next_start_ns (closed_burst (\<lambda>x. x) 1 ?b3) = ?tA + 475000000" "\<not> bu_refused ?b3"
    using g by (subst eager_closed) (simp_all add: b2_def new_burst_controller_def)
  ultimately have "windows (burst_close ?ev 1 ?tA 1000 s3) = [?w 1000 0 0, ?w ?tB 0 0, ?w 1000 ?tA 475]"
    by (simp add: burst_close_def Let_def t3_def [symmetric] emit_window_windows [OF demo_env_eval(1)] demo_env_eval burst_quiet_ms_def)
  moreover have "burst_exit_read s = (False, False, 1000)"
    using s by (simp add: burst_exit_read_def graphs_seen_def same_setup_def d new_burst_controller_def)
  moreover from this have "burst_exit_poll ?ev ?tA (fst (burst_exit_read s)) s = (kStop, ?s2)"
    using s p2 by (simp add: burst_exit_poll_def demo_env_eval)
  moreover have "window_history [(?w 1000 0 0, None)] (windows s)" by (simp add: window_history_def s)
  ultimately have "window_history [(?w 1000 0 0, None)] (windows s) \<and>
     (let rd = burst_exit_read s; (act, s2) = burst_exit_poll demo_env ?tA (fst rd) s;
          s4 = burst_exit_act demo_env 1 ?tA rd act (burst_open_at_launch demo_env 2 ?tB s2)
      in windows s4 = windows s @ [?w ?tB 0 0, ?w (bu_burst_start_ns (the (ba_burst s))) ?tA 475] \<and> unat ?tB < unat ?tA + 475 * 1000000)"
    using s by (simp add: burst_exit_act_def s3_def [symmetric] Let_def split: option.split)
  then show ?thesis by blast
qed

end
