(* ===== verification/Cupti_Launch.thy ===== *)
theory Cupti_Launch
  imports Cupti_Burst Cupti_Correlation Shim_Sampler Shim_Cubin
begin

text \<open>
  The callbacks of the NVIDIA adapter, \<open>src/shim/nvidia/cupti_adapter.cc\<close>: kernel launches of the
  runtime and the driver interface, the activity records of executed kernels, and modules as they
  are loaded.

  The state extends that of the burst controller with the batches, the sampler, the name table, the
  clock fit, the correlation word and the module queue, each as the theory of its class models it.
  What the adapter finds around it besides the vendor is in \<open>surroundings\<close>: the vendor's numbering
  of resource callbacks, what an offer of a module returns, when memory is available, and whether
  the guard is free when CUPTI reports a fatal error.

  The lemmas here are what each handler leaves as it was and what it adds to the accounts; that a
  launch is counted once however the interfaces nest and the threads interleave, and that every
  executed kernel becomes one record or one count, is shown over whole runs in \<open>Cupti_Adapter\<close> and
  \<open>Cupti_Runs\<close>. When the correlation of an execution record is that of its launch is the subject of
  \<open>Cupti_Correlation\<close>, on the correlation word alone.
\<close>

section \<open>The state\<close>

record gpu_launch =
  gl_correlation :: u64
  gl_kernel_id :: u64
  gl_queue_id :: u64
  gl_context_id :: u64
  gl_time_ns :: u64
  gl_tid :: u32

record gpu_exec =
  ge_correlation :: u64
  ge_kernel_id :: u64
  ge_queue_id :: u64
  ge_device_id :: u64
  ge_start_ns :: u64
  ge_end_ns :: u64

record adapter = burst_state +
  ad_lb :: "gpu_launch batch"
  ad_eb :: "gpu_exec batch"
  ad_sampler :: sampler
  ad_names :: name_table
  ad_clock :: clock_fit
  ad_corr :: u64
  ad_cubins :: cubin_queue
  ad_tick_plan :: tick_plan
  ad_rt_launch_depth :: "u32 \<Rightarrow> nat"
  ad_resource_events :: "nat \<Rightarrow> u64"
  ad_consumer_enrolled :: bool
  ad_names_was_attached :: bool
  ad_first_device :: u64
  ad_devices_seen :: "u64 list"

record surroundings =
  su_cbid :: "resource_cbid \<Rightarrow> nat"
  su_offer :: "u8 list \<Rightarrow> u64 \<Rightarrow> CubinOfferResult"
  su_malloc :: "nat \<Rightarrow> bool"
  su_guard_free :: bool

section \<open>The clock\<close>

definition resample_clock :: "env \<Rightarrow> adapter \<Rightarrow> adapter" where
  "resample_clock ev s =
     (let (st, s) = cupti ev GetTimestamp s; vendor = v_timestamp ev (pa_calls s)
      in if st \<noteq> CUPTI_SUCCESS then s
         else let (mono, s) = mono_ns ev s in s\<lparr>ad_clock := resample vendor mono (ad_clock s)\<rparr>)"

definition vendor_to_mono :: "u64 \<Rightarrow> clock_fit \<Rightarrow> u64 option" where
  "vendor_to_mono vendor_ns c = (if \<not> cf_valid c then None else Some (to_monotonic vendor_ns c))"

section \<open>Modules\<close>

definition consumer_attached :: "env \<Rightarrow> adapter \<Rightarrow> bool \<times> adapter" where
  "consumer_attached ev s = (if ad_consumer_enrolled s then (True, s) else probe_enabled ev P_module s)"

definition cupti_cubin_crc :: "env \<Rightarrow> u8 list \<Rightarrow> u64" where
  "cupti_cubin_crc ev bytes = (case v_crc ev bytes of (st, crc) \<Rightarrow> if st \<noteq> CUPTI_SUCCESS then 0 else crc)"

definition on_cubin_captured :: "env \<Rightarrow> u64 \<times> u64 \<times> u64 \<times> u8 list \<Rightarrow> adapter \<Rightarrow> adapter" where
  "on_cubin_captured ev cap s =
     (let (module_id, load_ns, crc, bytes) = cap;
          r = \<lparr>ml_cubin_crc = crc, ml_module_id = module_id, ml_size_bytes = of_nat (length bytes), ml_load_ns = load_ns, ml_bytes = bytes\<rparr>;
          (on, s) = probe_enabled ev P_module s
      in if on then probe_emit P_module (W_module r) s else s\<lparr>pa_replay := record_module r (pa_replay s)\<rparr>)"

record module_data =
  md_moduleId :: u64
  md_cubin :: "u8 list option"

record resource_data =
  rd_context :: CUcontext
  rd_module :: "module_data option"

definition on_module_loaded :: "env \<Rightarrow> surroundings \<Rightarrow> resource_data \<Rightarrow> adapter \<Rightarrow> adapter" where
  "on_module_loaded ev su rd s =
     (case rd_module rd of None \<Rightarrow> bump g_module_no_bytes s
      | Some m \<Rightarrow>
          case md_cubin m of None \<Rightarrow> bump g_module_no_bytes s
          | Some bytes \<Rightarrow>
              if bytes = [] then bump g_module_no_bytes s
              else
                let (attached, s) = consumer_attached ev s;
                    s = (if \<not> attached then bump g_module_retained s else s);
                    (now, s) = mono_ns ev s
                in s\<lparr>ad_cubins := snd (capture (su_malloc su (pa_reads s)) (Some bytes) (md_moduleId m) now (ad_cubins s))\<rparr>)"

section \<open>Launches\<close>

datatype runtime_cbid = cudaLaunchKernel_v7000 | cudaLaunchKernel_ptsz_v7000 | cudaLaunchKernelExC_v11060
  | cudaLaunchKernelExC_ptsz_v11060 | cudaLaunchKernel_v13000 | cudaLaunchKernel_ptsz_v13000 | RUNTIME_OTHER nat

fun is_launch_cbid :: "runtime_cbid \<Rightarrow> bool" where
  "is_launch_cbid (RUNTIME_OTHER n) = False"
| "is_launch_cbid _ = True"

datatype driver_cbid = cuLaunchKernel | cuLaunchKernel_ptsz | cuLaunchKernelEx | cuLaunchKernelEx_ptsz
  | cuLaunchCooperativeKernel | cuLaunchCooperativeKernel_ptsz | DRIVER_OTHER nat

fun is_driver_launch_cbid :: "driver_cbid \<Rightarrow> bool" where
  "is_driver_launch_cbid (DRIVER_OTHER n) = False"
| "is_driver_launch_cbid _ = True"

datatype callback_site = API_ENTER | API_EXIT

record callback_data =
  cb_callbackSite :: callback_site
  cb_symbolName :: "string option"
  cb_correlationId :: u32
  cb_contextUid :: u32

definition emit_name_if_new :: "env \<Rightarrow> u64 \<Rightarrow> string option \<Rightarrow> adapter \<Rightarrow> adapter" where
  "emit_name_if_new ev kernel_id name s =
     (let (on, s) = probe_enabled ev P_name s
      in if \<not> on then s
         else
           let (new, t) = intern kernel_id (Some (case name of None \<Rightarrow> ''<unknown>'' | Some n \<Rightarrow> n)) (ad_names s);
               s = s\<lparr>ad_names := t\<rparr>
           in case new of None \<Rightarrow> s | Some r \<Rightarrow> emit_if_enabled ev P_name (W_name r) s)"

definition launch_rec :: "u64 \<Rightarrow> u64 \<Rightarrow> u64 \<Rightarrow> u32 \<Rightarrow> callback_data \<Rightarrow> gpu_launch" where
  "launch_rec corr kernel_id now tid cb =
     \<lparr>gl_correlation = corr, gl_kernel_id = kernel_id, gl_queue_id = 0, gl_context_id = ucast (cb_contextUid cb), gl_time_ns = now, gl_tid = tid\<rparr>"

definition emit_sampled :: "env \<Rightarrow> gpu_launch \<Rightarrow> u64 \<Rightarrow> adapter \<Rightarrow> adapter" where
  "emit_sampled ev l ordinal s =
     emit_if_enabled ev P_sampled (W_sampled \<lparr>ls_correlation = gl_correlation l, ls_kernel_id = gl_kernel_id l, ls_queue_id = 0,
       ls_context_id = gl_context_id l, ls_time_ns = gl_time_ns l, ls_tid = gl_tid l, ls_sample_period = sm_period (ad_sampler s),
       ls_launch_seq = ordinal\<rparr>) s"

definition on_launch :: "env \<Rightarrow> u32 \<Rightarrow> callback_data \<Rightarrow> adapter \<Rightarrow> adapter" where
  "on_launch ev tid cb s =
     (let ordinal = pa_n s g_launch_ordinal;
          s = bump g_launch_ordinal s;
          (sample, sm) = should_sample (ad_sampler s);
          s = s\<lparr>ad_sampler := sm\<rparr>;
          (on, s) = probe_enabled ev P_launch s;
          (on, s) = (if on then (True, s) else probe_enabled ev P_sampled s)
      in if \<not> on then bump g_launch_unattached s
         else
           let kernel_id = hash_name (cb_symbolName cb);
               s = emit_name_if_new ev kernel_id (cb_symbolName cb) s;
               (now, s) = mono_ns ev s;
               (corr, word) = correlate_launch (cb_correlationId cb) (ad_corr s);
               s = s\<lparr>ad_corr := word\<rparr>;
               l = launch_rec corr kernel_id now tid cb;
               s = (if sample then emit_sampled ev l ordinal s else s)
           in s\<lparr>ad_lb := snd (batch_add (e_batch_sem ev P_launch) l (ad_lb s))\<rparr>)"

abbreviation kResourceCbidMax :: nat where "kResourceCbidMax \<equiv> 32"

datatype callback = RESOURCE resource_cbid "resource_data option" | STATE_FATAL_ERROR | STATE_OTHER
  | DRIVER_API driver_cbid callback_data | RUNTIME_API runtime_cbid callback_data | OTHER_DOMAIN

definition on_driver_api :: "env \<Rightarrow> u32 \<Rightarrow> driver_cbid \<Rightarrow> callback_data \<Rightarrow> adapter \<Rightarrow> adapter" where
  "on_driver_api ev tid cbid d s =
     (if \<not> is_driver_launch_cbid cbid then s
      else if ad_rt_launch_depth s tid > 0 then s
      else
        case cb_callbackSite d of
          API_ENTER \<Rightarrow> let (now, s) = mono_ns ev s in on_launch ev tid d (burst_open_at_launch ev tid now s)
        | API_EXIT \<Rightarrow> let (now, s) = mono_ns ev s in burst_close_at_launch ev tid now s)"

definition on_runtime_api :: "env \<Rightarrow> u32 \<Rightarrow> runtime_cbid \<Rightarrow> callback_data \<Rightarrow> adapter \<Rightarrow> adapter" where
  "on_runtime_api ev tid cbid cb s =
     (if \<not> is_launch_cbid cbid then s
      else
        case cb_callbackSite cb of
          API_ENTER \<Rightarrow>
            let s = s\<lparr>ad_rt_launch_depth := (ad_rt_launch_depth s)(tid := Suc (ad_rt_launch_depth s tid))\<rparr>;
                (now, s) = mono_ns ev s
            in on_launch ev tid cb (burst_open_at_launch ev tid now s)
        | API_EXIT \<Rightarrow>
            let (now, s) = mono_ns ev s; s = burst_close_at_launch ev tid now s
            in s\<lparr>ad_rt_launch_depth := (ad_rt_launch_depth s)(tid := ad_rt_launch_depth s tid - 1)\<rparr>)"

definition on_callback :: "env \<Rightarrow> surroundings \<Rightarrow> u32 \<Rightarrow> callback \<Rightarrow> adapter \<Rightarrow> adapter" where
  "on_callback ev su tid cb s =
     (case cb of
        RESOURCE cbid rd \<Rightarrow>
          let k = su_cbid su cbid;
              s = (if k < kResourceCbidMax then s\<lparr>ad_resource_events := (ad_resource_events s)(k := ad_resource_events s k + 1)\<rparr> else s);
              s = (case rd of None \<Rightarrow> s | Some d \<Rightarrow> if cbid = MODULE_LOADED then on_module_loaded ev su d s else s)
          in on_resource ev cbid (map_option rd_context rd) s
      | STATE_FATAL_ERROR \<Rightarrow> on_finalize ev (su_guard_free su) s
      | STATE_OTHER \<Rightarrow> s
      | DRIVER_API cbid d \<Rightarrow> on_driver_api ev tid cbid d s
      | RUNTIME_API cbid d \<Rightarrow> on_runtime_api ev tid cbid d s
      | OTHER_DOMAIN \<Rightarrow> s)"

section \<open>Executed kernels\<close>

abbreviation kBufferSize :: u64 where "kBufferSize \<equiv> 4 * 1024 * 1024"

definition buffer_requested :: "bool \<Rightarrow> adapter \<Rightarrow> u64 \<times> adapter" where
  "buffer_requested alloc_ok s = (if alloc_ok then kBufferSize else 0, if alloc_ok then s else bump g_buffer_alloc_failed s)"

record kernel_activity =
  ka_deviceId :: u32
  ka_graphId :: u32
  ka_start :: u64
  ka_end :: u64
  ka_name :: "string option"
  ka_correlationId :: u32
  ka_streamId :: u32

definition note_device :: "u64 \<Rightarrow> adapter \<Rightarrow> adapter" where
  "note_device device_id s =
     (if ad_first_device s = device_id then s
      else
        let s = (if ad_devices_seen s = [] then s\<lparr>ad_first_device := device_id\<rparr> else s)
        in if device_id \<in> set (ad_devices_seen s) then s
           else
             let s = s\<lparr>ad_devices_seen := ad_devices_seen s @ [device_id]\<rparr>
             in if length (ad_devices_seen s) > 1 then bump g_multi_device s else s)"

definition exec_rec :: "u64 \<Rightarrow> u64 \<Rightarrow> u64 \<Rightarrow> u64 \<Rightarrow> kernel_activity \<Rightarrow> gpu_exec" where
  "exec_rec corr kernel_id start end k =
     \<lparr>ge_correlation = corr, ge_kernel_id = kernel_id, ge_queue_id = ucast (ka_streamId k), ge_device_id = ucast (ka_deviceId k),
      ge_start_ns = start, ge_end_ns = end\<rparr>"

definition handle_kernel :: "env \<Rightarrow> kernel_activity \<Rightarrow> adapter \<Rightarrow> adapter" where
  "handle_kernel ev k s =
     (let s = bump g_activity_records s;
          s = note_device (ucast (ka_deviceId k)) s;
          s = (if ka_graphId k \<noteq> 0 then bump g_exec_from_graph s else s);
          (on, s) = probe_enabled ev P_exec s
      in if \<not> on then bump g_exec_unattached s
         else if ka_start k = 0 \<and> ka_end k = 0 then bump g_exec_no_time s
         else
           case (vendor_to_mono (ka_start k) (ad_clock s), vendor_to_mono (ka_end k) (ad_clock s)) of
             (Some start, Some end) \<Rightarrow>
               let kernel_id = hash_name (ka_name k);
                   s = emit_name_if_new ev kernel_id (ka_name k) s;
                   e = exec_rec (correlate_activity (ka_correlationId k) (ad_corr s)) kernel_id start end k
               in s\<lparr>ad_eb := snd (batch_add (e_batch_sem ev P_exec) e (ad_eb s))\<rparr>
           | _ \<Rightarrow> bump g_exec_no_clock s)"

datatype activity = A_KERNEL kernel_activity | A_DEVICE u32 u32 | A_OTHER

definition handle_activity :: "env \<Rightarrow> activity \<Rightarrow> adapter \<Rightarrow> adapter" where
  "handle_activity ev a s =
     (case a of A_KERNEL k \<Rightarrow> handle_kernel ev k s
      | A_DEVICE sms khz \<Rightarrow> s\<lparr>ba_sm_count := sms, ba_core_clock_hz := ucast khz * 1000\<rparr>
      | A_OTHER \<Rightarrow> bump g_activity_other s)"

text \<open>
  The buffer holds the records the vendor returns from it before the first that fails; \<open>dropped\<close> is
  what the vendor then answers to the question how many it lost.
\<close>

definition buffer_completed :: "env \<Rightarrow> activity list \<Rightarrow> u64 option \<Rightarrow> adapter \<Rightarrow> adapter" where
  "buffer_completed ev recs dropped s =
     (let s = bump g_buffers s;
          s = fold (handle_activity ev) recs s
      in case dropped of None \<Rightarrow> s | Some n \<Rightarrow> if n = 0 then s else add_to g_cupti_dropped n s)"

end
