(* ===== verification/Nvperf_Pin.thy ===== *)
theory Nvperf_Pin
  imports Prelude
begin

text \<open>
  The choice of the profiling library before PC sampling starts, \<open>src/shim/core/nvperfpin.h\<close> and
  \<open>pin_nvperf_host\<close> of \<open>src/shim/nvidia/cupti_adapter.cc\<close>: the library next to the loaded CUPTI is
  loaded first, or PC sampling is refused when another one is already in the process.

  What the dynamic loader and the file system answer is the record \<open>loader\<close>. The lemmas show that
  PC sampling is let through only when a later load by name finds the library next to CUPTI, or when
  there is none to compare with.
\<close>

section \<open>Files\<close>

record NvperfFile =
  nf_present :: bool
  nf_dev :: u64
  nf_ino :: u64

abbreviation no_file :: NvperfFile where
  "no_file \<equiv> \<lparr>nf_present = False, nf_dev = 0, nf_ino = 0\<rparr>"

record loader =
  ld_cupti_path :: "string option"
  ld_stat :: "string \<Rightarrow> (u64 \<times> u64) option"
  ld_realpath :: "string \<Rightarrow> string option"
  ld_loaded :: "string option option"
  ld_dlopen :: "string \<Rightarrow> bool"

definition nvperf_file_of :: "loader \<Rightarrow> string option \<Rightarrow> NvperfFile" where
  "nvperf_file_of ld path =
     (case path of None \<Rightarrow> no_file
      | Some p \<Rightarrow> (case ld_stat ld p of None \<Rightarrow> no_file | Some (dev, ino) \<Rightarrow> \<lparr>nf_present = True, nf_dev = dev, nf_ino = ino\<rparr>))"

definition same_file :: "NvperfFile \<Rightarrow> NvperfFile \<Rightarrow> bool" where
  "same_file f g \<longleftrightarrow> nf_present f \<and> nf_present g \<and> nf_dev f = nf_dev g \<and> nf_ino f = nf_ino g"

section \<open>The decision\<close>

datatype NvperfPin = kPinSibling | kAlreadyMatched | kMismatched | kNoSibling

definition nvperf_pin_decide :: "NvperfFile \<Rightarrow> NvperfFile \<Rightarrow> NvperfPin" where
  "nvperf_pin_decide sibling loaded =
     (if \<not> nf_present sibling then kNoSibling
      else if \<not> nf_present loaded then kPinSibling
      else if same_file sibling loaded then kAlreadyMatched else kMismatched)"

fun nvperf_pin_name :: "NvperfPin \<Rightarrow> string" where
  "nvperf_pin_name kPinSibling = ''pinned''"
| "nvperf_pin_name kAlreadyMatched = ''matched''"
| "nvperf_pin_name kMismatched = ''mismatched''"
| "nvperf_pin_name kNoSibling = ''no-sibling''"

definition nvperf_sibling_path :: "string option \<Rightarrow> string \<Rightarrow> nat \<Rightarrow> string option" where
  "nvperf_sibling_path lib_path name n =
     (case lib_path of None \<Rightarrow> None
      | Some lib \<Rightarrow>
          let dir = rev (dropWhile (\<lambda>c. c \<noteq> CHR ''/'') (rev lib))
          in if dir = [] then None else if length dir + length name + 1 > n then None else Some (dir @ name))"

section \<open>The pin\<close>

abbreviation kName :: string where "kName \<equiv> ''libnvperf_host.so''"

definition present_sibling :: "loader \<Rightarrow> string option \<Rightarrow> string option" where
  "present_sibling ld lib =
     (case nvperf_sibling_path lib kName 4096 of None \<Rightarrow> None
      | Some p \<Rightarrow> if nf_present (nvperf_file_of ld (Some p)) then Some p else None)"

definition find_sibling :: "loader \<Rightarrow> string \<Rightarrow> string option" where
  "find_sibling ld cupti =
     (case present_sibling ld (Some cupti) of Some p \<Rightarrow> Some p
      | None \<Rightarrow> (case ld_realpath ld cupti of None \<Rightarrow> None | Some real \<Rightarrow> present_sibling ld (Some real)))"

definition loaded_file :: "loader \<Rightarrow> NvperfFile" where
  "loaded_file ld =
     (case ld_loaded ld of None \<Rightarrow> no_file
      | Some name \<Rightarrow> (nvperf_file_of ld (map_option (take 4095) name))\<lparr>nf_present := True\<rparr>)"

text \<open>The result, the state reported as \<open>g_nvperf_pin\<close>, and the library loaded, if any.\<close>

definition pin_nvperf_host :: "loader \<Rightarrow> bool \<times> string \<times> string option" where
  "pin_nvperf_host ld =
     (case ld_cupti_path ld of None \<Rightarrow> (True, ''no-cupti-path'', None)
      | Some cupti \<Rightarrow>
          let sibling = find_sibling ld cupti;
              pin = nvperf_pin_decide (nvperf_file_of ld sibling) (loaded_file ld)
          in case pin of
               kPinSibling \<Rightarrow>
                 if ld_dlopen ld (the sibling) then (True, nvperf_pin_name pin, sibling) else (False, ''pin-failed'', None)
             | kAlreadyMatched \<Rightarrow> (True, nvperf_pin_name pin, None)
             | kMismatched \<Rightarrow> (False, nvperf_pin_name pin, None)
             | kNoSibling \<Rightarrow> (True, nvperf_pin_name pin, None))"

section \<open>Properties of the pin\<close>

lemma sibling_path_dir:
  assumes "lib = dir @ CHR ''/'' # base" and "CHR ''/'' \<notin> set base"
  shows "nvperf_sibling_path (Some lib) name n = (if length dir + length name + 2 > n then None else Some (dir @ CHR ''/'' # name))"
proof -
  have "dropWhile (\<lambda>c. c \<noteq> CHR ''/'') (rev lib) = CHR ''/'' # rev dir"
    using assms by (subst assms(1)) (auto simp: dropWhile_append3 dropWhile_append2)
  then show ?thesis by (simp add: nvperf_sibling_path_def)
qed

lemma sibling_path_no_dir: "CHR ''/'' \<notin> set lib \<Longrightarrow> nvperf_sibling_path (Some lib) name n = None"
proof -
  assume "CHR ''/'' \<notin> set lib"
  then have "dropWhile (\<lambda>c. c \<noteq> CHR ''/'') (rev lib) = []" by auto
  then show ?thesis by (simp add: nvperf_sibling_path_def)
qed

lemma present_siblingD:
  assumes "present_sibling ld (Some lib) = Some p"
  obtains dir base where "lib = dir @ CHR ''/'' # base" "CHR ''/'' \<notin> set base" "p = dir @ CHR ''/'' # kName" "nf_present (nvperf_file_of ld (Some p))"
proof -
  have "CHR ''/'' \<in> set lib"
  proof (rule ccontr)
    assume "CHR ''/'' \<notin> set lib"
    then show False using assms by (simp add: present_sibling_def sibling_path_no_dir)
  qed
  then obtain dir base where b: "lib = dir @ CHR ''/'' # base" "CHR ''/'' \<notin> set base" by (metis split_list_last)
  have "nvperf_sibling_path (Some lib) kName 4096 = (if length dir + length kName + 2 > 4096 then None else Some (dir @ CHR ''/'' # kName))"
    by (rule sibling_path_dir [OF b])
  then have "p = dir @ CHR ''/'' # kName \<and> nf_present (nvperf_file_of ld (Some p))"
    using assms unfolding present_sibling_def by (auto simp only: option.simps split: if_splits)
  then show ?thesis using that [OF b] by blast
qed

text \<open>
  C12: PC sampling never runs against a foreign profiling library. When a library lies next to the
  loaded CUPTI, in the directory of the path it was loaded under or of the file behind that path,
  the adapter lets PC sampling through only if a later load by name finds this library: none was
  mapped and this one has just been loaded, or the one that is mapped is the same file. In every
  other case PC sampling is refused and nothing is loaded.
\<close>

theorem pin_only_matching:
  assumes "ld_cupti_path ld = Some cupti" and "find_sibling ld cupti = Some p" and "ld_stat ld p \<noteq> Some (0, 0)"
  shows "(\<exists>dir base lib. p = dir @ CHR ''/'' # kName \<and> lib = dir @ CHR ''/'' # base \<and> CHR ''/'' \<notin> set base \<and>
      (lib = cupti \<or> ld_realpath ld cupti = Some lib)) \<and>
    (case pin_nvperf_host ld of (let_through, why, opened) \<Rightarrow>
      if let_through
      then (ld_loaded ld = None \<and> opened = Some p \<and> ld_dlopen ld p) \<or>
        (\<exists>path. ld_loaded ld = Some (Some path) \<and> opened = None \<and>
          same_file (nvperf_file_of ld (Some p)) (nvperf_file_of ld (Some (take 4095 path))))
      else opened = None)"
proof -
  obtain lib where lib: "present_sibling ld (Some lib) = Some p" "lib = cupti \<or> ld_realpath ld cupti = Some lib"
    using assms(2) by (auto simp: find_sibling_def split: option.splits)
  then obtain dir base where d: "lib = dir @ CHR ''/'' # base" "CHR ''/'' \<notin> set base" "p = dir @ CHR ''/'' # kName" "nf_present (nvperf_file_of ld (Some p))"
    by (blast elim: present_siblingD)
  obtain dev ino where st: "ld_stat ld p = Some (dev, ino)" "(dev, ino) \<noteq> (0, 0)"
    using d(4) assms(3) by (auto simp: nvperf_file_of_def split: option.splits)
  let ?P = "nvperf_file_of ld (Some p)"
  have m: "same_file ?P ((nvperf_file_of ld q)\<lparr>nf_present := True\<rparr>) \<longleftrightarrow> q \<noteq> None \<and> same_file ?P (nvperf_file_of ld q)" for q
    using st by (auto simp: same_file_def nvperf_file_of_def split: option.splits)
  have "case pin_nvperf_host ld of (let_through, why, opened) \<Rightarrow>
      if let_through
      then (ld_loaded ld = None \<and> opened = Some p \<and> ld_dlopen ld p) \<or>
        (\<exists>path. ld_loaded ld = Some (Some path) \<and> opened = None \<and> same_file ?P (nvperf_file_of ld (Some (take 4095 path))))
      else opened = None"
  proof (cases "ld_loaded ld")
    case None
    then show ?thesis using assms(1,2) d(4) by (simp add: pin_nvperf_host_def nvperf_pin_decide_def loaded_file_def)
  next
    case (Some name)
    then show ?thesis
      using assms(1,2) d(4) by (cases name) (simp_all add: pin_nvperf_host_def nvperf_pin_decide_def loaded_file_def m Let_def)
  qed
  then show ?thesis using d lib(2) by blast
qed

section \<open>A concrete loader\<close>

definition demo_loader :: loader where
  "demo_loader = \<lparr>ld_cupti_path = Some ''/w/libcupti.so'', ld_stat = (\<lambda>p. if p = ''/w/libnvperf_host.so'' then Some (7, 9) else None),
     ld_realpath = (\<lambda>p. None), ld_loaded = None, ld_dlopen = (\<lambda>p. True)\<rparr>"

lemma demo_pinned: "fst (pin_nvperf_host demo_loader)"
  by (simp add: pin_nvperf_host_def demo_loader_def find_sibling_def present_sibling_def nvperf_sibling_path_def nvperf_file_of_def
      nvperf_pin_decide_def loaded_file_def)

theorem pin_only_matching_witness:
  "find_sibling demo_loader ''/w/libcupti.so'' = Some ''/w/libnvperf_host.so'' \<and>
   pin_nvperf_host demo_loader = (True, ''pinned'', Some ''/w/libnvperf_host.so'') \<and> ld_loaded demo_loader = None"
proof -
  have f: "find_sibling demo_loader ''/w/libcupti.so'' = Some ''/w/libnvperf_host.so''"
    by (simp add: find_sibling_def present_sibling_def nvperf_sibling_path_def nvperf_file_of_def demo_loader_def)
  have "pin_nvperf_host demo_loader = (True, ''pinned'', Some ''/w/libnvperf_host.so'')"
    using f by (simp add: pin_nvperf_host_def demo_loader_def nvperf_pin_decide_def loaded_file_def nvperf_file_of_def)
  then show ?thesis
    using f pin_only_matching [of demo_loader "''/w/libcupti.so''" "''/w/libnvperf_host.so''"] by (simp add: demo_loader_def)
qed

end
