(* ===== verification/Cupti_Dyn.thy ===== *)
theory Cupti_Dyn
  imports Prelude
begin

text \<open>
  The vendor library at run time, \<open>src/shim/nvidia/cupti_dyn.h\<close>: the first of four names that can be
  opened is kept, and the twenty entry points the adapter calls are looked up in it.

  What the dynamic loader answers is the record \<open>dl\<close>; an address is a number and a null pointer is
  \<open>None\<close>. The lemmas show that the table is complete whenever a load has succeeded, however many
  attempts were made before and whatever the loader answered to them.
\<close>

section \<open>Loading\<close>

record dl =
  dl_open :: "string \<Rightarrow> bool"
  dl_sym :: "string \<Rightarrow> string \<Rightarrow> u64 option"

definition soNames :: "string list" where
  "soNames = [''libcupti.so.13'', ''libcupti.so.12'', ''libcupti.so.11'', ''libcupti.so'']"

definition Table :: "string list" where
  "Table = [''cuptiSubscribe'', ''cuptiEnableDomain'', ''cuptiFinalize'', ''cuptiGetTimestamp'', ''cuptiGetResultString'',
     ''cuptiGetCubinCrc'', ''cuptiActivityEnable'', ''cuptiActivityFlushAll'', ''cuptiActivityGetNextRecord'',
     ''cuptiActivityGetNumDroppedRecords'', ''cuptiActivityRegisterCallbacks'', ''cuptiPCSamplingEnable'',
     ''cuptiPCSamplingDisable'', ''cuptiPCSamplingStart'', ''cuptiPCSamplingStop'', ''cuptiPCSamplingGetData'',
     ''cuptiPCSamplingGetNumStallReasons'', ''cuptiPCSamplingGetStallReasons'', ''cuptiPCSamplingSetConfigurationAttribute'',
     ''cuptiPCSamplingGetConfigurationAttribute'']"

record dyn =
  dy_handle :: "string option"
  dy_table :: "string \<Rightarrow> u64 option"
  dy_resolved :: bool

definition new_dyn :: dyn where
  "new_dyn = \<lparr>dy_handle = None, dy_table = (\<lambda>entry. None), dy_resolved = False\<rparr>"

definition bind_symbol :: "dl \<Rightarrow> string \<Rightarrow> string \<Rightarrow> bool \<times> dyn \<Rightarrow> bool \<times> dyn" where
  "bind_symbol d h entry = (\<lambda>(ok, s). (ok \<and> dl_sym d h entry \<noteq> None, s\<lparr>dy_table := (dy_table s)(entry := dl_sym d h entry)\<rparr>))"

definition load :: "dl \<Rightarrow> dyn \<Rightarrow> bool \<times> dyn" where
  "load d s =
     (if dy_resolved s then (True, s)
      else
        let s = (if dy_handle s = None then s\<lparr>dy_handle := find (dl_open d) soNames\<rparr> else s)
        in case dy_handle s of None \<Rightarrow> (False, s)
           | Some h \<Rightarrow> let (ok, s) = fold (bind_symbol d h) Table (True, s) in (ok, s\<lparr>dy_resolved := ok\<rparr>))"

section \<open>Properties of loading\<close>

lemma bind_symbols:
  "fold (bind_symbol d h) syms (ok, s) =
     (ok \<and> (\<forall>entry \<in> set syms. dl_sym d h entry \<noteq> None), s\<lparr>dy_table := (\<lambda>entry. if entry \<in> set syms then dl_sym d h entry else dy_table s entry)\<rparr>)"
  by (induction syms arbitrary: ok s) (auto simp: bind_symbol_def fun_eq_iff intro!: arg_cong [where f = "\<lambda>t. s\<lparr>dy_table := t\<rparr>" for s])

definition dyn_inv :: "dyn \<Rightarrow> bool" where
  "dyn_inv s \<longleftrightarrow> (dy_resolved s \<longrightarrow> (\<forall>entry \<in> set Table. dy_table s entry \<noteq> None))"

lemma load_inv: "dyn_inv s \<Longrightarrow> dyn_inv (snd (load d s))"
  by (auto simp: load_def Let_def bind_symbols dyn_inv_def split: option.split)

lemma load_result: "fst (load d s) \<longleftrightarrow> dy_resolved (snd (load d s))"
  by (simp add: load_def Let_def bind_symbols split: option.split)

text \<open>A first load takes the first library that opens, and no other when that one lacks an entry.\<close>

lemma first_load: "fst (load d new_dyn) \<longleftrightarrow> (\<exists>h. find (dl_open d) soNames = Some h \<and> (\<forall>entry \<in> set Table. dl_sym d h entry \<noteq> None))"
  by (simp add: load_def Let_def bind_symbols new_dyn_def split: option.split)

text \<open>
  The table is complete before it is used. After any attempts with any answers of the loader,
  a load that returns true leaves an address in every entry the adapter calls, and a further load
  changes nothing.
\<close>

theorem loaded_table_complete:
  assumes "s = fold (\<lambda>d s. snd (load d s)) ds new_dyn" and "load d s = (True, t)"
  shows "(\<forall>entry \<in> set Table. dy_table t entry \<noteq> None) \<and> load d' t = (True, t)"
proof -
  have "dyn_inv (fold (\<lambda>d s. snd (load d s)) ds u)" if "dyn_inv u" for u
    using that by (induction ds arbitrary: u) (simp_all add: load_inv)
  moreover have "dyn_inv new_dyn" by (simp add: dyn_inv_def new_dyn_def)
  ultimately have "dyn_inv t" using load_inv [of s d] assms by simp
  then show ?thesis using load_result [of d s] assms(2) by (simp add: dyn_inv_def load_def)
qed

section \<open>A concrete loader\<close>

definition demo_dl :: dl where
  "demo_dl = \<lparr>dl_open = (\<lambda>name. name = ''libcupti.so.12''), dl_sym = (\<lambda>h entry. Some 1)\<rparr>"

lemma demo_dl_loads: "fst (load demo_dl new_dyn)"
  by (simp add: first_load demo_dl_def soNames_def)

end
