(* ===== verification/Cupti_Init.thy ===== *)
theory Cupti_Init
  imports Cupti_Tick Cupti_Dyn Nvperf_Pin Shim_Offer
begin

text \<open>
  The start of the NVIDIA adapter, \<open>InitializeInjection\<close> of \<open>src/shim/nvidia/cupti_adapter.cc\<close>: the
  settings read from the environment, the selection of the PC-sampling tier, the objects the
  handlers work on, and the subscription to the vendor library.

  The environment variables, the outcome of the rendezvous and the answers of the dynamic loader are
  the record \<open>process_env\<close>. What holds from this start on is shown in \<open>Cupti_Runs\<close>.
\<close>

section \<open>Settings\<close>

definition env_uint :: "string option \<Rightarrow> u32 \<Rightarrow> u32" where
  "env_uint v dflt =
     (case v of None \<Rightarrow> dflt
      | Some v \<Rightarrow> if v = [] then dflt else let n = fst (strtol 10 v) in if n \<le> 0 then dflt else of_int n)"

definition env_u64 :: "string option \<Rightarrow> u64 \<Rightarrow> u64" where
  "env_u64 v dflt =
     (case v of None \<Rightarrow> dflt
      | Some v \<Rightarrow> if v = [] then dflt else case strtoull0 v of (n, rest) \<Rightarrow> if rest = v \<or> rest \<noteq> [] then dflt else n)"

record process_env =
  pe_getenv :: "string \<Rightarrow> string option"
  pe_enrolled :: EnrollResult
  pe_loader :: loader
  pe_dl :: dl

abbreviation getenv_uint :: "process_env \<Rightarrow> string \<Rightarrow> u32 \<Rightarrow> u32" where
  "getenv_uint pe name \<equiv> env_uint (pe_getenv pe name)"

section \<open>The tier\<close>

definition init_tier :: "process_env \<Rightarrow> PCSamplingTier \<times> u64" where
  "init_tier pe =
     (let (r, tier, bad) = pc_tier_parse (pe_getenv pe ''PERFAGENT_GPU_PC_SAMPLING'') 96;
          refused = (if r = kOK then 0 else 1)
      in if tier \<noteq> kOff \<and> \<not> fst (pin_nvperf_host (pe_loader pe)) then (kOff, refused + 1) else (tier, refused))"

definition init_period :: "process_env \<Rightarrow> u32" where
  "init_period pe =
     (let want = getenv_uint pe ''PERFAGENT_GPU_PC_PERIOD'' 0
      in if want \<noteq> 0 \<and> (want < kPCPeriodMin \<or> want > kPCPeriodMax) then 0 else want)"

abbreviation kPCDefaultCollectNumPcs :: u32 where "kPCDefaultCollectNumPcs \<equiv> 64"
abbreviation kPCDefaultWorkerSleepMs :: u32 where "kPCDefaultWorkerSleepMs \<equiv> 10"

definition init_burst :: "env \<Rightarrow> process_env \<Rightarrow> burst_controller" where
  "init_burst ev pe =
     new_burst_controller (e_round ev)
       \<lparr>bc_burst_ns = ucast (getenv_uint pe ''PERFAGENT_GPU_PC_BURST_MS'' 50) * 1000000,
        bc_target_rate = Fin (real (unat (getenv_uint pe ''PERFAGENT_GPU_PC_TARGET_RATE'' 100))),
        bc_max_duty = d_div (e_round ev) (Fin (real (unat (getenv_uint pe ''PERFAGENT_GPU_PC_MAX_DUTY_PERMILLE'' 50)))) (Fin 1000),
        bc_max_gap_ns = ucast (getenv_uint pe ''PERFAGENT_GPU_PC_MAX_GAP_MS'' 10000) * 1000000,
        bc_gain = Fin (1 / 2)\<rparr>"

section \<open>The objects\<close>

abbreviation zero_config :: gpu_config where
  "zero_config \<equiv> \<lparr>gc_clock_hz = 0, gc_sampling_factor = 0, gc_sm_count = 0, gc_vendor = 0\<rparr>"

abbreviation zero_launch :: gpu_launch where
  "zero_launch \<equiv> \<lparr>gl_correlation = 0, gl_kernel_id = 0, gl_queue_id = 0, gl_context_id = 0, gl_time_ns = 0, gl_tid = 0\<rparr>"

abbreviation zero_exec :: gpu_exec where
  "zero_exec \<equiv> \<lparr>ge_correlation = 0, ge_kernel_id = 0, ge_queue_id = 0, ge_device_id = 0, ge_start_ns = 0, ge_end_ns = 0\<rparr>"

abbreviation zero_sample :: pc_sample where
  "zero_sample \<equiv> \<lparr>ps_cubin_crc = 0, ps_correlation = 0, ps_pc_offset = 0, ps_function_index = 0, ps_stall_index = 0, ps_count = 0\<rparr>"

definition init_replay :: "bool \<Rightarrow> (module_load, stall_map, gpu_config) replay_log" where
  "init_replay on =
     on_replay_module (if on then on_replay_config (on_replay_stall (new_replay_log zero_config)) else new_replay_log zero_config)"

definition init_pc_state :: "process_env \<Rightarrow> PCSamplingTier \<Rightarrow> u64 \<Rightarrow> pc_state" where
  "init_pc_state pe tier refused =
     (let on = tier \<noteq> kOff; set = (\<lambda>name dflt off. if on then getenv_uint pe name dflt else off)
      in \<lparr>pa_calls = [], pa_asked = 0, pa_reads = 0, pa_n = (\<lambda>c. 0)(g_pc_tier_refused := refused), pa_seq = (\<lambda>p. 0), pa_wire = [],
          pa_pcb = new_batch (replicate 32 zero_sample), pa_replay = init_replay on,
          pa_schedule = new_pc_drain (ucast (set ''PERFAGENT_GPU_PC_DRAIN_MS'' (getenv_uint pe ''PERFAGENT_GPU_DRAIN_MS'' 100) 0) * 1000000),
          pa_pc_enabled = on, pa_tier_a = (tier = kSerialized), pa_period = (if on then init_period pe else 0),
          pa_collect_num_pcs = ucast (set ''PERFAGENT_GPU_PC_MAX_PCS'' kPCDefaultCollectNumPcs kPCDefaultCollectNumPcs),
          pa_scratch_bytes = push_bit 20 (ucast (set ''PERFAGENT_GPU_PC_SCRATCH_MB'' 0 0)),
          pa_hw_buffer_bytes = push_bit 20 (ucast (set ''PERFAGENT_GPU_PC_HW_BUFFER_MB'' 0 0)),
          pa_worker_sleep_ms = set ''PERFAGENT_GPU_PC_WORKER_SLEEP_MS'' kPCDefaultWorkerSleepMs kPCDefaultWorkerSleepMs,
          pa_stall_indices = [], pa_num_stall_reasons = 0, pa_stall_queried = False, pa_ctxs = []\<rparr>)"

definition init_adapter :: "env \<Rightarrow> process_env \<Rightarrow> adapter" where
  "init_adapter ev pe =
     (let (tier, refused) = init_tier pe
      in burst_state.extend
           (pc_state.extend (init_pc_state pe tier refused)
              (burst_state.fields (if tier = kSerialized then Some (init_burst ev pe) else None) 0 False False 0 0 False))
           (adapter.fields (new_batch (replicate 32 zero_launch)) (new_batch (replicate 32 zero_exec))
              (new_sampler (getenv_uint pe ''PERFAGENT_GPU_SAMPLE_PERIOD'' 8)
                 (env_u64 (pe_getenv pe ''PERFAGENT_GPU_SAMPLE_SEED'') kDefaultSeed))
              \<lparr>nt_seen = {}, nt_records = []\<rparr> \<lparr>cf_offset = 0, cf_valid = False, cf_steps = 0\<rparr> 0 (new_cubin_queue default_limits)
              (new_tick_plan 0) (\<lambda>tid. 0) (\<lambda>k. 0) (pe_enrolled pe = kEnrollConfirmed) False (- 1) []))"

section \<open>The subscription\<close>

definition vendor_calls :: "env \<Rightarrow> vcall list \<Rightarrow> adapter \<Rightarrow> adapter" where
  "vendor_calls ev cs = fold (\<lambda>c s. snd (cupti ev c s)) cs"

definition init_timer :: "env \<Rightarrow> process_env \<Rightarrow> adapter \<Rightarrow> adapter" where
  "init_timer ev pe s =
     (let drain_ns = ucast (getenv_uint pe ''PERFAGENT_GPU_DRAIN_MS'' 100) * 1000000;
          plan = new_tick_plan (drain_limit_ns drain_ns (tick_period_ns drain_ns 0 False));
          (now, s) = mono_ns ev s
      in s\<lparr>ad_tick_plan := tick_start now plan\<rparr>)"

text \<open>
  The result, and the adapter when its callbacks are installed. \<open>again\<close> is the flag \<open>done\<close>, set by the
  first call.
\<close>

definition InitializeInjection :: "bool \<Rightarrow> env \<Rightarrow> process_env \<Rightarrow> nat \<times> adapter option" where
  "InitializeInjection again ev pe =
     (if again then (1, None)
      else if \<not> fst (load (pe_dl pe) new_dyn) then (1, None)
      else
        let (st, s) = cupti ev Subscribe (init_adapter ev pe)
        in if st \<noteq> CUPTI_SUCCESS then (0, None)
           else
             let s = vendor_calls ev [EnableDomain RUNTIME_API_DOMAIN, EnableDomain RESOURCE_DOMAIN, EnableDomain DRIVER_API_DOMAIN] s;
                 s = (if pa_pc_enabled s then vendor_calls ev [EnableDomain STATE_DOMAIN] s else s);
                 s = vendor_calls ev [ActivityRegisterCallbacks, ActivityEnable CONCURRENT_KERNEL_KIND] s;
                 s = (if pa_pc_enabled s then vendor_calls ev [ActivityEnable DEVICE_KIND] s else s)
             in (1, Some (init_timer ev pe (resample_clock ev s))))"

end
