(* ===== verification/Cupti_Adapter.thy ===== *)
theory Cupti_Adapter
  imports Cupti_Init
begin

text \<open>
  The NVIDIA adapter as a whole, \<open>src/shim/nvidia/cupti_adapter.cc\<close>: its handlers put together, run
  on any sequence of callbacks, activity buffers and ticks.

  An invariant of the adapter is an interpretation of \<open>adapter_invariant\<close>: it is checked against
  what each handler changes, and the locale carries it over every run. The vendor's protocol, the
  pairing of the windows on the wire and the accounts of launches and executions are such
  invariants.
\<close>

section \<open>Events\<close>

datatype adapter_event = Callback u32 callback | Buffer_requested bool | Buffer_completed "activity list" "u64 option"
  | Timer_tick u32 "(activity list \<times> u64 option) list"

fun handle :: "env \<Rightarrow> surroundings \<times> adapter_event \<Rightarrow> adapter \<Rightarrow> adapter" where
  "handle ev (su, Callback tid cb) s = on_callback ev su tid cb s"
| "handle ev (su, Buffer_requested ok) s = snd (buffer_requested ok s)"
| "handle ev (su, Buffer_completed recs dropped) s = buffer_completed ev recs dropped s"
| "handle ev (su, Timer_tick tid bufs) s = on_timer_tick ev su tid bufs s"

section \<open>What a handler leaves alone\<close>

text \<open>\<open>calm\<close>: what the protocol and the windows are read from. \<open>quiet\<close>: and what the accounts are.\<close>

abbreviation ctx_counters :: "counter set" where
  "ctx_counters \<equiv> {g_ctx_seen, g_ctx_enabled, g_ctx_enable_failed, g_ctx_disable_failed}"

definition calm :: "adapter \<Rightarrow> adapter \<Rightarrow> bool" where
  "calm s t \<longleftrightarrow> pa_calls t = pa_calls s \<and> pa_ctxs t = pa_ctxs s \<and> pa_collect_num_pcs t = pa_collect_num_pcs s \<and>
     pa_num_stall_reasons t = pa_num_stall_reasons s \<and> pa_stall_queried t = pa_stall_queried s \<and>
     (\<forall>c \<in> ctx_counters. pa_n t c = pa_n s c) \<and> windows t = windows s \<and> ba_burst t = ba_burst s \<and>
     pa_pc_enabled t = pa_pc_enabled s"

definition same_accounts :: "adapter \<Rightarrow> adapter \<Rightarrow> bool" where
  "same_accounts s t \<longleftrightarrow> (\<forall>c \<in> launch_counters. pa_n t c = pa_n s c) \<and> ad_lb t = ad_lb s \<and> ad_eb t = ad_eb s \<and> ad_sampler t = ad_sampler s \<and>
     ad_rt_launch_depth t = ad_rt_launch_depth s"

definition quiet :: "adapter \<Rightarrow> adapter \<Rightarrow> bool" where
  "quiet s t \<longleftrightarrow> calm s t \<and> same_accounts s t"

lemmas quiet_defs = quiet_def calm_def same_accounts_def

lemma quiet_refl [simp]: "quiet s s"
  by (simp add: quiet_defs)

lemma quiet_trans: "quiet s t \<Longrightarrow> quiet t u \<Longrightarrow> quiet s u"
  by (simp add: quiet_defs)

text \<open>A step that leaves them alone is peeled off the end of a handler.\<close>

lemma quiet_iff: "quiet t u \<Longrightarrow> quiet s u \<longleftrightarrow> quiet s t"
  by (simp add: quiet_defs)

lemma quiet_fold: "(\<And>a t. quiet t (f a t)) \<Longrightarrow> quiet s (fold f as t) \<longleftrightarrow> quiet s t"
  by (induction "as" arbitrary: t) (simp_all add: quiet_iff)

lemma windows_emit [simp]: "window_of w = [] \<Longrightarrow> windows (probe_emit p w s) = windows s"
  by (simp add: windows_def probe_emit_def)

lemma quiet_asks [simp]:
  "quiet s (snd (probe_enabled ev p t)) \<longleftrightarrow> quiet s t" "quiet s (snd (mono_ns ev t)) \<longleftrightarrow> quiet s t"
  "quiet s (snd (consumer_attached ev t)) \<longleftrightarrow> quiet s t"
  by (simp_all add: quiet_defs probe_enabled_def mono_ns_def consumer_attached_def windows_def)

lemma quiet_emit [simp]: "window_of w = [] \<Longrightarrow> quiet s (probe_emit p w t) \<longleftrightarrow> quiet s t"
  by (simp add: quiet_defs) (simp add: probe_emit_def)

lemma quiet_emit_if [simp]: "window_of w = [] \<Longrightarrow> quiet s (emit_if_enabled ev p w t) \<longleftrightarrow> quiet s t"
  by (simp add: emit_if_enabled_def case_prod_unfold Let_def)

lemma quiet_count [simp]: "c \<notin> launch_counters \<union> ctx_counters \<Longrightarrow> quiet s (add_to c d t) \<longleftrightarrow> quiet s t"
  by (auto simp: quiet_defs) (auto simp: add_to_def)

lemma quiet_fields [simp]:
  "quiet s (t\<lparr>ad_names := n\<rparr>) \<longleftrightarrow> quiet s t" "quiet s (t\<lparr>ad_cubins := q\<rparr>) \<longleftrightarrow> quiet s t" "quiet s (t\<lparr>pa_replay := l\<rparr>) \<longleftrightarrow> quiet s t"
  "quiet s (t\<lparr>ad_names_was_attached := b\<rparr>) \<longleftrightarrow> quiet s t" "quiet s (t\<lparr>ad_clock := c\<rparr>) \<longleftrightarrow> quiet s t"
  "quiet s (t\<lparr>ad_tick_plan := p\<rparr>) \<longleftrightarrow> quiet s t" "quiet s (t\<lparr>ba_timer_tid := i\<rparr>) \<longleftrightarrow> quiet s t"
  "quiet s (t\<lparr>pa_schedule := d\<rparr>) \<longleftrightarrow> quiet s t" "quiet s (t\<lparr>ba_sm_count := m, ba_core_clock_hz := h\<rparr>) \<longleftrightarrow> quiet s t"
  "quiet s (t\<lparr>ad_resource_events := e\<rparr>) \<longleftrightarrow> quiet s t"
  "quiet s (t\<lparr>ad_corr := w\<rparr>) \<longleftrightarrow> quiet s t" "quiet s (t\<lparr>ad_first_device := v\<rparr>) \<longleftrightarrow> quiet s t"
  "quiet s (t\<lparr>ad_devices_seen := vs\<rparr>) \<longleftrightarrow> quiet s t"
  by (simp_all add: quiet_defs windows_def)

lemma quiet_name [simp]: "quiet s (emit_name_if_new ev k nm t) \<longleftrightarrow> quiet s t"
  by (simp add: emit_name_if_new_def Let_def case_prod_unfold split: option.split)

lemma quiet_captured [simp]: "quiet s (on_cubin_captured ev c t) \<longleftrightarrow> quiet s t"
  by (simp add: on_cubin_captured_def Let_def case_prod_unfold)

lemma quiet_module [simp]: "quiet s (on_module_loaded ev su rd t) \<longleftrightarrow> quiet s t"
  by (simp add: on_module_loaded_def Let_def case_prod_unfold split: option.split)

lemma quiet_device [simp]: "quiet s (note_device d t) \<longleftrightarrow> quiet s t"
  by (simp add: note_device_def Let_def)

lemma quiet_replays [simp]: "quiet s (replay_kernel_names ev t) \<longleftrightarrow> quiet s t" "quiet s (replay_attached ev t) \<longleftrightarrow> quiet s t"
proof -
  have "quiet u (replay_record ev r u)" for r u by (cases r) simp_all
  then show "quiet s (replay_kernel_names ev t) \<longleftrightarrow> quiet s t" "quiet s (replay_attached ev t) \<longleftrightarrow> quiet s t"
    by (simp_all add: replay_attached_def replay_kernel_names_def Let_def case_prod_unfold quiet_fold)
qed

lemma quiet_cubins [simp]: "quiet s (settle_cubins ev t) \<longleftrightarrow> quiet s t" "quiet s (drain_cubins su t) \<longleftrightarrow> quiet s t"
  by (simp_all add: settle_cubins_def drain_cubins_def Let_def quiet_fold)

lemma quiet_graphs [simp]: "quiet s (report_graphs ev t) \<longleftrightarrow> quiet s t"
proof -
  have "quiet s (t\<lparr>pa_n := (pa_n t)(g_graph_exec_reported := x)\<rparr>) \<longleftrightarrow> quiet s t" for x by (simp add: quiet_defs)
  then show ?thesis by (simp add: report_graphs_def Let_def emit_dropped_def)
qed

section \<open>Launches and executions\<close>

text \<open>Everything a launch or an execution moves besides its own accounts is quiet.\<close>

lemma calm_iff: "calm t u \<Longrightarrow> calm s u \<longleftrightarrow> calm s t"
  by (simp add: calm_def)

lemma quiet_calm: "quiet t u \<Longrightarrow> calm s u \<longleftrightarrow> calm s t"
  by (simp add: quiet_defs)

lemma quiet_accounts: "quiet t u \<Longrightarrow> same_accounts s u \<longleftrightarrow> same_accounts s t"
  by (simp add: quiet_defs)

definition accounted :: "adapter \<Rightarrow> bool" where
  "accounted s \<longleftrightarrow> room (ad_lb s) \<and> room (ad_eb s) \<and> pa_n s g_launch_ordinal = sm_observed (ad_sampler s) \<and>
     pa_n s g_launch_ordinal = pa_n s g_launch_unattached + (accepted (ad_lb s) + bt_dropped (ad_lb s)) \<and>
     pa_n s g_activity_records =
       pa_n s g_exec_unattached + pa_n s g_exec_no_time + pa_n s g_exec_no_clock + (accepted (ad_eb s) + bt_dropped (ad_eb s))"

lemma accounted_quiet: "quiet s t \<Longrightarrow> accounted t \<longleftrightarrow> accounted s"
  by (simp add: quiet_defs accounted_def)

lemma on_launch_shape:
  obtains u where "quiet ((bump g_launch_ordinal s)\<lparr>ad_sampler := snd (should_sample (ad_sampler s))\<rparr>) u"
    "on_launch ev tid cb s = bump g_launch_unattached u \<or>
     (\<exists>l. on_launch ev tid cb s = u\<lparr>ad_lb := snd (batch_add (e_batch_sem ev P_launch) l (ad_lb u))\<rparr>)"
proof -
  define s1 where "s1 = (bump g_launch_ordinal s)\<lparr>ad_sampler := snd (should_sample (ad_sampler s))\<rparr>"
  define ask where "ask = probe_enabled ev P_launch s1"
  define ask2 where "ask2 = (if fst ask then (True, snd ask) else probe_enabled ev P_sampled (snd ask))"
  define s2 where "s2 = emit_name_if_new ev (hash_name (cb_symbolName cb)) (cb_symbolName cb) (snd ask2)"
  define s3 where "s3 = (snd (mono_ns ev s2))\<lparr>ad_corr := snd (correlate_launch (cb_correlationId cb) (ad_corr (snd (mono_ns ev s2))))\<rparr>"
  define l where "l = launch_rec (fst (correlate_launch (cb_correlationId cb) (ad_corr (snd (mono_ns ev s2))))) (hash_name (cb_symbolName cb))
    (fst (mono_ns ev s2)) tid cb"
  define s4 where "s4 = (if fst (should_sample (ad_sampler s)) then emit_sampled ev l (pa_n s g_launch_ordinal) s3 else s3)"
  have smp: "ad_sampler (bump g_launch_ordinal s) = ad_sampler s" by (simp add: add_to_def)
  have e: "on_launch ev tid cb s = (if \<not> fst ask2 then bump g_launch_unattached (snd ask2)
      else s4\<lparr>ad_lb := snd (batch_add (e_batch_sem ev P_launch) l (ad_lb s4))\<rparr>)"
    by (simp add: on_launch_def smp s4_def s3_def s2_def l_def ask2_def ask_def s1_def case_prod_unfold Let_def)
  have "quiet s1 (snd ask2)" by (simp add: ask2_def ask_def)
  moreover have "quiet s1 s4" using calculation by (simp add: s4_def s3_def s2_def emit_sampled_def)
  ultimately show ?thesis using e by (cases "fst ask2") (auto intro: that simp: s1_def)
qed

lemma handle_kernel_shape:
  obtains u where "quiet (bump g_activity_records s) u"
    "(\<exists>c \<in> {g_exec_unattached, g_exec_no_time, g_exec_no_clock}. handle_kernel ev k s = bump c u) \<or>
     (\<exists>e. handle_kernel ev k s = u\<lparr>ad_eb := snd (batch_add (e_batch_sem ev P_exec) e (ad_eb u))\<rparr>)"
proof -
  define s1 where "s1 = note_device (ucast (ka_deviceId k)) (bump g_activity_records s)"
  define s2 where "s2 = (if ka_graphId k \<noteq> 0 then bump g_exec_from_graph s1 else s1)"
  define ask where "ask = probe_enabled ev P_exec s2"
  define s3 where "s3 = emit_name_if_new ev (hash_name (ka_name k)) (ka_name k) (snd ask)"
  have q: "quiet (bump g_activity_records s) (snd ask)" "quiet (bump g_activity_records s) s3"
    by (simp_all add: s3_def ask_def s2_def s1_def)
  have "handle_kernel ev k s = (if \<not> fst ask then bump g_exec_unattached (snd ask)
      else if ka_start k = 0 \<and> ka_end k = 0 then bump g_exec_no_time (snd ask)
      else case (vendor_to_mono (ka_start k) (ad_clock (snd ask)), vendor_to_mono (ka_end k) (ad_clock (snd ask))) of
          (Some start, Some end) \<Rightarrow> s3\<lparr>ad_eb := snd (batch_add (e_batch_sem ev P_exec)
            (exec_rec (correlate_activity (ka_correlationId k) (ad_corr s3)) (hash_name (ka_name k)) start end k) (ad_eb s3))\<rparr>
        | _ \<Rightarrow> bump g_exec_no_clock (snd ask))"
    by (simp add: handle_kernel_def s3_def ask_def s2_def s1_def case_prod_unfold Let_def split: option.split)
  then show ?thesis
    using that [OF q(1)] that [OF q(2)] by (auto split: if_splits option.splits)
qed

lemma calm_launch: "calm s (on_launch ev tid cb s)"
  by (rule on_launch_shape [of s ev tid cb]) (auto simp: quiet_defs add_to_def windows_def)

lemma calm_kernel: "calm s (handle_kernel ev k s)"
  by (rule handle_kernel_shape [of s ev k]) (auto simp: quiet_defs add_to_def windows_def)

lemma calm_flush: "calm s (flush_lb ev s)" "calm s (flush_eb ev s)"
  by (simp_all add: calm_def flush_lb_def flush_eb_def windows_def)

lemma add_accounted:
  assumes "room b"
  shows "room (snd (batch_add en r b))"
    "accepted (snd (batch_add en r b)) + bt_dropped (snd (batch_add en r b)) = accepted b + bt_dropped b + 1"
  using batches.inv_stage [of b en "Add r"] batches.counted [of b en "Add r"] assms by simp_all

lemma flush_accounted:
  assumes "room b"
  shows "room (batch_flush en b)" "accepted (batch_flush en b) + bt_dropped (batch_flush en b) = accepted b + bt_dropped b"
  using batches.inv_stage [of b en Flush] batches.counted [of b en Flush] assms by simp_all

lemma accounted_launch:
  assumes "accounted s"
  shows "accounted (on_launch ev tid cb s)"
proof -
  obtain u where u: "quiet ((bump g_launch_ordinal s)\<lparr>ad_sampler := snd (should_sample (ad_sampler s))\<rparr>) u"
    "on_launch ev tid cb s = bump g_launch_unattached u \<or>
     (\<exists>l. on_launch ev tid cb s = u\<lparr>ad_lb := snd (batch_add (e_batch_sem ev P_launch) l (ad_lb u))\<rparr>)"
    by (rule on_launch_shape)
  have o: "sm_observed (snd (should_sample m)) = sm_observed m + 1" for m by (simp add: should_sample_def Let_def)
  have f: "pa_n u g_launch_ordinal = pa_n s g_launch_ordinal + 1" "pa_n u g_launch_unattached = pa_n s g_launch_unattached"
    "ad_lb u = ad_lb s" "ad_eb u = ad_eb s" "sm_observed (ad_sampler u) = sm_observed (ad_sampler s) + 1"
    "pa_n u g_activity_records = pa_n s g_activity_records" "pa_n u g_exec_unattached = pa_n s g_exec_unattached"
    "pa_n u g_exec_no_time = pa_n s g_exec_no_time" "pa_n u g_exec_no_clock = pa_n s g_exec_no_clock"
    using u(1) by (simp_all add: quiet_defs o) (simp_all add: add_to_def)
  from u(2) show ?thesis
  proof (elim disjE exE)
    assume e: "on_launch ev tid cb s = bump g_launch_unattached u"
    show ?thesis using assms unfolding e accounted_def by (clarsimp simp: f) (simp add: add_to_def f)
  next
    fix l assume e: "on_launch ev tid cb s = u\<lparr>ad_lb := snd (batch_add (e_batch_sem ev P_launch) l (ad_lb u))\<rparr>"
    show ?thesis using assms add_accounted [of "ad_lb s"] unfolding e accounted_def by (clarsimp simp: f algebra_simps)
  qed
qed

lemma accounted_kernel:
  assumes "accounted s"
  shows "accounted (handle_kernel ev k s)"
proof -
  obtain u where u: "quiet (bump g_activity_records s) u"
    "(\<exists>c \<in> {g_exec_unattached, g_exec_no_time, g_exec_no_clock}. handle_kernel ev k s = bump c u) \<or>
     (\<exists>e. handle_kernel ev k s = u\<lparr>ad_eb := snd (batch_add (e_batch_sem ev P_exec) e (ad_eb u))\<rparr>)"
    by (rule handle_kernel_shape)
  have f: "pa_n u g_launch_ordinal = pa_n s g_launch_ordinal" "pa_n u g_launch_unattached = pa_n s g_launch_unattached"
    "ad_lb u = ad_lb s" "ad_eb u = ad_eb s" "sm_observed (ad_sampler u) = sm_observed (ad_sampler s)"
    "pa_n u g_activity_records = pa_n s g_activity_records + 1" "pa_n u g_exec_unattached = pa_n s g_exec_unattached"
    "pa_n u g_exec_no_time = pa_n s g_exec_no_time" "pa_n u g_exec_no_clock = pa_n s g_exec_no_clock"
    using u(1) by (simp_all add: quiet_defs) (simp_all add: add_to_def)
  from u(2) show ?thesis
  proof (elim disjE exE bexE)
    fix c assume c: "c \<in> {g_exec_unattached, g_exec_no_time, g_exec_no_clock}" and e: "handle_kernel ev k s = bump c u"
    show ?thesis using assms c unfolding e accounted_def by (auto simp: f) (auto simp: add_to_def f)
  next
    fix r assume e: "handle_kernel ev k s = u\<lparr>ad_eb := snd (batch_add (e_batch_sem ev P_exec) r (ad_eb u))\<rparr>"
    show ?thesis using assms add_accounted [of "ad_eb s"] unfolding e accounted_def by (clarsimp simp: f algebra_simps)
  qed
qed

lemma accounted_flush: "accounted s \<Longrightarrow> accounted (flush_lb ev s)" "accounted s \<Longrightarrow> accounted (flush_eb ev s)"
  by (clarsimp simp: accounted_def flush_lb_def flush_eb_def flush_accounted)+

section \<open>Bursts and the accounts\<close>

definition keeps_accounts :: "'a burst_state_scheme \<Rightarrow> 'a burst_state_scheme \<Rightarrow> bool" where
  "keeps_accounts s t \<longleftrightarrow> (\<forall>c \<in> launch_counters. pa_n t c = pa_n s c) \<and> burst_state.more t = burst_state.more s"

interpretation accounts: pc_frame ev "\<lambda>s t. (\<forall>c \<in> launch_counters. pa_n t c = pa_n s c) \<and> pc_state.more t = pc_state.more s" for ev
  by unfold_locales (auto simp: emit_if_enabled_def probe_enabled_def probe_emit_def)

lemma keeps_of_frame:
  "(\<forall>c \<in> launch_counters. pa_n t c = pa_n s c) \<and> pc_state.more t = pc_state.more s \<Longrightarrow> keeps_accounts s (t :: 'a burst_state_scheme)"
  by (cases s, cases t) (simp add: keeps_accounts_def)

lemma keeps_iff: "keeps_accounts t u \<Longrightarrow> keeps_accounts s u \<longleftrightarrow> keeps_accounts s t"
  by (simp add: keeps_accounts_def)

lemma burst_more_count [simp]: "burst_state.more (add_to c d t) = burst_state.more t"
  by (simp add: add_to_def)

lemma keeps_refl [simp]: "keeps_accounts s s"
  by (simp add: keeps_accounts_def)

lemma keeps_count [simp]: "c \<notin> launch_counters \<Longrightarrow> keeps_accounts s (add_to c d t) \<longleftrightarrow> keeps_accounts s t"
  by (auto simp: keeps_accounts_def add_to_def)

lemma keeps_fields [simp]:
  "keeps_accounts s (t\<lparr>ba_burst := b\<rparr>) \<longleftrightarrow> keeps_accounts s t" "keeps_accounts s (t\<lparr>ba_finalized := f\<rparr>) \<longleftrightarrow> keeps_accounts s t"
  "keeps_accounts s (t\<lparr>ba_sync := q, ba_sync_tried := q'\<rparr>) \<longleftrightarrow> keeps_accounts s t" "keeps_accounts s (t\<lparr>pa_schedule := d\<rparr>) \<longleftrightarrow> keeps_accounts s t"
  "keeps_accounts s (t\<lparr>pa_calls := cs\<rparr>) \<longleftrightarrow> keeps_accounts s t"
  "keeps_accounts s (snd (mono_ns ev t)) \<longleftrightarrow> keeps_accounts s t" "keeps_accounts s (snd (cupti ev v t)) \<longleftrightarrow> keeps_accounts s t"
  by (simp_all add: keeps_accounts_def mono_ns_def cupti_def)

lemma keeps_window [simp]: "keeps_accounts s (emit_window ev x y z t) \<longleftrightarrow> keeps_accounts s t"
  by (simp add: emit_window_def probe_enabled_def probe_emit_def Let_def) (simp add: keeps_accounts_def)

lemma keeps_pc [simp]:
  "keeps_accounts s (pc_drain_all ev r t) \<longleftrightarrow> keeps_accounts s t"
  "keeps_accounts s (on_resource ev cb rd t) \<longleftrightarrow> keeps_accounts s t" "keeps_accounts s (flush_pcb ev t) \<longleftrightarrow> keeps_accounts s t"
  by (rule keeps_iff [OF keeps_of_frame], rule accounts.drain_all accounts.resource accounts.flush)+

lemma keeps_teardown [simp]: "keeps_accounts s (all_ctxs (pc_teardown_ctx ev) t) \<longleftrightarrow> keeps_accounts s t"
  by (rule keeps_iff [OF keeps_of_frame], rule accounts.all) (erule accounts.teardown_ctx)

lemma keeps_bursts [simp]:
  fixes s t :: "'a burst_state_scheme"
  shows "keeps_accounts s (burst_close ev tid now st t) \<longleftrightarrow> keeps_accounts s t"
    "keeps_accounts s (burst_open_at_launch ev tid now t) \<longleftrightarrow> keeps_accounts s t"
    "keeps_accounts s (burst_close_at_launch ev tid now t) \<longleftrightarrow> keeps_accounts s t"
    "keeps_accounts s (burst_shutdown ev tid t) \<longleftrightarrow> keeps_accounts s t"
    "keeps_accounts s (on_finalize ev free t) \<longleftrightarrow> keeps_accounts s t"
    "keeps_accounts s (pc_emit_config_once ev t) \<longleftrightarrow> keeps_accounts s t"
proof -
  have n: "keeps_accounts u (note_graph_refusal w g b u)" "keeps_accounts u (u\<lparr>pa_n := (pa_n u)(g_pc_pcs_at_open := x)\<rparr>)"
    for u :: "'a burst_state_scheme" and w g b x
    by (simp_all add: note_graph_refusal_def) (simp add: keeps_accounts_def)
  have k: "keeps_accounts u (pc_start_ctx ev c u)" "keeps_accounts u (pc_stop_ctx ev c u)" for c and u :: "'a burst_state_scheme"
    by (simp_all add: pc_start_ctx_def pc_stop_ctx_def Let_def case_prod_unfold)
  have "keeps_accounts v (fold (pc_start_ctx ev) cs u) \<longleftrightarrow> keeps_accounts v u"
    "keeps_accounts v (fold (pc_stop_ctx ev) cs u) \<longleftrightarrow> keeps_accounts v u" for cs and u v :: "'a burst_state_scheme"
    by (induction cs arbitrary: u) (simp_all add: keeps_iff [OF k(1)] keeps_iff [OF k(2)])
  then have ctxs: "keeps_accounts v (pc_start_ctxs_locked ev tid u) \<longleftrightarrow> keeps_accounts v u"
    "keeps_accounts v (pc_stop_ctxs_locked ev tid u) \<longleftrightarrow> keeps_accounts v u" for u v :: "'a burst_state_scheme"
    by (simp_all add: pc_start_ctxs_locked_def pc_stop_ctxs_locked_def note_burst_thread_def Let_def)
  have sync: "keeps_accounts v (pc_sync_before_start ev u) \<longleftrightarrow> keeps_accounts v u" for u v :: "'a burst_state_scheme"
    by (simp add: pc_sync_before_start_def pc_resolve_ctx_sync_def Let_def case_prod_unfold)
  note r = ctxs sync keeps_iff [OF n(1)] keeps_iff [OF n(2)]
  show c: "keeps_accounts s (burst_close ev tid now st t) \<longleftrightarrow> keeps_accounts s t" for now st t
    by (simp add: burst_close_def Let_def r split: option.split)
  show "keeps_accounts s (burst_open_at_launch ev tid now t) \<longleftrightarrow> keeps_accounts s t"
    by (simp add: burst_open_at_launch_def burst_open_def Let_def case_prod_unfold r split: option.split)
  show "keeps_accounts s (burst_close_at_launch ev tid now t) \<longleftrightarrow> keeps_accounts s t"
    by (simp add: burst_close_at_launch_def burst_exit_poll_def burst_exit_act_def Let_def case_prod_unfold r c split: option.split)
  show "keeps_accounts s (burst_shutdown ev tid t) \<longleftrightarrow> keeps_accounts s t"
    by (simp add: burst_shutdown_def Let_def case_prod_unfold c split: option.split)
  show "keeps_accounts s (on_finalize ev free t) \<longleftrightarrow> keeps_accounts s t"
    by (simp add: on_finalize_def Let_def case_prod_unfold split: option.split)
  show "keeps_accounts s (pc_emit_config_once ev t) \<longleftrightarrow> keeps_accounts s t"
    by (simp add: pc_emit_config_once_def emit_if_enabled_def probe_enabled_def probe_emit_def Let_def keeps_accounts_def) 
qed

lemma burst_more_adapter:
  assumes "burst_state.more t = burst_state.more (s :: adapter)"
  shows "ad_lb t = ad_lb s" "ad_eb t = ad_eb s" "ad_sampler t = ad_sampler s" "ad_rt_launch_depth t = ad_rt_launch_depth s"
    "ad_cubins t = ad_cubins s" "ad_consumer_enrolled t = ad_consumer_enrolled s"
  using assms by (cases s, cases t, simp)+

lemma accounted_keeps:
  assumes "accounted s" and "keeps_accounts s t"
  shows "accounted t"
  using assms burst_more_adapter [of t s] by (clarsimp simp: accounted_def keeps_accounts_def)

section \<open>Invariants of the adapter\<close>

text \<open>What a flush of the vendor's buffers keeps, what ticks keep, and what the callbacks keep as well.\<close>

locale flush_invariant =
  fixes ev :: env and I :: "adapter \<Rightarrow> bool"
  assumes quiet_step: "quiet s t \<Longrightarrow> I s \<Longrightarrow> I t"
    and vendor_step: "c \<in> {GetTimestamp, ActivityFlushAll f} \<Longrightarrow> I s \<Longrightarrow> I (snd (cupti ev c s))"
    and kernel_step: "I s \<Longrightarrow> I (handle_kernel ev k s)"
begin

lemma quiet_same: "quiet s t \<Longrightarrow> I t \<longleftrightarrow> I s"
  using quiet_step by (metis quiet_iff quiet_refl)

lemma same_simps [simp]:
  "I (snd (mono_ns ev s)) \<longleftrightarrow> I s" "I (snd (consumer_attached ev s)) \<longleftrightarrow> I s" "I (replay_kernel_names ev s) \<longleftrightarrow> I s"
  "I (replay_attached ev s) \<longleftrightarrow> I s" "I (settle_cubins ev s) \<longleftrightarrow> I s" "I (drain_cubins su s) \<longleftrightarrow> I s" "I (report_graphs ev s) \<longleftrightarrow> I s"
  "I (on_module_loaded ev su rd s) \<longleftrightarrow> I s" "I (s\<lparr>ad_clock := c\<rparr>) \<longleftrightarrow> I s" "I (s\<lparr>ad_tick_plan := p\<rparr>) \<longleftrightarrow> I s"
  "I (s\<lparr>ba_timer_tid := i\<rparr>) \<longleftrightarrow> I s" "I (s\<lparr>pa_schedule := d\<rparr>) \<longleftrightarrow> I s" "I (s\<lparr>ba_sm_count := m, ba_core_clock_hz := h\<rparr>) \<longleftrightarrow> I s"
  "I (s\<lparr>ad_resource_events := e\<rparr>) \<longleftrightarrow> I s"
  by (rule quiet_same, simp)+

lemma count_same [simp]: "c \<notin> launch_counters \<union> ctx_counters \<Longrightarrow> I (add_to c d s) \<longleftrightarrow> I s"
  by (rule quiet_same) simp

lemma activity: "I s \<Longrightarrow> I (handle_activity ev a s)"
  by (cases a) (simp_all add: handle_activity_def kernel_step)

lemma buffer: "I s \<Longrightarrow> I (buffer_completed ev recs dropped s)"
proof -
  assume "I s"
  then have "I (bump g_buffers s)" by simp
  then have "I (fold (handle_activity ev) recs (bump g_buffers s))" by (induction recs rule: rev_induct) (simp_all add: activity)
  then show ?thesis by (auto simp: buffer_completed_def Let_def split: option.split)
qed

lemma flushed: "I s \<Longrightarrow> I (flush_activity ev flag bufs s)"
proof -
  assume "I s"
  then have "I (snd (cupti ev (ActivityFlushAll flag) s))" by (intro vendor_step) simp_all
  then show ?thesis unfolding flush_activity_def by (induction bufs rule: rev_induct) (auto simp: buffer)
qed

lemma clock: "I s \<Longrightarrow> I (resample_clock ev s)"
  using vendor_step [of GetTimestamp] by (simp add: resample_clock_def Let_def case_prod_unfold)

end

locale tick_invariant = flush_invariant +
  assumes lb_step: "I s \<Longrightarrow> I (flush_lb ev s)"
    and eb_step: "I s \<Longrightarrow> I (flush_eb ev s)"
    and config_step: "I s \<Longrightarrow> I (pc_emit_config_once ev s)"
    and drain_step: "I s \<Longrightarrow> I (pc_drain_all ev r s)"
    and pcb_step: "I s \<Longrightarrow> I (flush_pcb ev s)"
begin

lemma tick: "I s \<Longrightarrow> I (on_timer_tick ev su tid bufs s)"
proof -
  have pc: "I t \<Longrightarrow> I (pc_tick ev t)" for t
    by (simp add: pc_tick_def Let_def case_prod_unfold pcb_step drain_step config_step)
  have "I t \<Longrightarrow> I (on_tick ev su bufs t)" for t
    by (simp add: on_tick_def Let_def case_prod_unfold pc eb_step lb_step flushed clock)
  then show "I s \<Longrightarrow> I (on_timer_tick ev su tid bufs s)"
    by (simp add: on_timer_tick_def Let_def case_prod_unfold)
qed

end

locale adapter_invariant = tick_invariant +
  assumes launch_step: "I s \<Longrightarrow> I (on_launch ev tid cb s)"
    and open_step: "I s \<Longrightarrow> I (burst_open_at_launch ev tid now s)"
    and close_step: "I s \<Longrightarrow> I (burst_close_at_launch ev tid now s)"
    and shutdown_step: "I s \<Longrightarrow> I (burst_shutdown ev tid s)"
    and finalize_step: "I s \<Longrightarrow> I (on_finalize ev free s)"
    and resource_step: "I s \<Longrightarrow> I (on_resource ev cbid rd s)"
    and depth_step: "I s \<Longrightarrow> I (s\<lparr>ad_rt_launch_depth := r'\<rparr>)"
begin

lemma callback: "I s \<Longrightarrow> I (on_callback ev su tid cb s)"
  by (cases cb) (auto simp: on_callback_def on_driver_api_def on_runtime_api_def Let_def case_prod_unfold resource_step finalize_step
      launch_step open_step close_step depth_step split: option.split callback_site.split)

lemma handled: "I s \<Longrightarrow> I (handle ev e s)"
  by (cases "(ev, e, s)" rule: handle.cases) (simp_all add: callback buffer tick buffer_requested_def)

lemma run: "I s \<Longrightarrow> I (fold (handle ev) es s)"
  by (induction es arbitrary: s) (simp_all add: handled)

lemma exits: "I s \<Longrightarrow> I (at_exit_handler ev su tid bufs s)"
  by (simp add: at_exit_handler_def Let_def shutdown_step finalize_step flushed lb_step eb_step pcb_step)

end

lemma calm_pc_inv: "calm s t \<Longrightarrow> pc_inv ev t \<longleftrightarrow> pc_inv ev s"
  by (rule pc_inv_cong) (simp_all add: calm_def)

lemma calm_win_inv: "calm s t \<Longrightarrow> win_inv t \<longleftrightarrow> win_inv s"
  by (rule win_inv_cong) (simp_all add: calm_def)

interpretation protocol: adapter_invariant ev "pc_inv ev" for ev
proof
  show "pc_inv ev (snd (cupti ev c s))" if "c \<in> {GetTimestamp, ActivityFlushAll f}" "pc_inv ev s" for c f and s :: adapter
    using that pc_inv_other [of ev s c f] by auto
  show "pc_inv ev (s\<lparr>ad_rt_launch_depth := r\<rparr>)" if "pc_inv ev s" for s r using that pc_inv_cong [of "s\<lparr>ad_rt_launch_depth := r\<rparr>" s ev] by simp
  show "pc_inv ev t" if "quiet s t" "pc_inv ev s" for s t using that calm_pc_inv [of s t ev] by (simp add: quiet_def)
qed (simp_all add: calm_pc_inv [OF calm_launch] calm_pc_inv [OF calm_kernel] calm_pc_inv [OF calm_flush(1)] calm_pc_inv [OF calm_flush(2)]
    pc_inv_burst_open pc_inv_close_at_launch pc_inv_shutdown pc_inv_finalize on_resource_inv drain_all_inv)

interpretation accounts_run: adapter_invariant ev accounted for ev
proof
  show "accounted (snd (cupti ev c s))" if "c \<in> {GetTimestamp, ActivityFlushAll f}" "accounted s" for c f and s :: adapter
    using that by (clarsimp simp: cupti_def accounted_def)
  show "accounted (s\<lparr>ad_rt_launch_depth := r\<rparr>)" if "accounted s" for s r using that by (clarsimp simp: accounted_def)
qed (simp_all add: accounted_quiet accounted_launch accounted_kernel accounted_flush, (erule accounted_keeps, simp)+)

text \<open>The windows are read while a consumer listens to them.\<close>

definition windows_ok :: "env \<Rightarrow> adapter \<Rightarrow> bool" where
  "windows_ok ev s \<longleftrightarrow> ((\<forall>n. e_sem ev P_window n) \<longrightarrow> win_inv s)"

lemma windows_ok_calm: "calm s t \<Longrightarrow> windows_ok ev t \<longleftrightarrow> windows_ok ev s"
  by (simp add: windows_ok_def calm_win_inv)

interpretation paired: adapter_invariant ev "windows_ok ev" for ev
proof
  show "windows_ok ev (snd (cupti ev c s))" if "windows_ok ev s" for c and s :: adapter
    using that win_inv_cong [of "snd (cupti ev c s)" s] by (simp add: cupti_def windows_ok_def)
  show "windows_ok ev t" if "quiet s t" "windows_ok ev s" for s t using that windows_ok_calm [of s t ev] by (simp add: quiet_def)
  show "windows_ok ev (s\<lparr>ad_rt_launch_depth := r\<rparr>)" if "windows_ok ev s" for s r
    using that windows_ok_calm [of s "s\<lparr>ad_rt_launch_depth := r\<rparr>" ev] by (simp add: calm_def windows_def)
  show "windows_ok ev (flush_pcb ev s)" if "windows_ok ev s" for s
    using that win_inv_cong [of "flush_pcb ev s" s] by (simp add: flush_pcb_def windows_ok_def windows_def)
qed (simp_all add: windows_ok_calm [OF calm_launch] windows_ok_calm [OF calm_kernel] windows_ok_calm [OF calm_flush(1)] windows_ok_calm [OF calm_flush(2)],
  simp_all add: windows_ok_def win_inv_open win_inv_close win_inv_shutdown win_inv_finalize win_inv_resource win_inv_drain win_inv_config)

end
