(* ===== verification/Cupti_Runs.thy ===== *)
theory Cupti_Runs
  imports Cupti_Adapter
begin

text \<open>
  Runs of the NVIDIA adapter, \<open>src/shim/nvidia/cupti_adapter.cc\<close>, from its initialisation through any
  sequence of events: what holds of the vendor's library, of the windows and of the accounts at every
  point, how often a launch is counted, and what is left at exit.
\<close>

section \<open>The start\<close>

definition started :: "env \<Rightarrow> adapter \<Rightarrow> bool" where
  "started ev s \<longleftrightarrow> pc_inv ev s \<and> windows_ok ev s \<and> accounted s \<and> ad_rt_launch_depth s = (\<lambda>tid. 0) \<and> sm_observed (ad_sampler s) = 0"

lemma init_fields:
  "pa_calls (init_adapter ev pe) = []" "pa_ctxs (init_adapter ev pe) = []" "windows (init_adapter ev pe) = []"
  "c \<noteq> g_pc_tier_refused \<Longrightarrow> pa_n (init_adapter ev pe) c = 0" "ad_rt_launch_depth (init_adapter ev pe) = (\<lambda>tid. 0)"
  "sm_observed (ad_sampler (init_adapter ev pe)) = 0" "ad_lb (init_adapter ev pe) = new_batch (replicate 32 zero_launch)"
  "ad_eb (init_adapter ev pe) = new_batch (replicate 32 zero_exec)" "ba_burst (init_adapter ev pe) \<in> {None, Some (init_burst ev pe)}"
  "ba_finalized (init_adapter ev pe) = False" "pa_pc_enabled (init_adapter ev pe) \<longleftrightarrow> fst (init_tier pe) \<noteq> kOff"
  by (simp_all add: init_adapter_def init_pc_state_def pc_state.extend_def burst_state.extend_def burst_state.fields_def adapter.fields_def
      windows_def new_sampler_def case_prod_unfold Let_def)

lemma started_init: "started ev (init_adapter ev pe)"
proof -
  have "window_history [] []" "in_step [] (init_burst ev pe)"
    by (simp_all add: window_history_def in_step_def init_burst_def new_burst_controller_def)
  then have "windows_ok ev (init_adapter ev pe)"
    using init_fields(9) [of ev pe] by (auto simp: windows_ok_def win_inv_def init_fields(3))
  then show ?thesis by (simp add: started_def pc_inv_def pc_ok_def accounted_def init_fields new_batch_counts)
qed

lemma owed_neutral:
  "subject c = None \<Longrightarrow> \<forall>x. c \<noteq> PCSamplingEnable x \<Longrightarrow> owed_ctxs ev (h @ [c]) = owed_ctxs ev h"
  by (cases c) (simp_all add: owed_ctxs_def)

lemma started_call:
  assumes "started ev s" and "subject c = None" and "\<forall>x. c \<noteq> PCSamplingEnable x"
  shows "started ev (snd (cupti ev c s))"
proof -
  have "\<forall>x. c \<noteq> PCSamplingDisable x" using assms(2) by auto
  moreover have "windows (snd (cupti ev c s)) = windows s" by (simp add: cupti_def)
  ultimately have "windows_ok ev (snd (cupti ev c s))" "pc_inv ev (snd (cupti ev c s))"
    using assms win_inv_cong [of "snd (cupti ev c s)" s]
    by (simp_all add: started_def windows_ok_def pc_inv_def pc_ok_def) (simp_all add: cupti_def owed_neutral)
  then show ?thesis using assms(1) by (clarsimp simp: started_def) (clarsimp simp: cupti_def accounted_def)
qed

lemma started_calls:
  "started ev s \<Longrightarrow> list_all (\<lambda>c. subject c = None \<and> (\<forall>x. c \<noteq> PCSamplingEnable x)) cs \<Longrightarrow> started ev (vendor_calls ev cs s)"
  unfolding vendor_calls_def by (induction cs arbitrary: s) (simp_all add: started_call)

lemma started_quiet: "quiet s t \<Longrightarrow> started ev s \<Longrightarrow> started ev t"
  by (simp add: started_def protocol.quiet_same [of s t] paired.quiet_same [of s t] accounted_quiet) (simp add: quiet_defs)

lemma initialized:
  assumes "InitializeInjection again ev pe = (r, Some s)"
  shows "started ev s"
proof -
  have q: "quiet t (init_timer ev pe t)" for t by (simp add: init_timer_def Let_def case_prod_unfold)
  have g: "quiet (snd (cupti ev GetTimestamp t)) (resample_clock ev t)" for t
    by (simp add: resample_clock_def Let_def case_prod_unfold)
  have c: "started ev t \<Longrightarrow> started ev (resample_clock ev t)" for t
    by (rule started_quiet [OF g], rule started_call) simp_all
  show ?thesis
    using assms started_call [OF started_init, of Subscribe ev pe]
    by (auto simp: InitializeInjection_def Let_def case_prod_unfold intro!: started_quiet [OF q] c started_calls split: if_splits)
qed

section \<open>Invariants of every run\<close>

text \<open>
  C7: the adapter keeps to the vendor's protocol. From initialisation on, through any callbacks,
  buffers and ticks in any order and whatever the vendor answers: every call on a context is made
  while the adapter has enabled it and not yet asked to disable it; the contexts on which the vendor samples are those
  the adapter tracks as enabled and those whose disable the vendor refused; each refused disable is counted;
  and every context announced is counted as enabled or as failed.
\<close>

theorem adapter_keeps_protocol:
  assumes "InitializeInjection again ev pe = (r, Some s0)" and "s = fold (handle ev) es s0"
  shows "legal ev (pa_calls s) \<and>
    sampled_ctxs ev (pa_calls s) = mset (map px_ctx (filter px_enabled (pa_ctxs s))) + failed_disables ev (pa_calls s) \<and>
    pa_n s g_ctx_disable_failed = of_nat (size (failed_disables ev (pa_calls s))) \<and>
    pa_n s g_ctx_seen = pa_n s g_ctx_enabled + pa_n s g_ctx_enable_failed"
  using protocol.run [of ev s0 es] initialized [OF assms(1)] sampled_owed [of ev "pa_calls s"]
  by (simp add: started_def assms(2) pc_inv_def pc_ok_def enabled_ctxs_def)

text \<open>
  C9: the windows on the wire are paired. While a consumer listens to them, through any run in which
  handlers do not overlap: each window opens with no end, is closed with its own start before the
  next opens, and the next opens after the quiet time the closed one promised.
\<close>

theorem adapter_windows_paired:
  assumes "InitializeInjection again ev pe = (r, Some s0)" and "s = fold (handle ev) es s0" and "\<And>n. e_sem ev P_window n"
  shows "\<exists>bs. window_history bs (windows s)"
  using paired.run [of ev s0 es] initialized [OF assms(1)] assms(2,3) by (auto simp: started_def windows_ok_def win_inv_def)

section \<open>Launches\<close>

text \<open>
  What an application thread does: a call of the driver interface, or a call of the runtime
  interface with the driver calls it makes. A runtime call that the adapter does not take for a
  launch may still launch kernels through the driver.
\<close>

datatype gpu_call = Runtime_call runtime_cbid callback_data "(driver_cbid \<times> callback_data) list" | Driver_call driver_cbid callback_data

definition driver_trace :: "driver_cbid \<times> callback_data \<Rightarrow> callback list" where
  "driver_trace = (\<lambda>(k, d). [DRIVER_API k (d\<lparr>cb_callbackSite := API_ENTER\<rparr>), DRIVER_API k (d\<lparr>cb_callbackSite := API_EXIT\<rparr>)])"

fun call_trace :: "gpu_call \<Rightarrow> callback list" where
  "call_trace (Driver_call k d) = driver_trace (k, d)"
| "call_trace (Runtime_call c d ds) =
     RUNTIME_API c (d\<lparr>cb_callbackSite := API_ENTER\<rparr>) # concat (map driver_trace ds) @ [RUNTIME_API c (d\<lparr>cb_callbackSite := API_EXIT\<rparr>)]"

fun kernel_launches :: "gpu_call \<Rightarrow> nat" where
  "kernel_launches (Driver_call k d) = (if is_driver_launch_cbid k then 1 else 0)"
| "kernel_launches (Runtime_call c d ds) = (if is_launch_cbid c then 1 else length (filter (\<lambda>(k, d). is_driver_launch_cbid k) ds))"

text \<open>The interface callbacks of one thread among the events of a run; others may come between them.\<close>

fun interface_callback :: "callback \<Rightarrow> bool" where
  "interface_callback (RUNTIME_API c d) = True"
| "interface_callback (DRIVER_API k d) = True"
| "interface_callback cb = False"

fun of_thread :: "u32 \<Rightarrow> (surroundings \<times> adapter_event) list \<Rightarrow> callback list" where
  "of_thread tid [] = []"
| "of_thread tid ((su, Callback t cb) # es) = (if t = tid \<and> interface_callback cb then cb # of_thread tid es else of_thread tid es)"
| "of_thread tid (e # es) = of_thread tid es"

fun next_depth :: "callback \<Rightarrow> nat \<Rightarrow> nat" where
  "next_depth (RUNTIME_API c d) n =
     (if \<not> is_launch_cbid c then n else case cb_callbackSite d of API_ENTER \<Rightarrow> Suc n | API_EXIT \<Rightarrow> n - 1)"
| "next_depth cb n = n"

fun counted_at :: "callback \<Rightarrow> nat \<Rightarrow> nat" where
  "counted_at (RUNTIME_API c d) n = (if is_launch_cbid c \<and> cb_callbackSite d = API_ENTER then 1 else 0)"
| "counted_at (DRIVER_API k d) n = (if is_driver_launch_cbid k \<and> n = 0 \<and> cb_callbackSite d = API_ENTER then 1 else 0)"
| "counted_at cb n = 0"

fun thread_launches :: "nat \<Rightarrow> callback list \<Rightarrow> nat" where
  "thread_launches n [] = 0"
| "thread_launches n (cb # cbs) = counted_at cb n + thread_launches (next_depth cb n) cbs"

lemma thread_launches_append:
  "thread_launches n (xs @ ys) = thread_launches n xs + thread_launches (fold next_depth xs n) ys"
  by (induction xs arbitrary: n) simp_all

lemma driver_traces:
  "fold next_depth (concat (map driver_trace ds)) n = n"
  "thread_launches n (concat (map driver_trace ds)) = (if n = 0 then length (filter (\<lambda>(k, d). is_driver_launch_cbid k) ds) else 0)"
  by (induction ds) (auto simp: driver_trace_def thread_launches_append)

lemma call_trace_counts: "fold next_depth (call_trace c) 0 = 0" "thread_launches 0 (call_trace c) = kernel_launches c"
  by (cases c; simp add: driver_traces thread_launches_append; simp add: driver_trace_def)+

lemma calls_counts: "thread_launches 0 (concat (map call_trace cs)) = sum_list (map kernel_launches cs)"
  by (induction cs) (simp_all add: thread_launches_append call_trace_counts)

text \<open>What decides whether a callback is counted: the depth of its thread and the launches seen.\<close>

definition launch_view :: "adapter \<Rightarrow> (u32 \<Rightarrow> nat) \<times> u64" where
  "launch_view s = (ad_rt_launch_depth s, sm_observed (ad_sampler s))"

lemma launch_view_quiet: "quiet s t \<Longrightarrow> launch_view t = launch_view s"
  by (simp add: launch_view_def quiet_defs)

lemma launch_view_keeps: "keeps_accounts s t \<Longrightarrow> launch_view t = launch_view s"
  using burst_more_adapter [of t s] by (simp add: launch_view_def keeps_accounts_def)

interpretation seen: tick_invariant ev "\<lambda>s. launch_view s = v" for ev v
proof
  show "launch_view (handle_kernel ev k s) = v" if "launch_view s = v" for s k
    by (rule handle_kernel_shape [of s ev k]) (use that in \<open>auto simp: launch_view_def quiet_defs add_to_def\<close>)
qed (auto simp: launch_view_quiet launch_view_keeps, simp_all add: launch_view_def cupti_def flush_lb_def flush_eb_def)

lemma launch_view_launch: "launch_view (on_launch ev tid cb s) = (ad_rt_launch_depth s, sm_observed (ad_sampler s) + 1)"
proof -
  have "sm_observed (snd (should_sample m)) = sm_observed m + 1" for m by (simp add: should_sample_def Let_def)
  then show ?thesis by (rule_tac on_launch_shape [of s ev tid cb]) (auto simp: launch_view_def quiet_defs add_to_def)
qed

lemma launch_view_steps [simp]:
  "launch_view (snd (mono_ns ev s)) = launch_view s" "launch_view (burst_open_at_launch ev tid now s) = launch_view s"
  "launch_view (burst_close_at_launch ev tid now s) = launch_view s" "launch_view (on_finalize ev free s) = launch_view s"
  "launch_view (on_resource ev cbid rd s) = launch_view s" "launch_view (on_module_loaded ev su d s) = launch_view s"
  "launch_view (s\<lparr>ad_resource_events := e\<rparr>) = launch_view s"
  by (simp_all add: launch_view_quiet launch_view_keeps)

lemma depth_view: "ad_rt_launch_depth s = fst (launch_view s)" "sm_observed (ad_sampler s) = snd (launch_view s)"
  by (simp_all add: launch_view_def)

lemma launch_view_depth: "launch_view (s\<lparr>ad_rt_launch_depth := d\<rparr>) = (d, snd (launch_view s))"
  by (simp add: launch_view_def)

lemma callback_view:
  "launch_view (on_callback ev su tid cb s) =
     (case launch_view s of (d, n) \<Rightarrow> (d(tid := next_depth cb (d tid)), n + of_nat (counted_at cb (d tid))))"
proof (cases cb)
  case (RESOURCE c rd)
  then show ?thesis by (simp add: on_callback_def Let_def case_prod_unfold split: option.split)
next
  case (DRIVER_API k d)
  then show ?thesis
    by (cases "cb_callbackSite d") (simp_all add: on_callback_def on_driver_api_def Let_def case_prod_unfold launch_view_launch depth_view)
next
  case (RUNTIME_API c d)
  then show ?thesis
    by (cases "cb_callbackSite d") (simp_all add: on_callback_def on_runtime_api_def Let_def case_prod_unfold launch_view_launch depth_view launch_view_depth)
qed (simp_all add: on_callback_def case_prod_unfold)

lemma run_view:
  "launch_view s = (d, n) \<Longrightarrow>
   snd (launch_view (fold (handle ev) es s)) = n + of_nat (\<Sum>tid \<in> UNIV. thread_launches (d tid) (of_thread tid es))"
proof (induction es arbitrary: s d n)
  case (Cons e es)
  show ?case
  proof (cases "\<exists>su t cb. e = (su, Callback t cb)")
    case True
    then obtain su t cb where e: "e = (su, Callback t cb)" by blast
    let ?d = "d(t := next_depth cb (d t))" and ?c = "counted_at cb (d t)"
    have "launch_view (handle ev e s) = (?d, n + of_nat ?c)" using Cons.prems by (simp add: e callback_view)
    note Cons.IH [OF this]
    moreover have "thread_launches (d tid) (of_thread tid (e # es)) = thread_launches (?d tid) (of_thread tid es) + (if tid = t then ?c else 0)" for tid
      by (cases cb) (simp_all add: e)
    ultimately show ?thesis by (simp add: sum.distrib)
  next
    case False
    then have "launch_view (handle ev e s) = (d, n)" "of_thread tid (e # es) = of_thread tid es" for tid
      using Cons.prems seen.buffer seen.tick launch_view_quiet [of s "bump g_buffer_alloc_failed s"]
      by (cases "(ev, e, s)" rule: handle.cases; auto simp: buffer_requested_def)+
    then show ?thesis using Cons.IH by simp
  qed
qed simp

text \<open>
  C6: a kernel launch is counted once. Each thread makes any sequence of runtime and driver calls,
  a runtime call with the driver calls it is made of, and the callbacks of all threads, the
  buffers, the ticks and the resource and error callbacks come in any interleaving: the launches counted are exactly the launches
  made, each through whichever interface sees it first, and each of them is in the batch of launch
  records, on the wire, or counted as not delivered.
\<close>

theorem launches_counted_once:
  assumes "InitializeInjection again ev pe = (r, Some s0)" and "s = fold (handle ev) es s0" and "\<And>tid. of_thread tid es = concat (map call_trace (calls tid))"
  shows "pa_n s g_launch_ordinal = of_nat (\<Sum>tid \<in> UNIV. sum_list (map kernel_launches (calls tid))) \<and>
    sm_observed (ad_sampler s) = pa_n s g_launch_ordinal \<and>
    pa_n s g_launch_ordinal = pa_n s g_launch_unattached + (accepted (ad_lb s) + bt_dropped (ad_lb s))"
proof -
  have s0: "started ev s0" by (rule initialized [OF assms(1)])
  then have "launch_view s0 = (\<lambda>tid. 0, 0)" by (simp add: started_def launch_view_def)
  from run_view [OF this, of ev es] have "sm_observed (ad_sampler s) = of_nat (\<Sum>tid \<in> UNIV. sum_list (map kernel_launches (calls tid)))"
    by (simp add: assms(2,3) launch_view_def calls_counts)
  moreover have "accounted s" using accounts_run.run [of s0 ev es] s0 by (simp add: started_def assms(2))
  ultimately show ?thesis by (clarsimp simp: accounted_def)
qed

text \<open>
  C10: every executed kernel is accounted for. Through any run, the activity records of kernels read
  from the vendor's buffers are the sum of the execution records taken in or dropped by the batch
  and of those counted by their cause: nobody listening, no timestamp, no clock fit.
\<close>

theorem executions_accounted:
  assumes "InitializeInjection again ev pe = (r, Some s0)" and "s = fold (handle ev) es s0"
  shows "pa_n s g_activity_records =
    pa_n s g_exec_unattached + pa_n s g_exec_no_time + pa_n s g_exec_no_clock + (accepted (ad_eb s) + bt_dropped (ad_eb s))"
proof -
  have "accounted s" using accounts_run.run [of s0 ev es] initialized [OF assms(1)] by (simp add: started_def assms(2))
  then show ?thesis by (simp add: accounted_def)
qed

section \<open>The exit\<close>




interpretation mode: pc_frame ev "\<lambda>s t. pa_pc_enabled t = pa_pc_enabled s \<and> pc_state.more t = pc_state.more s" for ev
  by unfold_locales (simp_all add: emit_if_enabled_def probe_enabled_def probe_emit_def)

lemma mode_drain [simp]: "pa_pc_enabled (pc_drain_all ev r s) = pa_pc_enabled s" "ba_finalized (pc_drain_all ev r s) = ba_finalized (s :: adapter)"
  using mode.drain_all [where ev = ev and s = s and r = r] by (cases s, cases "pc_drain_all ev r s", simp)+

lemma mode_stop [simp]: "pa_pc_enabled (pc_stop_ctxs_locked ev tid s) = pa_pc_enabled s" "ba_finalized (pc_stop_ctxs_locked ev tid s) = ba_finalized s"
proof -
  have "pa_pc_enabled (fold (pc_stop_ctx ev) cs t) = pa_pc_enabled t \<and> ba_finalized (fold (pc_stop_ctx ev) cs t) = ba_finalized t"
    for cs and t :: "'a burst_state_scheme"
    by (induction cs arbitrary: t) (simp_all add: pc_stop_ctx_def cupti_def add_to_def)
  then show "pa_pc_enabled (pc_stop_ctxs_locked ev tid s) = pa_pc_enabled s" "ba_finalized (pc_stop_ctxs_locked ev tid s) = ba_finalized s"
    by (simp_all add: pc_stop_ctxs_locked_def note_burst_thread_def add_to_def)
qed

lemma mode_count [simp]: "pa_pc_enabled (add_to c d s) = pa_pc_enabled s" "ba_finalized (add_to c d t) = ba_finalized t"
  by (simp_all add: add_to_def)









section \<open>PC sampling off\<close>

definition is_pc_call :: "vcall \<Rightarrow> bool" where
  "is_pc_call c \<longleftrightarrow> (case c of PCSamplingEnable x \<Rightarrow> True | _ \<Rightarrow> subject c \<noteq> None)"

definition off :: "adapter \<Rightarrow> bool" where
  "off s \<longleftrightarrow> \<not> pa_pc_enabled s \<and> ba_burst s = None \<and> pa_ctxs s = [] \<and> windows s = [] \<and> filter is_pc_call (pa_calls s) = []"

lemma off_calm: "calm s t \<Longrightarrow> off t \<longleftrightarrow> off s"
  by (simp add: off_def calm_def)

lemma off_call: "\<not> is_pc_call c \<Longrightarrow> off (snd (cupti ev c s)) \<longleftrightarrow> off s"
  by (simp add: off_def cupti_def windows_def)

lemma off_calls: "list_all (\<lambda>c. \<not> is_pc_call c) cs \<Longrightarrow> off (vendor_calls ev cs s) \<longleftrightarrow> off s"
  unfolding vendor_calls_def by (induction cs arbitrary: s) (simp_all add: off_call)

interpretation idle: adapter_invariant ev off for ev
proof
  show "off (snd (cupti ev c s))" if "c \<in> {GetTimestamp, ActivityFlushAll f}" "off s" for c f and s :: adapter
    using that by (auto simp: off_call is_pc_call_def)
  show "off (pc_emit_config_once ev s)" if "off s" for s
    using that by (simp add: pc_emit_config_once_def emit_if_enabled_def probe_enabled_def probe_emit_def Let_def off_def windows_def add_to_def)
  show "off t" if "quiet s t" "off s" for s t using that off_calm [of s t] by (simp add: quiet_def)
  show "off (flush_pcb ev s)" if "off s" for s using that by (simp add: flush_pcb_def off_def windows_def)
  show "off (pc_drain_all ev r s)" if "off s" for s r
    using that by (simp add: pc_drain_all_def all_ctxs_def flush_pcb_def off_def windows_def Let_def)
  show "off (s\<lparr>ad_rt_launch_depth := r\<rparr>)" if "off s" for s r using that by (simp add: off_def windows_def)
  show "off (on_finalize ev free s)" if "off s" for s free
    using that by (simp add: on_finalize_def Let_def off_def windows_def add_to_def)
qed (simp_all add: off_calm [OF calm_launch] off_calm [OF calm_kernel] off_calm [OF calm_flush(1)] off_calm [OF calm_flush(2)],
  simp_all add: off_def burst_open_at_launch_def burst_close_at_launch_def burst_shutdown_def on_resource_def split: option.split)

lemma init_off: "fst (init_tier pe) = kOff \<Longrightarrow> off (init_adapter ev pe)"
  using init_fields(1,2,3,11) [of ev pe]
  by (simp add: off_def init_adapter_def init_pc_state_def pc_state.extend_def burst_state.extend_def burst_state.fields_def adapter.fields_def case_prod_unfold Let_def)

lemma initialized_off:
  assumes "InitializeInjection again ev pe = (r, Some s)" and "fst (init_tier pe) = kOff"
  shows "off s"
proof -
  have "quiet t (init_timer ev pe t)" for t by (simp add: init_timer_def Let_def case_prod_unfold)
  then have q: "off (init_timer ev pe t) \<longleftrightarrow> off t" for t using idle.quiet_same by blast
  show ?thesis
    using assms(1) init_off [OF assms(2), of ev]
    by (auto simp: InitializeInjection_def Let_def case_prod_unfold q off_calls off_call is_pc_call_def intro!: idle.clock split: if_splits)
qed

text \<open>
  C11: a process in which PC sampling may not run is left alone. When the tier setting is absent, is
  off or cannot be read, or when the profiling library of another CUPTI is already loaded or its own
  cannot be, then through any run no call of the vendor's PC-sampling interface is made, no context
  is tracked and no window is put on the wire.
\<close>

theorem refused_sampling_stays_off:
  assumes "InitializeInjection again ev pe = (r, Some s0)" and "s = fold (handle ev) es s0"
    and "fst (snd (pc_tier_parse (pe_getenv pe ''PERFAGENT_GPU_PC_SAMPLING'') 96)) = kOff \<or> \<not> fst (pin_nvperf_host (pe_loader pe))"
  shows "filter is_pc_call (pa_calls s) = [] \<and> pa_ctxs s = [] \<and> windows s = []"
proof -
  have "fst (init_tier pe) = kOff" using assms(3) by (auto simp: init_tier_def Let_def case_prod_unfold)
  then have "off s" using idle.run initialized_off [OF assms(1)] by (simp add: assms(2))
  then show ?thesis by (simp add: off_def)
qed

section \<open>The replay of modules\<close>

fun announced :: "wire \<Rightarrow> module_load list" where
  "announced (W_module m) = [m]"
| "announced _ = []"

definition modules_announced :: "adapter \<Rightarrow> module_load list" where
  "modules_announced s = concat (map (announced \<circ> fst) (pa_wire s))"

lemma emit_if_enabled_asks: "pa_asked (emit_if_enabled ev p w s) = Suc (pa_asked s)" "pa_replay (emit_if_enabled ev p w s) = pa_replay s"
  by (simp_all add: emit_if_enabled_def probe_enabled_def probe_emit_def)

lemma replay_record_asks:
  "pa_asked (replay_record ev r s) = Suc (pa_asked s)" "pa_replay (replay_record ev r s) = pa_replay s"
  "ad_consumer_enrolled (replay_record ev r s) = ad_consumer_enrolled s"
  "\<not> e_sem ev P_module (pa_asked s) \<Longrightarrow> modules_announced (replay_record ev r s) = modules_announced s"
  by (cases r; simp add: emit_if_enabled_def probe_enabled_def probe_emit_def modules_announced_def)+

lemma replay_records_unheard:
  "pa_asked (fold (replay_record ev) rs s) = pa_asked s + length rs" "pa_replay (fold (replay_record ev) rs s) = pa_replay s"
  "ad_consumer_enrolled (fold (replay_record ev) rs s) = ad_consumer_enrolled s"
  "\<forall>n. pa_asked s \<le> n \<and> n < pa_asked s + length rs \<longrightarrow> \<not> e_sem ev P_module n \<Longrightarrow>
     modules_announced (fold (replay_record ev) rs s) = modules_announced s"
  by (induction rs arbitrary: s) (simp_all add: replay_record_asks)

text \<open>
  C13: modules can stay unannounced to an enrolled consumer. The replay waits for the edge of
  \<open>consumer_attached\<close>, which the rendezvous makes true before the probe is armed, while a replayed
  record is emitted only when the probe is armed. In a pass before that, every module logged so far
  is passed over: nothing of it is announced, the log keeps it, and every later replay of an enrolled
  consumer, armed or not, emits nothing at all.
\<close>

theorem enrolled_replay_passes_over:
  assumes "ad_consumer_enrolled s" and "t = replay_attached ev s"
    and "\<And>n. pa_asked s \<le> n \<Longrightarrow> n < pa_asked t \<Longrightarrow> \<not> e_sem ev P_module n"
    and "ad_consumer_enrolled u" and "rl_was_attached (pa_replay u)"
  shows "modules_announced t = modules_announced s \<and> rl_modules (pa_replay t) = rl_modules (pa_replay s) \<and>
    ad_consumer_enrolled t \<and> rl_was_attached (pa_replay t) \<and>
    (\<forall>k. (replay_attached ev' ^^ k) u = u)"
proof -
  obtain rs l where r: "replay_if_newly_attached True (pa_replay s) = (rs, l)" by fastforce
  have t: "t = fold (replay_record ev) rs (s\<lparr>pa_replay := l\<rparr>)"
    using assms(1) r by (simp add: assms(2) replay_attached_def consumer_attached_def)
  have l: "rl_modules l = rl_modules (pa_replay s)" "rl_was_attached l"
    using r by (auto simp: replay_if_newly_attached_def split: if_splits)
  have "modules_announced t = modules_announced (s\<lparr>pa_replay := l\<rparr>)"
    unfolding t by (rule replay_records_unheard(4)) (use assms(3) in \<open>simp add: t replay_records_unheard(1)\<close>)
  moreover have "replay_attached ev' u = u"
    using assms(4,5) by (cases u) (simp add: replay_attached_def consumer_attached_def replay_if_newly_attached_def)
  then have "(replay_attached ev' ^^ k) u = u" for k by (induction k) simp_all
  ultimately show ?thesis
    using assms(1) l by (simp add: t replay_records_unheard modules_announced_def)
qed

section \<open>A concrete run\<close>

definition demo_process :: process_env where
  "demo_process = \<lparr>pe_getenv = (\<lambda>name. if name = ''PERFAGENT_GPU_PC_SAMPLING'' then Some ''serialized'' else None),
     pe_enrolled = kEnrollConfirmed, pe_loader = demo_loader, pe_dl = demo_dl\<rparr>"

definition demo_su :: surroundings where
  "demo_su = \<lparr>su_cbid = (\<lambda>c. 1), su_offer = (\<lambda>b crc. kCubinOfferAccepted), su_malloc = (\<lambda>n. True), su_guard_free = True\<rparr>"

definition demo_cb :: callback_data where
  "demo_cb = \<lparr>cb_callbackSite = API_ENTER, cb_symbolName = Some ''gemm'', cb_correlationId = 4, cb_contextUid = 1\<rparr>"

definition demo_calls :: "u32 \<Rightarrow> gpu_call list" where
  "demo_calls tid = (if tid = 1 then [Runtime_call cudaLaunchKernel_v7000 demo_cb [(cuLaunchKernel, demo_cb)]]
     else if tid = 2 then [Driver_call cuLaunchKernelEx demo_cb] else [])"

text \<open>A context, a kernel launched by one thread through the runtime with a driver launch of another in between, its activity, a tick.\<close>

definition demo_events :: "(surroundings \<times> adapter_event) list" where
  "demo_events = map (Pair demo_su)
     [Callback 1 (RESOURCE CONTEXT_CREATED (Some \<lparr>rd_context = 5, rd_module = None\<rparr>)),
      Callback 1 (RUNTIME_API cudaLaunchKernel_v7000 demo_cb), Callback 2 (DRIVER_API cuLaunchKernelEx demo_cb),
      Callback 1 (DRIVER_API cuLaunchKernel demo_cb), Callback 1 (DRIVER_API cuLaunchKernel (demo_cb\<lparr>cb_callbackSite := API_EXIT\<rparr>)),
      Callback 2 (DRIVER_API cuLaunchKernelEx (demo_cb\<lparr>cb_callbackSite := API_EXIT\<rparr>)),
      Callback 1 (RUNTIME_API cudaLaunchKernel_v7000 (demo_cb\<lparr>cb_callbackSite := API_EXIT\<rparr>)),
      Buffer_completed [A_DEVICE 80 1500000] None, Timer_tick 9 []]"

definition demo_start :: adapter where
  "demo_start = the (snd (InitializeInjection False demo_env demo_process))"

lemma demo_starts: "fst (load (pe_dl pe) new_dyn) \<Longrightarrow> \<exists>s. InitializeInjection False demo_env pe = (1, Some s)"
proof -
  have "fst (cupti demo_env Subscribe s) = CUPTI_SUCCESS" for s :: adapter by (simp add: cupti_def demo_env_def)
  then show "fst (load (pe_dl pe) new_dyn) \<Longrightarrow> \<exists>s. InitializeInjection False demo_env pe = (1, Some s)"
    by (simp add: InitializeInjection_def Let_def case_prod_unfold)
qed

lemma demo_started: "InitializeInjection False demo_env demo_process = (1, Some demo_start)"
  using demo_starts [of demo_process] by (auto simp: demo_start_def demo_process_def demo_dl_loads)

theorem adapter_keeps_protocol_witness:
  "\<exists>s. s = fold (handle demo_env) demo_events demo_start \<and> legal demo_env (pa_calls s) \<and>
     sampled_ctxs demo_env (pa_calls s) = mset (map px_ctx (filter px_enabled (pa_ctxs s))) + failed_disables demo_env (pa_calls s)"
  using adapter_keeps_protocol [OF demo_started refl, of demo_events] by blast

theorem adapter_windows_paired_witness:
  "\<exists>s. s = fold (handle demo_env) demo_events demo_start \<and> (\<exists>bs. window_history bs (windows s))"
proof -
  have "e_sem demo_env P_window n" for n by (simp add: demo_env_def)
  then show ?thesis using adapter_windows_paired [OF demo_started refl, of demo_events] by blast
qed

theorem launches_counted_once_witness:
  "pa_n (fold (handle demo_env) demo_events demo_start) g_launch_ordinal = 2"
proof -
  have "of_thread tid demo_events = concat (map call_trace (demo_calls tid))" for tid
    by (simp add: demo_events_def demo_calls_def driver_trace_def) (simp add: demo_cb_def)
  moreover have "(\<Sum>tid \<in> UNIV. sum_list (map kernel_launches (demo_calls tid))) = 2"
  proof -
    have "sum_list (map kernel_launches (demo_calls tid)) = (if tid = 1 then 1 else 0) + (if tid = 2 then 1 else 0)" for tid
      by (simp add: demo_calls_def)
    then show ?thesis by (simp add: sum.distrib)
  qed
  ultimately show ?thesis using launches_counted_once [OF demo_started refl, of demo_events demo_calls] by simp
qed

theorem executions_accounted_witness:
  "\<exists>s. s = fold (handle demo_env) demo_events demo_start \<and> pa_n s g_activity_records =
     pa_n s g_exec_unattached + pa_n s g_exec_no_time + pa_n s g_exec_no_clock + (accepted (ad_eb s) + bt_dropped (ad_eb s))"
  using executions_accounted [OF demo_started refl, of demo_events] by blast


theorem refused_sampling_stays_off_witness:
  "\<exists>s0. InitializeInjection False demo_env (demo_process\<lparr>pe_getenv := \<lambda>name. Some ''both''\<rparr>) = (1, Some s0) \<and>
     filter is_pc_call (pa_calls (fold (handle demo_env) demo_events s0)) = []"
proof -
  let ?pe = "demo_process\<lparr>pe_getenv := \<lambda>name. Some ''both''\<rparr>"
  obtain s0 where i: "InitializeInjection False demo_env ?pe = (1, Some s0)" using demo_starts [of ?pe] by (auto simp: demo_process_def demo_dl_loads)
  have "fst (snd (pc_tier_parse (pe_getenv ?pe ''PERFAGENT_GPU_PC_SAMPLING'') 96)) = kOff" by code_simp
  then show ?thesis using refused_sampling_stays_off [OF i refl, of demo_events] i by blast
qed

theorem enrolled_replay_passes_over_witness:
  "\<exists>s t. rl_modules (pa_replay s) \<noteq> [] \<and> t = replay_attached (demo_env\<lparr>e_sem := \<lambda>p n. False\<rparr>) s \<and>
     modules_announced t = modules_announced s \<and> (replay_attached demo_env ^^ 9) t = t"
proof -
  let ?off = "demo_env\<lparr>e_sem := \<lambda>p n. False\<rparr>" and ?m = "\<lparr>ml_cubin_crc = 1, ml_module_id = 2, ml_size_bytes = 1, ml_load_ns = 4, ml_bytes = [7]\<rparr>"
  define s where "s = demo_start\<lparr>ad_consumer_enrolled := True, pa_replay := record_module ?m (pa_replay demo_start)\<rparr>"
  define t where "t = replay_attached ?off s"
  have s: "ad_consumer_enrolled s" "rl_modules (pa_replay s) \<noteq> []" by (simp_all add: s_def record_module_def)
  have "\<not> e_sem ?off P_module n" for n by simp
  note first = enrolled_replay_passes_over [OF s(1) t_def this]
  have "ad_consumer_enrolled t" "rl_was_attached (pa_replay t)"
    using first [of "s\<lparr>pa_replay := (pa_replay s)\<lparr>rl_was_attached := True\<rparr>\<rparr>"] s(1) by simp_all
  then show ?thesis using first [of t demo_env] s(2) by (intro exI [of _ s] exI [of _ t]) (simp add: t_def)
qed

end
