(* ===== verification/Spec2Isabelle.thy ===== *)
theory Spec2Isabelle
  imports Unwind_Record Cfi_Tables Walker Python_Walk Tail_Calls Dwarf_Drivers Gpu_Usdt Fp_Profilers Cpu_Stats
    Shim_Sampler Usdt_Abi Shim_Transport Shim_Drainer Shim_Tier Shim_Guard Shim_Cubin Shim_Burst Gpu_Pipeline
    C_Strings Shim_Enroll Shim_Offer Cupti_Correlation Cupti_State Cupti_Pc Cupti_Burst Cupti_Launch Cupti_Tick
    Nvperf_Pin Cupti_Dyn Cupti_Init Cupti_Adapter Cupti_Runs
begin

text \<open>
  \<^bold>\<open>A verification library for perf-agent.\<close>

  perf-agent profiles processes from inside the kernel. BPF programs (\<open>src/bpf/\<close>) take stacks on
  perf events, context switches and GPU launches, walk them through DWARF unwind tables, frame
  pointers and the frames of a Python interpreter, and hand records to userspace through ring
  buffers and maps. A shim injected into GPU processes (\<open>src/shim/\<close>) batches what the vendor's
  profiling library reports and hands it to the kernel through USDT probes. This library models
  both and the wire between them. Userspace (Go) is modelled only where the kernel side relies on
  it: the decoder of a record.

  \<^bold>\<open>Theories and sources.\<close>

  \<^item> \<open>Prelude\<close>: C integers as words, flag words, little-endian bytes, arrays with a cursor, and the
    contract \<open>counting_stage\<close> of a stage that counts what it lets through and what it does not.
  \<^item> \<open>Bpf_Runtime\<close>: what the programs use of the kernel: array and hash maps (contract \<open>bpf_map\<close>),
    \<open>bpf_loop\<close>, user memory reads, \<open>bpf_tail_call\<close>, the ring buffer, \<open>task_struct\<close>.
  \<^item> \<open>Unwind_Record\<close> (\<open>unwind_record.h\<close>, \<open>unwind/interp/frame.go\<close>): the sample record with its
    slots and tags, both push operations, the state a walk keeps between programs, the decoder.
  \<^item> \<open>Cfi_Tables\<close> (\<open>unwind_common.h\<close>): the mapping scan and the binary search of unwind rows.
  \<^item> \<open>Walker\<close> (\<open>unwind_common.h\<close>): one frame of the walk (\<open>unwind_frame\<close> with its DWARF and
    frame-pointer arms), the handoff spans, the miss events and their rate limit, the loop body.
  \<^item> \<open>Python_Walk\<close> (\<open>interp/python/python_walk.h\<close>): the thread-state lookup, the segment loop over
    interpreter frames, the dispatch state machine and its counters.
  \<^item> \<open>Tail_Calls\<close> (\<open>unwind_common.h\<close>, \<open>unwind_record.h\<close>, \<open>python_walk.bpf.c\<close>): the programs as a
    machine of tail calls: walk, dispatch to an interpreter, resume, finish.
  \<^item> \<open>Dwarf_Drivers\<close> (\<open>perf_dwarf.bpf.c\<close>, \<open>offcpu_dwarf.bpf.c\<close>): the two drivers of that machine
    (contract \<open>sample_driver\<close>, interpreted for both and for the GPU consumer).
  \<^item> \<open>Fp_Profilers\<close> (\<open>perf.bpf.c\<close>, \<open>offcpu.bpf.c\<close>): the frame-pointer profilers and their
    aggregating maps (contract \<open>bpf_map_sized\<close>); \<open>Cpu_Stats\<close> (\<open>cpu.bpf.c\<close>): scheduler statistics.
  \<^item> \<open>Gpu_Usdt\<close> (\<open>gpu_usdt.bpf.c\<close>): the consumer of the shim's probes.
  \<^item> \<open>Shim_Sampler\<close> (\<open>sampler.h\<close>), \<open>Usdt_Abi\<close> (\<open>usdt_abi.h\<close>), \<open>Shim_Transport\<close> (\<open>batch.h\<close>,
    \<open>kernelnames.h\<close>, \<open>drain.h\<close>, \<open>clock.h\<close>), \<open>Shim_Drainer\<close> (the timer thread of \<open>drain.h\<close>), \<open>Shim_Tier\<close> (\<open>pctier.h\<close>, \<open>pcdrain.h\<close>, \<open>tickplan.h\<close>),
    \<open>Shim_Guard\<close> (\<open>callguard.h\<close>), \<open>Shim_Cubin\<close> (\<open>cubinqueue.h\<close>, \<open>cubinqueue.cc\<close>),
    \<open>Shim_Burst\<close> (\<open>burst.h\<close>, doubles as reals with not-a-number and infinities, the rounding a
    parameter): the shim, all under \<open>src/shim/core/\<close>.
  \<^item> \<open>C_Strings\<close>: the text functions of the C library that the shim uses; \<open>Shim_Enroll\<close>
    (\<open>enroll.h\<close>, \<open>enroll.cc\<close>): the startup rendezvous, with the kernel as a parameter and contract
    \<open>blocking_attempt\<close> for its retried calls; \<open>Shim_Offer\<close> (\<open>cubin.h\<close>, \<open>cubin.cc\<close>,
    \<open>gpuprobe/cubin.go\<close>): the offer of a module as a sealed file, and the decoder of its header.
  \<^item> The NVIDIA adapter, \<open>src/shim/nvidia/cupti_adapter.cc\<close>, with the vendor library as a parameter:
    \<open>Cupti_Correlation\<close> (64-bit correlations and kernel ids), \<open>Cupti_State\<close> (its state and its
    surroundings), \<open>Cupti_Pc\<close> (PC sampling of contexts, contract \<open>pc_frame\<close>), \<open>Cupti_Burst\<close>
    (bursts and their windows, the finalize handler), \<open>Cupti_Launch\<close> (callbacks of launches,
    modules and executed kernels), \<open>Cupti_Tick\<close> (the timer and the exit), \<open>Cupti_Dyn\<close>
    (\<open>cupti_dyn.h\<close>: the entry points of the vendor library), \<open>Nvperf_Pin\<close> (\<open>nvperfpin.h\<close>: which
    profiling library it may use), \<open>Cupti_Init\<close> (\<open>InitializeInjection\<close>), \<open>Cupti_Adapter\<close> (all
    handlers together, contracts \<open>flush_invariant\<close>, \<open>tick_invariant\<close> and \<open>adapter_invariant\<close>),
    \<open>Cupti_Runs\<close> (runs from the initialisation to the exit).
  \<^item> \<open>Gpu_Pipeline\<close>: a batch of the shim wired to the kernel's consumer.

  \<^bold>\<open>State and operations.\<close> A struct or class is a record with the source's field names under a
  prefix, an operation is a function on it with the source's name, an error path is a branch of its
  result. Per-CPU scratch entries are lists of one element that a lookup may miss. A BPF program
  runs to completion on its CPU, so its state is passed explicitly; what may differ from one helper
  call to the next (ring buffer room, clocks, stack ids) is a function of the call's number in the
  environment argument. User memory is one partial function of the address for the whole of a sample
  (\<open>e_umem\<close>, \<open>y_umem\<close>): any contents and any unreadable page, but none that changes under the walk.
  The runs of one program on different CPUs follow one another in the sequences the theorems quantify
  over; in \<open>Fp_Profilers\<close>, where the maps are shared and a count is looked up and then created, the
  second access is also a definition of its own and a lemma shows what an interleaving loses. A method under a mutex is one step,
  and a concurrent history is a sequence of methods; where threads share atomics without a lock the
  model is a step relation with one step per access (\<open>Shim_Sampler\<close>, \<open>Shim_Guard\<close>, \<open>Shim_Drainer\<close>), under
  sequential consistency, and where a loop drops its lock one step per critical section and per stretch between two of them
  (\<open>Shim_Cubin\<close>). What is not under \<open>src/\<close> is an argument: the kernel's sockets and clocks
  (\<open>Shim_Enroll\<close>, \<open>Shim_Offer\<close>), the vendor library, whose answers are functions of the calls made so
  far (\<open>env\<close> of \<open>Cupti_State\<close>), the dynamic loader (\<open>dl\<close>, \<open>loader\<close>). A handler of the adapter is one
  step of a run, \<open>handle\<close> of \<open>Cupti_Adapter\<close>; where two handlers overlap and it matters, their atomic
  parts are definitions of their own (\<open>Cupti_Correlation\<close>, \<open>Cupti_Burst\<close>).

  \<^bold>\<open>What the lemmas show.\<close> Walk: the search finds what a linear search finds; on a stack
  described by unwind rows and frame pointers the loop records exactly its frames, up to the first
  one an interpreter claims; a record is always decodable and names at most one ending. Machine: every sample is finished exactly once
  within the tail-call budget, the kernel's limit is never reached, the dispatch counters balance,
  an interpreter's chain is continued over any number of dispatches and never restarted. Drivers: one record per accepted event,
  off-CPU intervals with their exact length, statistics under any interleaving of other threads.
  GPU: every record handed over is delivered or counted, from the shim's batch to the ring buffer;
  each field of a delivered record is found by its C layout. Shim: the sampling chain and what threads can do to it, replay,
  clock conversion, the tier setting, the drain schedule, the silence of a stopped timer, mutual exclusion and progress of the call
  guard, memory safety and bounds of the module queue, the spacing of sampling bursts; the
  rendezvous ends within its budget, an accepted module was sent whole. Adapter: correlations join
  launches and executions across wraps while the launches at a wrap take effect in order; from the initialisation through any run of callbacks,
  buffers and ticks the vendor's protocol is kept, the contexts sampled are those tracked and those
  the vendor refused to stop, which are counted, windows are paired, every launch and execution is
  counted once and accounted for, a refused PC-sampling tier makes no vendor call, and the exit
  leaves nothing queued and, when it gets the guard, nothing sampled but what the vendor refused to stop. Where the code falls short of its comments, a theorem exhibits it.

  \<^bold>\<open>Bounds.\<close> Loops are the source's: \<open>MAX_FRAMES\<close> (127) rounds of \<open>bpf_loop\<close>, 24 probes of the
  row search (enough below \<open>2 ^ 24\<close> rows, and one too few at \<open>2 ^ 24\<close>: both are theorems), 256
  mappings. The machine runs on the kernel's 33 tail calls; 30 are shown to suffice because the
  programs stop at \<open>INTERP_TAIL_CALL_BUDGET\<close> round trips. No other fuel is used.

  \<^bold>\<open>Not modelled.\<close> Of the adapter: its log report, and the wrappers that take the call guard around
  each vendor call. The probe macros (inline assembly), the stub programs (tests), generated kernel
  headers and libbpf.
\<close>

section \<open>The shim and the kernel agree on the wire\<close>

text \<open>
  Specification: the record of \<open>usdt_abi.h\<close> each probe carries, by the kind its attach cookie gives. The pairing is
  that of the names; the kernel side only knows the sizes.
\<close>

definition layout_of :: "(u32 \<times> layout) list" where
  "layout_of = [(KIND_LAUNCH, gpu_launch_v1), (KIND_EXEC, gpu_exec_v1), (KIND_MODULE, gpu_module_load_v1),
     (KIND_PC, gpu_pc_sample_batch_v1), (KIND_LAUNCH_SAMPLED, gpu_launch_sampled_v1), (KIND_KERNEL_NAME, gpu_kernel_name_v1),
     (KIND_STALL_MAP, gpu_stall_reason_map_v1), (KIND_SAMPLING_WINDOW, gpu_sampling_window_v1),
     (KIND_CONFIG, gpu_config_v1), (KIND_DROPPED, gpu_dropped_v1)]"

text \<open>
  The sizes of both sides: for every kind the kernel can size there is exactly one record of the shim's
  header, its size under the C layout rule is the size the kernel multiplies the count with, and every field
  ends within it.
\<close>

definition tight :: "layout \<Rightarrow> bool" where
  "tight l \<longleftrightarrow> struct_size l = struct_end l 0 \<and>
     list_all (\<lambda>i. field_offset l i + fst (l ! i) * snd (l ! i) = struct_end (take (Suc i) l) 0 \<and>
       field_offset l i = struct_end (take i l) 0) [0..<length l]"

lemma abi_sizes:
  assumes "(kind, l) \<in> set layout_of"
  shows "struct_size l = unat (record_size kind)" "record_size kind \<noteq> 0"
    "list_all (\<lambda>i. field_offset l i + fst (l ! i) * snd (l ! i) \<le> struct_size l) [0..<length l]" "tight l"
proof -
  have "list_all (\<lambda>(kind, l). struct_size l = unat (record_size kind) \<and> record_size kind \<noteq> 0 \<and>
      list_all (\<lambda>i. field_offset l i + fst (l ! i) * snd (l ! i) \<le> struct_size l) [0..<length l] \<and> tight l) layout_of"
    by (simp add: layout_of_def layout_eval record_size_def tight_def upt_conv_Cons)
  with assms show "struct_size l = unat (record_size kind)" "record_size kind \<noteq> 0"
    "list_all (\<lambda>i. field_offset l i + fst (l ! i) * snd (l ! i) \<le> struct_size l) [0..<length l]" "tight l"
    by (auto simp: list_all_iff)
qed

lemma tight_covers:
  assumes "tight l" and "r < struct_size l"
  shows "\<exists>i < length l. field_offset l i \<le> r \<and> r < field_offset l i + fst (l ! i) * snd (l ! i)"
proof -
  have "\<exists>i < n. field_offset l i \<le> r \<and> r < field_offset l i + fst (l ! i) * snd (l ! i)"
    if "n \<le> length l" "r < struct_end (take n l) 0" for n
    using that
  proof (induction n)
    case (Suc n)
    then have "n \<in> set [0..<length l]" by simp
    with assms(1) have "field_offset l n + fst (l ! n) * snd (l ! n) = struct_end (take (Suc n) l) 0" "field_offset l n = struct_end (take n l) 0"
      unfolding tight_def list_all_iff by blast+
    with Suc show ?case by (cases "r < field_offset l n") (auto intro: less_SucI)
  qed simp
  from this [of "length l"] assms show ?thesis by (simp add: tight_def)
qed

text \<open>
  Records as the shim holds them: \<open>rs ! j ! i\<close> are the bytes of field \<open>i\<close> of record \<open>j\<close>, stored in an array of
  C structs at \<open>p\<close>. The consumer of a message finds field \<open>i\<close> of the record that begins at \<open>base\<close> at its offset.
\<close>

definition stored :: "umem \<Rightarrow> u64 \<Rightarrow> layout \<Rightarrow> u8 list list list \<Rightarrow> bool" where
  "stored mem p l rs \<longleftrightarrow> (\<forall>j < length rs. \<forall>i < length l. length (rs ! j ! i) = fst (l ! i) * snd (l ! i) \<and>
     (\<forall>b < fst (l ! i) * snd (l ! i). mem (p + of_nat (j * struct_size l + field_offset l i + b)) = Some (rs ! j ! i ! b)))"

definition field_bytes :: "layout \<Rightarrow> u8 list \<Rightarrow> nat \<Rightarrow> nat \<Rightarrow> u8 list" where
  "field_bytes l payload base i = take (fst (l ! i) * snd (l ! i)) (drop (base + field_offset l i) payload)"

lemma probe_read_nth: "probe_read_user mem p n = Some pl \<Longrightarrow> k < n \<Longrightarrow> mem (p + of_nat k) = Some (pl ! k)"
proof (induction n arbitrary: p pl k)
  case (Suc n)
  then obtain x z where z: "mem p = Some x" "probe_read_user mem (p + 1) n = Some z" "pl = x # z"
    by (auto split: option.splits)
  show ?case
  proof (cases k)
    case (Suc m)
    then have "mem (p + 1 + of_nat m) = Some (z ! m)" using Suc.IH [OF z(2), of m] Suc.prems(2) by simp
    then show ?thesis using Suc z(3) by (simp add: add.assoc)
  qed (use z in simp)
qed simp

lemma probe_read_total: "(\<And>k. k < n \<Longrightarrow> mem (p + of_nat k) \<noteq> None) \<Longrightarrow> probe_read_user mem p n \<noteq> None"
proof (induction n arbitrary: p)
  case (Suc n)
  have "mem p \<noteq> None" using Suc.prems [of 0] by simp
  moreover have "probe_read_user mem (p + 1) n \<noteq> None"
  proof (rule Suc.IH)
    show "mem (p + 1 + of_nat k) \<noteq> None" if "k < n" for k using Suc.prems [of "Suc k"] that by (simp add: add.assoc)
  qed
  ultimately show ?case by auto
qed simp

lemma stored_readable:
  assumes st: "stored mem p l rs" and t: "tight l" and c: "c \<le> length rs"
  shows "probe_read_user mem p (c * struct_size l) \<noteq> None"
proof (rule probe_read_total)
  fix k assume k: "k < c * struct_size l"
  let ?j = "k div struct_size l" and ?r = "k mod struct_size l"
  have "0 < struct_size l" using k by (cases "struct_size l") simp_all
  with tight_covers [OF t, of ?r] obtain i where i: "i < length l" "field_offset l i \<le> ?r"
      "?r < field_offset l i + fst (l ! i) * snd (l ! i)" by auto
  have "?j < length rs" using less_mult_imp_div_less [OF k] c by simp
  moreover have "?r - field_offset l i < fst (l ! i) * snd (l ! i)" using i(2,3) by simp
  ultimately have "mem (p + of_nat (?j * struct_size l + field_offset l i + (?r - field_offset l i))) \<noteq> None"
    using st i(1) unfolding stored_def by blast
  then show "mem (p + of_nat k) \<noteq> None" using i(2) by (simp del: of_nat_add of_nat_mult)
qed

lemma stored_found:
  assumes st: "stored mem p l rs" and rd: "probe_read_user mem p (c * struct_size l) = Some pl" and "c \<le> length rs"
    and i: "i < length l" "field_offset l i + fst (l ! i) * snd (l ! i) \<le> struct_size l" and j: "j < c"
  shows "field_bytes l pl (j * struct_size l) i = rs ! j ! i"
proof -
  let ?w = "fst (l ! i) * snd (l ! i)" and ?o = "j * struct_size l + field_offset l i"
  have f: "length (rs ! j ! i) = ?w" "\<And>b. b < ?w \<Longrightarrow> mem (p + of_nat (?o + b)) = Some (rs ! j ! i ! b)"
    using st i(1) j assms(3) by (auto simp: stored_def)
  have "Suc j * struct_size l \<le> c * struct_size l" using j by (intro mult_right_mono) simp_all
  then have e: "?o + ?w \<le> c * struct_size l" using i(2) by simp
  have l: "length pl = c * struct_size l" by (rule length_probe_read_user [OF rd])
  show ?thesis
  proof (rule nth_equalityI)
    show "length (field_bytes l pl (j * struct_size l) i) = length (rs ! j ! i)" using e l f(1) by (simp add: field_bytes_def)
    fix b assume "b < length (field_bytes l pl (j * struct_size l) i)"
    then have b: "b < ?w" using e l by (simp add: field_bytes_def)
    then have "pl ! (?o + b) = rs ! j ! i ! b" using probe_read_nth [OF rd, of "?o + b"] f(2) e by simp
    then show "field_bytes l pl (j * struct_size l) i ! b = rs ! j ! i ! b" using b e l by (simp add: field_bytes_def)
  qed
qed

text \<open>
  C32: the shim and the kernel agree on the layout of every record. For every kind, with the record the header gives it,
  any records stored in the process as an array of C structs, any count, any state of the consumer and any answers of
  the helpers: when there is a record and room in the ring buffer the probe submits one message, with all the records
  or as many as the kind's cap admits, and a reader of the message finds each field of each record, byte for byte, at
  the record's index times the kernel's record size plus the field's offset under the C layout rule.
\<close>

theorem abi_fields_delivered:
  assumes "(kind, l) \<in> set layout_of" and "kind = ucast (a_cookie a)" and "stored (e_umem env) (a_ptr a) l rs"
    and "length rs = unat (a_count a)" and "world_ok x" and "py_mod_wf (x_mod x)" and "cnt (x_mod x) 9 < - 1" and "progs_ok progs"
    and "g_stack_id_seq (x_drv x) = [s]" and "y = gpu_usdt_batch ge env (py_walk_segment yenv) progs a x"
  shows "\<exists>ms. g_events (x_drv y) = g_events (x_drv x) @ ms \<and> length ms \<le> 1 \<and>
    (rs \<noteq> [] \<and> n_rb_room ge (g_reserves (x_drv x)) \<longrightarrow> ms \<noteq> []) \<and>
    list_all (\<lambda>m. b_kind m = kind \<and> unat (b_count m) = min (length rs) (unat (max_records kind)) \<and>
      (\<forall>j < unat (b_count m). \<forall>i < length l. field_bytes l (b_payload m) (j * unat (record_size kind)) i = rs ! j ! i)) ms"
proof (cases "a_count a = 0")
  case True
  have "record_size kind \<noteq> 0" by (rule abi_sizes(2) [OF assms(1)])
  with True have "y = x" by (simp add: assms(10) gpu_usdt_batch_def assms(2) [symmetric])
  then show ?thesis using True assms(4) by (intro exI [of _ "[]"]) simp
next
  case False
  note abi = abi_sizes [OF assms(1)]
  have r: "record_size (ucast (a_cookie a)) \<noteq> 0" using abi(2) assms(2) by simp
  note b = batch_bytes [OF r clamped_le(1)]
  have c: "unat (clamped a) \<le> length rs" using clamped_le(2) [of a] assms(4) by (simp add: word_le_nat_alt)
  have cm: "unat (clamped a) = min (length rs) (unat (max_records kind))"
    by (simp add: clamped_def Let_def assms(2,4) word_less_nat_alt min_def)
  have n: "unat (ucast (clamped a) * record_size (ucast (a_cookie a))) = unat (clamped a) * struct_size l"
    unfolding b(1) abi(1) assms(2) ..
  from gpu_batch_outcome [OF assms(5-9) r False assms(10)] show ?thesis
    unfolding batch_outcome_def n
  proof (elim disjE exE conjE)
    fix sid pl
    assume rd: "probe_read_user (e_umem env) (a_ptr a) (unat (clamped a) * struct_size l) = Some pl"
      and ev: "g_events (x_drv y) = g_events (clamp_drv a (x_drv x)) @ [batch_of ge (ucast (a_cookie a)) (ucast (clamped a)) (a_seq a)
        (ucast (clamped a) * record_size (ucast (a_cookie a))) sid pl]"
    have "field_bytes l pl (j * struct_size l) i = rs ! j ! i" if "j < unat (clamped a)" "i < length l" for i j
      using that abi(3) by (intro stored_found [OF assms(3) rd c]) (simp_all add: list_all_iff)
    then show ?thesis
      using ev cm b(3) abi(1) unfolding assms(2) [symmetric]
      by (intro exI [of _ "[batch_of ge kind (ucast (clamped a)) (a_seq a) (ucast (clamped a) * record_size kind) sid pl]"])
        (simp add: batch_of_def)
  next
    assume "n_rb_room ge (g_reserves (clamp_drv a (x_drv x))) \<longrightarrow>
        probe_read_user (e_umem env) (a_ptr a) (unat (clamped a) * struct_size l) = None"
      and ev: "g_events (x_drv y) = g_events (clamp_drv a (x_drv x))"
    with stored_readable [OF assms(3) abi(4) c] show ?thesis by (intro exI [of _ "[]"]) auto
  qed
qed

section \<open>From a batch to a message\<close>

text \<open>
  C5: nothing is lost silently between the shim's batch and the ring buffer. For every kind that is
  batched, a batch no larger than the kernel's cap for the kind, any sequence of adds and flushes,
  a consumer that comes and goes, and any answers of the kernel helpers at each fire: the messages
  submitted are a subsequence of the emissions, each whole and with its sequence number, and the
  records delivered, dropped in the kernel, dropped in the shim and still pending add up to the
  records offered.
\<close>

theorem shim_to_kernel_conserves:
  assumes "plain_kind kind" and "0 < length buf" and "length buf \<le> unat (max_records kind)"
    and "unat kind < length (g_dropped (x_drv x))" and "b = fold (batch_step en) ops (new_batch buf)"
    and "length ws = length (bt_emitted b)" and "y = fold (fire seg progs kind) (zip ws (bt_emitted b)) x"
  shows "\<exists>ms. g_events (x_drv y) = g_events (x_drv x) @ ms \<and> list_all (\<lambda>m. b_kind m = kind) ms \<and>
      subseq (map (\<lambda>m. (b_seq m, unat (b_count m))) ms) (map (\<lambda>(rs, q). (q, length rs)) (bt_emitted b)) \<and>
      sum_list (map (\<lambda>m. ucast (b_count m)) ms) + (kernel_dropped kind y - kernel_dropped kind x) + bt_dropped b +
        of_nat (bt_n b) = (of_nat (length (adds ops)) :: u64)"
proof -
  let ?wes = "zip ws (bt_emitted b)"
  have inv: "batch_inv (length buf) (adds ops) b" using batch_inv_run [OF assms(2), of ops en] by (simp add: assms(5))
  then have "list_all (fits kind) ?wes"
    using assms(3) by (auto simp: batch_inv_def list_all_iff fits_def dest!: set_zip_rightD)
  note f = this fires_in_order [OF assms(1) this, of seg progs x, folded assms(7)]
  from f(2) obtain ms where ms: "g_events (x_drv y) = g_events (x_drv x) @ ms" "list_all (\<lambda>m. b_kind m = kind) ms"
      "subseq (map (\<lambda>m. (b_seq m, unat (b_count m))) ms) (map (\<lambda>(w, rs, q). (q, length rs)) ?wes)"
    by blast
  have "delivered kind y + kernel_dropped kind y = delivered kind x + kernel_dropped kind x + sum_list (map records_in ?wes)"
    unfolding assms(7) using consumer.conserved [OF assms(4), of ?wes] assms(1) f(1) by (simp add: list_all_iff)
  then have "sum_list (map (\<lambda>m. ucast (b_count m)) ms) + (kernel_dropped kind y - kernel_dropped kind x) =
      of_nat (length (concat (map fst (bt_emitted b))))"
    unfolding delivered_append [OF ms(1,2)] emissions_zip(2) [OF assms(6)] by (simp add: algebra_simps)
  moreover have "accepted b + bt_dropped b = of_nat (length (adds ops))"
    using batches.conserved [of "new_batch buf" ops en] assms(2) by (simp add: assms(5) sum_offered list_all_iff new_batch_counts)
  ultimately show ?thesis
    using ms emissions_zip(1) [OF assms(6)] by (intro exI [of _ ms]) (simp add: accepted_def algebra_simps)
qed

section \<open>A concrete run\<close>

definition demo_surround :: surround where
  "demo_surround = \<lparr>o_genv = demo_genv, o_env = mem_env, o_ptr = 0x2000, o_regs = \<lparr>r_ip = 5, r_fp = 0x1000, r_sp = 0xFF0\<rparr>\<rparr>"

theorem shim_to_kernel_conserves_witness:
  "case fold (batch_step (\<lambda>n. True)) [Add 3, Add 4, Add 5, Flush] (new_batch [0 :: nat, 0]) of b \<Rightarrow>
   case fold (fire (py_walk_segment py_demo_env) demo_progs KIND_LAUNCH) (zip [demo_surround, demo_surround] (bt_emitted b))
     (with_drv demo_gpu) of y \<Rightarrow>
   bt_emitted b = [([3, 4], 0), ([5], 1)] \<and>
   (\<exists>ms. g_events (x_drv y) = g_events demo_gpu @ ms \<and> list_all (\<lambda>m. b_kind m = KIND_LAUNCH) ms \<and>
      subseq (map (\<lambda>m. (b_seq m, unat (b_count m))) ms) [(0, 2), (1, 1)] \<and>
      sum_list (map (\<lambda>m. ucast (b_count m)) ms) + kernel_dropped KIND_LAUNCH y + bt_dropped b = (3 :: u64))"
proof -
  define b where "b = fold (batch_step (\<lambda>n. True)) [Add 3, Add 4, Add 5, Flush] (new_batch [0 :: nat, 0])"
  have b: "bt_emitted b = [([3, 4], 0), ([5], 1)]" "bt_n b = 0"
    by (simp_all add: b_def new_batch_def batch_add_def batch_flush_def flush_locked_def Let_def)
  have k: "plain_kind KIND_LAUNCH" by (simp add: plain_kind_def record_size_def)
  have n: "length [0 :: nat, 0] \<le> unat (max_records KIND_LAUNCH)" by (simp add: max_records_def BATCH_CAP_def)
  have d: "unat KIND_LAUNCH < length (g_dropped (x_drv (with_drv demo_gpu)))" by (simp add: demo_gpu_def)
  have z: "kernel_dropped KIND_LAUNCH (with_drv demo_gpu) = 0" by (simp add: kernel_dropped_def demo_gpu_def)
  have l: "length [demo_surround, demo_surround] = length (bt_emitted b)" by (simp add: b)
  show ?thesis
    using shim_to_kernel_conserves [OF k _ n d b_def l refl, of "py_walk_segment py_demo_env" demo_progs] b
    unfolding b_def [symmetric] by (simp add: z numeral_2_eq_2 One_nat_def)
qed

text \<open>A process whose byte at each address is the low byte of the address, and the records that lie there.\<close>

definition addr_env :: walk_env where
  "addr_env = mem_env\<lparr>e_umem := \<lambda>a. Some (ucast a)\<rparr>"

definition records_at :: "u64 \<Rightarrow> layout \<Rightarrow> nat \<Rightarrow> u8 list list list" where
  "records_at p l n = map (\<lambda>j. map (\<lambda>i. map (\<lambda>b. ucast (p + of_nat (j * struct_size l + field_offset l i + b))) [0..<fst (l ! i) * snd (l ! i)])
     [0..<length l]) [0..<n]"

theorem abi_fields_delivered_witness:
  "case gpu_usdt_batch demo_genv addr_env (py_walk_segment py_demo_env) demo_progs (demo_args 2 3) (with_drv demo_gpu) of y \<Rightarrow>
   \<exists>ms. g_events (x_drv y) = g_events demo_gpu @ ms \<and> length ms = 1 \<and>
    list_all (\<lambda>m. b_kind m = KIND_EXEC \<and> unat (b_count m) = 3 \<and>
      (\<forall>j < 3. \<forall>i < 6. field_bytes gpu_exec_v1 (b_payload m) (j * 48) i = records_at 0x2000 gpu_exec_v1 3 ! j ! i)) ms"
proof -
  have k: "(KIND_EXEC, gpu_exec_v1) \<in> set layout_of" by (simp add: layout_of_def)
  have a: "KIND_EXEC = (ucast (a_cookie (demo_args 2 3)) :: u32)" by (simp add: demo_args_def)
  have st: "stored (e_umem addr_env) (a_ptr (demo_args 2 3)) gpu_exec_v1 (records_at 0x2000 gpu_exec_v1 3)"
    by (simp add: stored_def records_at_def addr_env_def demo_args_def)
  have n: "length (records_at 0x2000 gpu_exec_v1 3) = unat (a_count (demo_args 2 3))" by (simp add: records_at_def demo_args_def)
  have s: "g_stack_id_seq (x_drv (with_drv demo_gpu)) = [0]" by (simp add: demo_gpu_def)
  have m: "max_records KIND_EXEC = 64" by (simp add: max_records_def BATCH_CAP_def)
  have z: "length (records_at 0x2000 gpu_exec_v1 3) = 3" "records_at 0x2000 gpu_exec_v1 3 \<noteq> []" "n_rb_room demo_genv q" for q
    by (simp_all add: records_at_def demo_genv_def)
  have l: "length gpu_exec_v1 = 6" "record_size KIND_EXEC = 48" by (simp_all add: gpu_exec_v1_def record_size_def)
  show ?thesis
    using abi_fields_delivered [OF k a st n with_drv_ok demo_world_ok(4) s refl, of demo_genv py_demo_env]
    by (auto simp: l m z list_all_iff le_Suc_eq)
qed

end
